(* ===== verification/Prelude.thy ===== *)
theory Prelude
  imports Main "HOL-Library.AList"
begin

text \<open>
  Shared vocabulary of the development: the result type of code that may raise, the Python
  operations on lists and dictionaries the sources use (slices, ordered dictionaries), and the
  integer helpers of \<^verbatim>\<open>vllm/utils/math_utils.py\<close>, with the lemmas every component needs.
  Lemmas that carry the component proofs are collected in \<open>res_simps\<close> (the error monad) and
  \<open>arith_facts\<close> (ceiling division).
\<close>

named_theorems res_simps \<open>characteristic equations of the error monad\<close>
named_theorems arith_facts \<open>facts on ceiling division and rounding\<close>

section \<open>Code that may raise\<close>

text \<open>
  The exceptions the modelled code raises. A function that can raise returns \<open>pyerr + 'a\<close>:
  \<open>Inl\<close> carries the exception and the callers of the sources never catch it, so \<open>and_then\<close>
  propagates it. \<open>Diverges\<close> is no exception: it is the value of a loop that does not return.
\<close>

datatype pyerr =
    AssertionError
  | ValueError
  | RuntimeError
  | IndexError
  | KeyError
  | OverflowError
  | NotImplementedError
  | TypeError
  | StopIteration
  | Diverges

type_synonym 'a res = "pyerr + 'a"

definition and_then :: "'a res \<Rightarrow> ('a \<Rightarrow> 'b res) \<Rightarrow> 'b res" where
  "and_then r f = (case r of Inl e \<Rightarrow> Inl e | Inr x \<Rightarrow> f x)"

definition py_assert :: "bool \<Rightarrow> unit res" where
  "py_assert b = (if b then Inr () else Inl AssertionError)"

definition py_index :: "'a list \<Rightarrow> int \<Rightarrow> 'a res" where
  "py_index xs i =
     (if 0 \<le> i \<and> nat i < length xs then Inr (xs ! nat i)
      else if i < 0 \<and> - i \<le> int (length xs) then Inr (xs ! (length xs - nat (- i)))
      else Inl IndexError)"

definition of_option :: "pyerr \<Rightarrow> 'a option \<Rightarrow> 'a res" where
  "of_option e v = (case v of None \<Rightarrow> Inl e | Some x \<Rightarrow> Inr x)"

text \<open>A \<open>for\<close> loop over a list whose body updates the state and may raise.\<close>

fun fold_res :: "('a \<Rightarrow> 's \<Rightarrow> 's res) \<Rightarrow> 'a list \<Rightarrow> 's \<Rightarrow> 's res" where
  "fold_res f [] s = Inr s"
| "fold_res f (x # xs) s = and_then (f x s) (fold_res f xs)"

fun map_res :: "('a \<Rightarrow> 'b res) \<Rightarrow> 'a list \<Rightarrow> 'b list res" where
  "map_res f [] = Inr []"
| "map_res f (x # xs) = and_then (f x) (\<lambda>y. and_then (map_res f xs) (\<lambda>ys. Inr (y # ys)))"

lemma and_then_simps [simp, res_simps]:
  "and_then (Inl e) f = Inl e"
  "and_then (Inr x) f = f x"
  by (simp_all add: and_then_def)

lemma and_then_eq_Inr [res_simps]:
  "and_then r f = Inr y \<longleftrightarrow> (\<exists>x. r = Inr x \<and> f x = Inr y)"
  by (cases r) simp_all

lemma and_then_eq_Inl [res_simps]:
  "and_then r f = Inl e \<longleftrightarrow> r = Inl e \<or> (\<exists>x. r = Inr x \<and> f x = Inl e)"
  by (cases r) simp_all

lemma py_assert_simps [simp, res_simps]:
  "py_assert b = Inr u \<longleftrightarrow> b"
  "py_assert b = Inl e \<longleftrightarrow> \<not> b \<and> e = AssertionError"
  "py_assert True = Inr ()"
  by (auto simp: py_assert_def)

lemma of_option_simps [simp, res_simps]:
  "of_option e (Some x) = Inr x"
  "of_option e None = Inl e"
  by (simp_all add: of_option_def)

lemma of_option_eq_Inr [res_simps]: "of_option e v = Inr x \<longleftrightarrow> v = Some x"
  by (cases v) simp_all

lemma py_index_nat [res_simps]: "i < length xs \<Longrightarrow> py_index xs (int i) = Inr (xs ! i)"
  by (simp add: py_index_def)

lemma fold_res_append:
  "fold_res f (xs @ ys) s = and_then (fold_res f xs s) (fold_res f ys)"
proof (induction xs arbitrary: s)
  case (Cons x xs)
  then show ?case by (cases "f x s") simp_all
qed simp

text \<open>An invariant kept by every successful body is kept by the loop.\<close>

lemma fold_res_invariant:
  assumes "fold_res f xs s = Inr s'" and "P s"
    and "\<And>x s s'. x \<in> set xs \<Longrightarrow> P s \<Longrightarrow> f x s = Inr s' \<Longrightarrow> P s'"
  shows "P s'"
  using assms
proof (induction xs arbitrary: s)
  case (Cons x xs)
  from Cons.prems(1) obtain t where t: "f x s = Inr t" "fold_res f xs t = Inr s'"
    by (auto simp: and_then_eq_Inr)
  have "P t" using Cons.prems(2) t(1) Cons.prems(3) by auto
  then show ?case using Cons.IH [OF t(2)] Cons.prems(3) by (meson list.set_intros(2))
qed simp

text \<open>A loop whose body never raises under an invariant it keeps does not raise.\<close>

lemma fold_res_progress:
  assumes "P s"
    and "\<And>x s. x \<in> set xs \<Longrightarrow> P s \<Longrightarrow> \<exists>s'. f x s = Inr s' \<and> P s'"
  shows "\<exists>s'. fold_res f xs s = Inr s' \<and> P s'"
  using assms
proof (induction xs arbitrary: s)
  case (Cons x xs)
  from Cons.prems obtain t where "f x s = Inr t" "P t" by (meson list.set_intros(1))
  with Cons show ?case by simp
qed simp

section \<open>Python lists\<close>

text \<open>
  \<open>xs[a:b]\<close> with non-negative bounds, and with a bound counted from the end when negative.
\<close>

definition py_clip :: "'a list \<Rightarrow> int \<Rightarrow> nat" where
  "py_clip xs i = nat (max 0 (min (int (length xs)) (if i < 0 then int (length xs) + i else i)))"

definition py_slice :: "'a list \<Rightarrow> int \<Rightarrow> int \<Rightarrow> 'a list" where
  "py_slice xs a b = take (py_clip xs b - py_clip xs a) (drop (py_clip xs a) xs)"

definition py_from :: "'a list \<Rightarrow> int \<Rightarrow> 'a list" where
  "py_from xs a = drop (py_clip xs a) xs"

definition py_upto :: "'a list \<Rightarrow> int \<Rightarrow> 'a list" where
  "py_upto xs b = take (py_clip xs b) xs"

lemma py_clip_nat [simp]: "py_clip xs (int n) = min n (length xs)"
  by (simp add: py_clip_def)

lemma py_clip_le [simp]: "py_clip xs i \<le> length xs"
  by (simp add: py_clip_def)

lemma py_slice_nat:
  "a \<le> b \<Longrightarrow> b \<le> length xs \<Longrightarrow> py_slice xs (int a) (int b) = take (b - a) (drop a xs)"
  by (simp add: py_slice_def)

lemma length_py_slice:
  "0 \<le> a \<Longrightarrow> a \<le> b \<Longrightarrow> b \<le> int (length xs) \<Longrightarrow> int (length (py_slice xs a b)) = b - a"
  by (simp add: py_slice_def py_clip_def)

lemma set_py_slice: "set (py_slice xs a b) \<subseteq> set xs"
  by (metis py_slice_def set_drop_subset set_take_subset subset_trans)

lemma set_py_from: "set (py_from xs a) \<subseteq> set xs"
  by (simp add: py_from_def set_drop_subset)

lemma set_py_upto: "set (py_upto xs b) \<subseteq> set xs"
  by (simp add: py_upto_def set_take_subset)

lemma distinct_count_list:
  "distinct xs \<Longrightarrow> count_list xs x = (if x \<in> set xs then 1 else 0)"
  by (induction xs) auto

section \<open>Ordered dictionaries\<close>

text \<open>
  A Python dictionary keeps insertion order. Where the order or the number of entries is
  observable it is an association list with distinct keys: \<open>AList.update\<close> overwrites in place
  or appends, \<open>AList.delete\<close> removes, \<open>map_of\<close> reads.
\<close>

abbreviation keys :: "('k \<times> 'v) list \<Rightarrow> 'k list" where
  "keys d \<equiv> map fst d"

definition dict_get :: "('k \<times> 'v) list \<Rightarrow> 'k \<Rightarrow> 'v \<Rightarrow> 'v" where
  "dict_get d k v = (case map_of d k of None \<Rightarrow> v | Some x \<Rightarrow> x)"

lemma dict_get_simps [simp]:
  "map_of d k = Some x \<Longrightarrow> dict_get d k v = x"
  "map_of d k = None \<Longrightarrow> dict_get d k v = v"
  by (simp_all add: dict_get_def)

lemma dict_get_update [simp]:
  "dict_get (AList.update k x d) k' v = (if k' = k then x else dict_get d k' v)"
  by (simp add: dict_get_def update_conv')

lemma dict_get_delete [simp]:
  "dict_get (AList.delete k d) k' v = (if k' = k then v else dict_get d k' v)"
  by (simp add: dict_get_def delete_conv')

lemma update_new: "k \<notin> fst ` set d \<Longrightarrow> AList.update k v d = d @ [(k, v)]"
  by (induction d) auto

section \<open>Integer helpers (vllm/utils/math_utils.py)\<close>

text \<open>
  Python's \<open>//\<close> rounds towards minus infinity, as \<open>div\<close> on \<open>int\<close> does. Divisors are block
  sizes and alignments, positive in every configuration the code accepts; the theorems that
  divide carry that hypothesis.
\<close>

definition cdiv :: "int \<Rightarrow> int \<Rightarrow> int" where
  "cdiv a b = - (a div (- b))"

definition round_up :: "int \<Rightarrow> int \<Rightarrow> int" where
  "round_up x y = ((x + y - 1) div y) * y"

definition round_down :: "int \<Rightarrow> int \<Rightarrow> int" where
  "round_down x y = (x div y) * y"

lemma le_div_iff_mult_le:
  fixes a b k :: int
  assumes "0 < b"
  shows "k \<le> a div b \<longleftrightarrow> k * b \<le> a"
proof
  assume "k \<le> a div b"
  then have "k * b \<le> a div b * b" using assms by (simp add: mult_right_mono)
  also have "\<dots> \<le> a"
    using div_mult_mod_eq [of a b] pos_mod_sign [OF assms, of a] by linarith
  finally show "k * b \<le> a" .
next
  assume "k * b \<le> a"
  then have "k * b div b \<le> a div b" by (rule zdiv_mono1) (rule assms)
  then show "k \<le> a div b" using assms by simp
qed

lemma cdiv_bounds [arith_facts]:
  assumes "0 < b"
  shows "a \<le> cdiv a b * b" and "cdiv a b * b < a + b"
proof -
  have "a = - b * (a div - b) + a mod - b" by (rule mult_div_mod_eq [symmetric])
  moreover have "- b < a mod - b" "a mod - b \<le> 0"
    using assms by (auto simp: neg_mod_sign neg_mod_bound)
  ultimately show "a \<le> cdiv a b * b" "cdiv a b * b < a + b"
    by (auto simp: cdiv_def algebra_simps)
qed

lemma cdiv_le_iff [arith_facts]:
  assumes "0 < b"
  shows "cdiv a b \<le> n \<longleftrightarrow> a \<le> n * b"
proof
  assume "cdiv a b \<le> n"
  then have "cdiv a b * b \<le> n * b" using assms by simp
  then show "a \<le> n * b" using cdiv_bounds(1) [OF assms, of a] by linarith
next
  assume "a \<le> n * b"
  then have "cdiv a b * b < (n + 1) * b"
    using cdiv_bounds(2) [OF assms, of a] by (simp add: algebra_simps)
  then have "cdiv a b < n + 1" using assms by (simp add: mult_less_cancel_right)
  then show "cdiv a b \<le> n" by simp
qed

lemma cdiv_mono [arith_facts]: "0 < b \<Longrightarrow> a \<le> a' \<Longrightarrow> cdiv a b \<le> cdiv a' b"
  using cdiv_bounds(1) [of b a'] by (simp add: cdiv_le_iff)

lemma cdiv_nonneg [arith_facts]: "0 < b \<Longrightarrow> 0 \<le> a \<Longrightarrow> 0 \<le> cdiv a b"
  using cdiv_le_iff [of b a "- 1"] by linarith

lemma cdiv_zero [simp]: "cdiv 0 b = 0"
  by (simp add: cdiv_def)

lemma round_up_cdiv: "0 < y \<Longrightarrow> round_up x y = cdiv x y * y"
proof -
  assume y: "0 < y"
  have "(x + y - 1) div y = cdiv x y"
    using cdiv_bounds [OF y, of x] y by (intro int_div_pos_eq [where r = "x + y - 1 - y * cdiv x y"])
      (auto simp: algebra_simps)
  then show ?thesis by (simp add: round_up_def)
qed

end
