(* ===== verification/Request.thy ===== *)
theory Request
  imports Complex_Main Prelude "HOL-Library.Word" "HOL-Library.Char_ord" "HOL-Library.List_Lexorder" "HOL-Library.Product_Lexorder"
begin

text \<open>
  Requests as the scheduler sees them: \<^verbatim>\<open>vllm/v1/request.py\<close> (the attributes, the status
  enumeration, the order used for priority scheduling) and the stop checks of
  \<^verbatim>\<open>vllm/v1/core/sched/utils.py\<close>. Attributes that only carry telemetry (events, trace headers)
  are left out. Arrival times are rationals (floats are only compared); \<open>obj_id\<close> stands for
  the identity \<^verbatim>\<open>id(self)\<close> CPython gives the object.
\<close>

section \<open>Status\<close>

datatype request_status =
    WAITING
  | WAITING_FOR_STRUCTURED_OUTPUT_GRAMMAR
  | WAITING_FOR_REMOTE_KVS
  | WAITING_FOR_STREAMING_REQ
  | RUNNING
  | PREEMPTED
  | FINISHED_STOPPED
  | FINISHED_LENGTH_CAPPED
  | FINISHED_ABORTED
  | FINISHED_IGNORED
  | FINISHED_ERROR
  | FINISHED_REPETITION

text \<open>The values \<^verbatim>\<open>enum.auto()\<close> gives the members; the comparison is the one of integers.\<close>

fun status_value :: "request_status \<Rightarrow> nat" where
  "status_value WAITING = 1"
| "status_value WAITING_FOR_STRUCTURED_OUTPUT_GRAMMAR = 2"
| "status_value WAITING_FOR_REMOTE_KVS = 3"
| "status_value WAITING_FOR_STREAMING_REQ = 4"
| "status_value RUNNING = 5"
| "status_value PREEMPTED = 6"
| "status_value FINISHED_STOPPED = 7"
| "status_value FINISHED_LENGTH_CAPPED = 8"
| "status_value FINISHED_ABORTED = 9"
| "status_value FINISHED_IGNORED = 10"
| "status_value FINISHED_ERROR = 11"
| "status_value FINISHED_REPETITION = 12"

lemma status_value_inj [simp]: "status_value s = status_value t \<longleftrightarrow> s = t"
  by (cases s; cases t) simp_all

instantiation request_status :: linorder
begin

definition less_eq_request_status :: "request_status \<Rightarrow> request_status \<Rightarrow> bool" where
  "s \<le> t \<longleftrightarrow> status_value s \<le> status_value t"

definition less_request_status :: "request_status \<Rightarrow> request_status \<Rightarrow> bool" where
  "s < t \<longleftrightarrow> status_value s < status_value t"

instance
  by standard (auto simp: less_eq_request_status_def less_request_status_def)

end

definition status_is_finished :: "request_status \<Rightarrow> bool" where
  "status_is_finished s \<longleftrightarrow> PREEMPTED < s"

datatype finish_reason = Reason_STOP | Reason_LENGTH | Reason_ABORT | Reason_ERROR | Reason_REPETITION

fun get_finished_reason :: "request_status \<Rightarrow> finish_reason option" where
  "get_finished_reason FINISHED_STOPPED = Some Reason_STOP"
| "get_finished_reason FINISHED_LENGTH_CAPPED = Some Reason_LENGTH"
| "get_finished_reason FINISHED_ABORTED = Some Reason_ABORT"
| "get_finished_reason FINISHED_IGNORED = Some Reason_LENGTH"
| "get_finished_reason FINISHED_ERROR = Some Reason_ERROR"
| "get_finished_reason WAITING_FOR_STREAMING_REQ = Some Reason_STOP"
| "get_finished_reason FINISHED_REPETITION = Some Reason_REPETITION"
| "get_finished_reason _ = None"

lemma status_finished_simps [simp]:
  "status_is_finished FINISHED_STOPPED" "status_is_finished FINISHED_LENGTH_CAPPED"
  "status_is_finished FINISHED_ABORTED" "status_is_finished FINISHED_IGNORED"
  "status_is_finished FINISHED_ERROR" "status_is_finished FINISHED_REPETITION"
  "\<not> status_is_finished WAITING" "\<not> status_is_finished WAITING_FOR_STRUCTURED_OUTPUT_GRAMMAR"
  "\<not> status_is_finished WAITING_FOR_REMOTE_KVS" "\<not> status_is_finished WAITING_FOR_STREAMING_REQ"
  "\<not> status_is_finished RUNNING" "\<not> status_is_finished PREEMPTED"
  by (simp_all add: status_is_finished_def less_request_status_def)

section \<open>Parameters and the request record\<close>

type_synonym bytes = "8 word list"

record mm_feature =
  modality :: string
  mm_identifier :: string
  mm_offset :: int
  mm_length :: int
  is_embed :: "bool list option"

record repetition_params =
  max_pattern_size :: int
  min_pattern_size :: int
  min_count :: int

record sampling_params =
  sp_max_tokens :: "int option"
  sp_min_tokens :: int
  sp_eos_token_id :: "int option"
  sp_stop_token_ids :: "int list option"
  sp_repetition_detection :: "repetition_params option"
  sp_structured_outputs :: "string option"
  sp_skip_reading_prefix_cache :: "bool option"
  sp_logprobs :: "int option"
  sp_kv_transfer_params :: "(string \<times> string) list option"

record pooling_params =
  pp_skip_reading_prefix_cache :: "bool option"

record lora_request =
  lora_name :: string
  lora_int_id :: int

record structured_output_request =
  so_params :: string
  so_grammar :: bool
  so_reasoning_ended :: "bool option"

text \<open>What a streaming session receives as its continuation.\<close>

record streaming_update =
  su_mm_features :: "mm_feature list option"
  su_prompt_token_ids :: "int list option"
  su_max_tokens :: int
  su_arrival_time :: rat
  su_sampling_params :: "sampling_params option"

datatype stop_reason = StopToken int | RepetitionDetected

record request =
  request_id :: string
  obj_id :: nat
  client_index :: int
  priority :: int
  arrival_time :: rat
  sampling_params :: "sampling_params option"
  pooling_params :: "pooling_params option"
  lora_request :: "lora_request option"
  structured_output_request :: "structured_output_request option"
  status :: request_status
  stop_reason :: "stop_reason option"
  kv_transfer_params :: "(string \<times> string) list option"
  max_tokens :: int
  prompt_token_ids :: "int list option"
  prompt_embeds :: "int list list option"
  prompt_embeds_per_block_hashes :: "((int \<times> int) \<times> bytes) list"
  num_prompt_tokens :: int
  output_token_ids :: "int list"
  all_token_ids :: "int list"
  num_output_placeholders :: int
  discard_latest_async_tokens :: bool
  spec_token_ids :: "int list"
  num_computed_tokens :: int
  cache_salt :: "string option"
  mm_features :: "mm_feature list"
  num_cached_tokens :: int
  is_prefill_chunk :: bool
  num_nans_in_logits :: int
  num_preemptions :: int
  num_external_computed_tokens :: int
  block_hashes :: "bytes list"
  skip_reading_prefix_cache :: bool
  resumable :: bool
  streaming_queue :: "streaming_update option list option"

definition get_num_embeds :: "mm_feature \<Rightarrow> int" where
  "get_num_embeds f = (case is_embed f of None \<Rightarrow> mm_length f | Some m \<Rightarrow> int (length (filter id m)))"

definition length_from_prompt_token_ids_or_embeds ::
  "int list option \<Rightarrow> int list list option \<Rightarrow> int res" where
  "length_from_prompt_token_ids_or_embeds toks embeds =
     (case toks of
        None \<Rightarrow> (case embeds of None \<Rightarrow> Inl ValueError | Some e \<Rightarrow> Inr (int (length e)))
      | Some t \<Rightarrow>
          (case embeds of
             None \<Rightarrow> Inr (int (length t))
           | Some e \<Rightarrow> if length e \<noteq> length t then Inl ValueError else Inr (int (length t))))"

definition from_sampling_params ::
  "sampling_params option \<Rightarrow> structured_output_request option" where
  "from_sampling_params sp =
     (case sp of None \<Rightarrow> None
      | Some s \<Rightarrow> (case sp_structured_outputs s of None \<Rightarrow> None
          | Some p \<Rightarrow> Some \<lparr>so_params = p, so_grammar = False, so_reasoning_ended = None\<rparr>))"

definition from_request :: "request \<Rightarrow> streaming_update option" where
  "from_request r =
     (if \<not> resumable r then None
      else Some \<lparr>su_mm_features = Some (mm_features r), su_prompt_token_ids = prompt_token_ids r,
        su_max_tokens = max_tokens r, su_arrival_time = arrival_time r,
        su_sampling_params = sampling_params r\<rparr>)"

text \<open>A plain text-generation request with the given prompt, for the witnesses.\<close>

definition base_request :: "string \<Rightarrow> int list \<Rightarrow> request" where
  "base_request rid toks = \<lparr>request_id = rid, obj_id = 0, client_index = 0, priority = 0,
     arrival_time = 0,
     sampling_params = Some \<lparr>sp_max_tokens = Some 16, sp_min_tokens = 0, sp_eos_token_id = Some 2,
       sp_stop_token_ids = None, sp_repetition_detection = None, sp_structured_outputs = None,
       sp_skip_reading_prefix_cache = None, sp_logprobs = None, sp_kv_transfer_params = None\<rparr>,
     pooling_params = None, lora_request = None, structured_output_request = None,
     status = WAITING, stop_reason = None, kv_transfer_params = None, max_tokens = 16,
     prompt_token_ids = Some toks, prompt_embeds = None, prompt_embeds_per_block_hashes = [],
     num_prompt_tokens = int (length toks), output_token_ids = [], all_token_ids = toks,
     num_output_placeholders = 0, discard_latest_async_tokens = False, spec_token_ids = [],
     num_computed_tokens = 0, cache_salt = None, mm_features = [], num_cached_tokens = - 1,
     is_prefill_chunk = False, num_nans_in_logits = 0, num_preemptions = 0,
     num_external_computed_tokens = 0, block_hashes = [], skip_reading_prefix_cache = False,
     resumable = False, streaming_queue = None\<rparr>"

section \<open>Derived attributes\<close>

definition use_structured_output :: "request \<Rightarrow> bool" where
  "use_structured_output r \<longleftrightarrow> structured_output_request r \<noteq> None"

definition num_tokens :: "request \<Rightarrow> int" where
  "num_tokens r = int (length (all_token_ids r))"

definition num_tokens_with_spec :: "request \<Rightarrow> int" where
  "num_tokens_with_spec r = int (length (all_token_ids r)) + int (length (spec_token_ids r))"

definition num_output_tokens :: "request \<Rightarrow> int" where
  "num_output_tokens r = int (length (output_token_ids r))"

definition num_encoder_inputs :: "request \<Rightarrow> int" where
  "num_encoder_inputs r = int (length (mm_features r))"

definition has_encoder_inputs :: "request \<Rightarrow> bool" where
  "has_encoder_inputs r \<longleftrightarrow> num_encoder_inputs r > 0"

definition get_skip_reading_prefix_cache ::
  "sampling_params option \<Rightarrow> pooling_params option \<Rightarrow> bool" where
  "get_skip_reading_prefix_cache sp pp =
     (case Option.bind sp sp_skip_reading_prefix_cache of
        Some b \<Rightarrow> b
      | None \<Rightarrow> (case Option.bind pp pp_skip_reading_prefix_cache of Some b \<Rightarrow> b | None \<Rightarrow> False))"

definition is_finished :: "request \<Rightarrow> bool" where
  "is_finished r \<longleftrightarrow> status_is_finished (status r)"

definition get_num_encoder_embeds :: "request \<Rightarrow> int \<Rightarrow> int res" where
  "get_num_encoder_embeds r i =
     and_then (py_assert (i < int (length (mm_features r))))
       (\<lambda>_. and_then (py_index (mm_features r) i) (\<lambda>f. Inr (get_num_embeds f)))"

text \<open>\<^verbatim>\<open>Request.__lt__\<close>, the order of the priority queue.\<close>

definition request_lt :: "request \<Rightarrow> request \<Rightarrow> bool" where
  "request_lt a b =
     (if priority a \<noteq> priority b then priority a < priority b
      else if arrival_time a \<noteq> arrival_time b then arrival_time a < arrival_time b
      else if request_id a \<noteq> request_id b then request_id a < request_id b
      else obj_id a < obj_id b)"

section \<open>Stop checks\<close>

text \<open>
  The two nested loops of \<^verbatim>\<open>_has_repeating_pattern\<close>, with the early return as \<open>False\<close>; an index
  out of range would raise, as in the source.
\<close>

fun match_repeats :: "int list \<Rightarrow> int \<Rightarrow> int \<Rightarrow> int \<Rightarrow> nat list \<Rightarrow> bool res" where
  "match_repeats ts target pattern_len n [] = Inr True"
| "match_repeats ts target pattern_len n (m # ms) =
     and_then (py_index ts (- (pattern_len * int m + n)))
       (\<lambda>t. if t \<noteq> target then Inr False else match_repeats ts target pattern_len n ms)"

fun match_positions :: "int list \<Rightarrow> int \<Rightarrow> int \<Rightarrow> nat list \<Rightarrow> bool res" where
  "match_positions ts pattern_len cnt [] = Inr True"
| "match_positions ts pattern_len cnt (n # ns) =
     and_then (py_index ts (- int n)) (\<lambda>target.
       and_then (match_repeats ts target pattern_len (int n) [1..<nat cnt]) (\<lambda>ok.
         if ok then match_positions ts pattern_len cnt ns else Inr False))"

definition has_repeating_pattern :: "int list \<Rightarrow> int \<Rightarrow> int \<Rightarrow> bool res" where
  "has_repeating_pattern ts pattern_len repetition_min_count =
     match_positions ts pattern_len repetition_min_count [1..<nat (pattern_len + 1)]"

fun try_patterns :: "int list \<Rightarrow> int \<Rightarrow> nat list \<Rightarrow> bool res" where
  "try_patterns ts cnt [] = Inr False"
| "try_patterns ts cnt (l # ls) =
     (if int l * cnt > int (length ts) then Inr False
      else and_then (has_repeating_pattern ts (int l) cnt)
        (\<lambda>found. if found then Inr True else try_patterns ts cnt ls))"

definition check_sequence_repetition :: "int list \<Rightarrow> repetition_params \<Rightarrow> bool res" where
  "check_sequence_repetition ts p =
     (let mn = (if min_pattern_size p \<le> 0 then 1 else min_pattern_size p)
      in if max_pattern_size p \<le> 0 \<or> min_count p < 2 \<or> mn > max_pattern_size p then Inr False
         else try_patterns ts (min_count p) [nat mn..<nat (max_pattern_size p + 1)])"

definition remove_all :: "'a list \<Rightarrow> 'a set \<Rightarrow> 'a list" where
  "remove_all lst items =
     (if items = {} then lst
      else if card items = 1 then remove1 (the_elem items) lst
      else filter (\<lambda>x. x \<notin> items) lst)"

definition check_stop :: "request \<Rightarrow> int \<Rightarrow> (bool \<times> request) res" where
  "check_stop r max_model_len =
     and_then (py_assert (pooling_params r = None)) (\<lambda>_.
     and_then (of_option AssertionError (sampling_params r)) (\<lambda>sp.
       if num_output_tokens r < sp_min_tokens sp then Inr (False, r)
       else and_then (py_index (output_token_ids r) (- 1)) (\<lambda>last_token_id.
         if Some last_token_id = sp_eos_token_id sp
         then Inr (True, r\<lparr>status := FINISHED_STOPPED\<rparr>)
         else if last_token_id \<in> set (case sp_stop_token_ids sp of None \<Rightarrow> [] | Some l \<Rightarrow> l)
         then Inr (True, r\<lparr>status := FINISHED_STOPPED, stop_reason := Some (StopToken last_token_id)\<rparr>)
         else if num_tokens r \<ge> max_model_len \<or> num_output_tokens r \<ge> max_tokens r
         then Inr (True, r\<lparr>status := FINISHED_LENGTH_CAPPED\<rparr>)
         else case sp_repetition_detection sp of
             None \<Rightarrow> Inr (False, r)
           | Some p \<Rightarrow> and_then (check_sequence_repetition (output_token_ids r) p) (\<lambda>rep.
               if rep
               then Inr (True, r\<lparr>status := FINISHED_REPETITION,
                                 stop_reason := Some RepetitionDetected\<rparr>)
               else Inr (False, r)))))"

lemma base_request_sel [simp]:
  "request_id (base_request i ts) = i" "all_token_ids (base_request i ts) = ts"
  "output_token_ids (base_request i ts) = []" "mm_features (base_request i ts) = []"
  "lora_request (base_request i ts) = None" "cache_salt (base_request i ts) = None"
  "prompt_embeds (base_request i ts) = None" "block_hashes (base_request i ts) = []"
  "prompt_embeds_per_block_hashes (base_request i ts) = []" "status (base_request i ts) = WAITING"
  "num_computed_tokens (base_request i ts) = 0" "spec_token_ids (base_request i ts) = []"
  "priority (base_request i ts) = 0" "arrival_time (base_request i ts) = 0"
  "skip_reading_prefix_cache (base_request i ts) = False" "num_preemptions (base_request i ts) = 0"
  "num_prompt_tokens (base_request i ts) = int (length ts)" "pooling_params (base_request i ts) = None"
  "num_output_placeholders (base_request i ts) = 0" "streaming_queue (base_request i ts) = None"
  "resumable (base_request i ts) = False" "obj_id (base_request i ts) = 0"
  by (simp_all add: base_request_def)

section \<open>The order of the priority queue\<close>

definition request_key :: "request \<Rightarrow> int \<times> rat \<times> string \<times> nat" where
  "request_key r = (priority r, arrival_time r, request_id r, obj_id r)"

lemma request_lt_key: "request_lt a b \<longleftrightarrow> request_key a < request_key b"
  by (auto simp: request_lt_def request_key_def less_prod_def)

section \<open>Repetition detection\<close>

text \<open>The specification: the tail of \<open>ts\<close> is its last \<open>l\<close> tokens, repeated \<open>c\<close> times.\<close>

definition tail_repeats :: "int list \<Rightarrow> nat \<Rightarrow> nat \<Rightarrow> bool" where
  "tail_repeats ts l c \<longleftrightarrow> l * c \<le> length ts \<and>
     drop (length ts - l * c) ts = concat (replicate c (drop (length ts - l) ts))"

lemma length_concat_replicate [simp]: "length (concat (replicate c xs)) = c * length xs"
  by (induction c) simp_all

lemma nth_concat_replicate:
  "m < c \<Longrightarrow> j < length xs \<Longrightarrow> concat (replicate c xs) ! (length xs * m + j) = xs ! j"
proof (induction c arbitrary: m)
  case (Suc c)
  then show ?case by (cases m) (auto simp: nth_append ac_simps)
qed simp

lemma take_eq_concat_replicate:
  assumes "0 < l" "l * c \<le> length u" "0 < c"
  shows "take (l * c) u = concat (replicate c (take l u)) \<longleftrightarrow>
    (\<forall>j<l. \<forall>m. 1 \<le> m \<and> m < c \<longrightarrow> u ! (l * m + j) = u ! j)"
proof -
  have lu: "length (take l u) = l" using assms by (cases c) auto
  have split: "\<exists>m j. i = l * m + j \<and> j < l \<and> m < c" if "i < l * c" for i
    using that assms
    by (intro exI [of _ "i div l"] exI [of _ "i mod l"]) (auto simp: less_mult_imp_div_less ac_simps)
  have nth: "concat (replicate c (take l u)) ! (l * m + j) = u ! j" if "m < c" "j < l" for m j
    using nth_concat_replicate [of m c j "take l u"] that lu by simp
  have lt: "l * m + j < l * c" if "m < c" "j < l" for m j
  proof -
    have "l * m + j < l * Suc m" using that by simp
    also have "\<dots> \<le> l * c" using that by (intro mult_le_mono2) simp
    finally show ?thesis .
  qed
  have "take (l * c) u = concat (replicate c (take l u)) \<longleftrightarrow>
      (\<forall>i<l * c. u ! i = concat (replicate c (take l u)) ! i)"
    using assms lu by (auto simp: list_eq_iff_nth_eq ac_simps)
  also have "\<dots> \<longleftrightarrow> (\<forall>j<l. \<forall>m<c. u ! (l * m + j) = u ! j)"
    using split nth lt by metis
  also have "\<dots> \<longleftrightarrow> (\<forall>j<l. \<forall>m. 1 \<le> m \<and> m < c \<longrightarrow> u ! (l * m + j) = u ! j)"
    by (metis add_0 less_one linorder_not_le mult_0_right)
  finally show ?thesis .
qed

lemma rev_concat_replicate: "rev (concat (replicate c xs)) = concat (replicate c (rev xs))"
  by (simp add: rev_concat map_replicate_const [symmetric])

lemma tail_repeats_rev:
  assumes "0 < l" "0 < c" "l * c \<le> length ts"
  shows "tail_repeats ts l c \<longleftrightarrow>
    (\<forall>j<l. \<forall>m. 1 \<le> m \<and> m < c \<longrightarrow> rev ts ! (l * m + j) = rev ts ! j)"
proof -
  have "tail_repeats ts l c \<longleftrightarrow>
      rev (drop (length ts - l * c) ts) = rev (concat (replicate c (drop (length ts - l) ts)))"
    using assms by (simp add: tail_repeats_def)
  also have "\<dots> \<longleftrightarrow> take (l * c) (rev ts) = concat (replicate c (take l (rev ts)))"
    using assms by (simp add: rev_concat_replicate take_rev)
  finally show ?thesis using take_eq_concat_replicate [of l c "rev ts"] assms by simp
qed

lemma py_index_from_end:
  "1 \<le> n \<Longrightarrow> n \<le> length ts \<Longrightarrow> py_index ts (- int n) = Inr (rev ts ! (n - 1))"
  by (auto simp: py_index_def rev_nth)

lemma match_repeats_spec:
  assumes "\<forall>m\<in>set ms. 1 \<le> l * m + n \<and> l * m + n \<le> length ts"
  shows "match_repeats ts target (int l) (int n) ms =
    Inr (\<forall>m\<in>set ms. rev ts ! (l * m + n - 1) = target)"
  using assms
proof (induction ms)
  case (Cons m ms)
  have "- (int l * int m + int n) = - int (l * m + n)" by simp
  with Cons show ?case by (simp add: py_index_from_end del: of_nat_add of_nat_mult)
qed simp

lemma match_positions_spec:
  assumes "\<forall>n\<in>set ns. 1 \<le> n \<and> n \<le> l" and "l * c \<le> length ts" and "0 < c"
  shows "match_positions ts (int l) (int c) ns =
    Inr (\<forall>n\<in>set ns. \<forall>m\<in>set [1..<c]. rev ts ! (l * m + n - 1) = rev ts ! (n - 1))"
  using assms(1)
proof (induction ns)
  case (Cons n ns)
  have b: "l * m + n \<le> length ts" if "m < c" for m
  proof -
    have "l * m + n \<le> l * Suc m" using Cons.prems by simp
    also have "\<dots> \<le> l * c" using that by (intro mult_le_mono2) simp
    finally show ?thesis using assms(2) by simp
  qed
  have n: "1 \<le> n" "n \<le> length ts" using Cons.prems b [of 0] assms(3) by auto
  have "match_repeats ts (rev ts ! (n - 1)) (int l) (int n) [1..<c] =
      Inr (\<forall>m\<in>set [1..<c]. rev ts ! (l * m + n - 1) = rev ts ! (n - 1))"
    using b n by (intro match_repeats_spec) auto
  then show ?case using Cons n by (auto simp: py_index_from_end)
qed simp

lemma has_repeating_pattern_spec:
  assumes "0 < l" "0 < c" "l * c \<le> length ts"
  shows "has_repeating_pattern ts (int l) (int c) = Inr (tail_repeats ts l c)"
proof -
  have "has_repeating_pattern ts (int l) (int c) =
      Inr (\<forall>n\<in>set [1..<Suc l]. \<forall>m\<in>set [1..<c]. rev ts ! (l * m + n - 1) = rev ts ! (n - 1))"
    unfolding has_repeating_pattern_def
    using match_positions_spec [of "[1..<Suc l]" l c ts] assms
    by (simp add: nat_add_distrib del: upt_Suc)
  also have "(\<forall>n\<in>set [1..<Suc l]. \<forall>m\<in>set [1..<c]. rev ts ! (l * m + n - 1) = rev ts ! (n - 1))
      \<longleftrightarrow> (\<forall>j<l. \<forall>m. 1 \<le> m \<and> m < c \<longrightarrow> rev ts ! (l * m + j) = rev ts ! j)"
    (is "?L \<longleftrightarrow> ?R")
  proof
    assume L: ?L
    show ?R
    proof (intro allI impI)
      fix j m assume "j < l" "1 \<le> m \<and> m < c"
      then have "Suc j \<in> set [1..<Suc l]" "m \<in> set [1..<c]" by auto
      with L have "rev ts ! (l * m + Suc j - 1) = rev ts ! (Suc j - 1)" by blast
      then show "rev ts ! (l * m + j) = rev ts ! j" by simp
    qed
  next
    assume R: ?R
    show ?L
    proof (intro ballI)
      fix n m assume "n \<in> set [1..<Suc l]" "m \<in> set [1..<c]"
      then have "n - 1 < l" "1 \<le> m \<and> m < c" "1 \<le> n" by auto
      with R have "rev ts ! (l * m + (n - 1)) = rev ts ! (n - 1)" by blast
      then show "rev ts ! (l * m + n - 1) = rev ts ! (n - 1)" using \<open>1 \<le> n\<close> by simp
    qed
  qed
  finally show ?thesis using tail_repeats_rev [OF assms] by simp
qed

text \<open>The early return is sound: longer patterns need even more tokens.\<close>

lemma try_patterns_spec:
  assumes "sorted ls" "\<forall>l\<in>set ls. 0 < l" "0 < c"
  shows "try_patterns ts (int c) ls = Inr (\<exists>l\<in>set ls. tail_repeats ts l c)"
  using assms(1,2)
proof (induction ls)
  case (Cons l ls)
  show ?case
  proof (cases "l * c \<le> length ts")
    case True
    have "int l * int c \<le> int (length ts)" using True by (metis of_nat_le_iff of_nat_mult)
    with True Cons assms(3) show ?thesis by (simp add: has_repeating_pattern_spec)
  next
    case False
    have "\<not> tail_repeats ts k c" if "k \<in> set (l # ls)" for k
    proof -
      have "l * c \<le> k * c" using that Cons.prems by (intro mult_le_mono1) auto
      then have "\<not> k * c \<le> length ts" using False by linarith
      then show ?thesis by (simp add: tail_repeats_def)
    qed
    moreover have "int (length ts) < int l * int c"
      using False by (metis linorder_not_le of_nat_less_iff of_nat_mult)
    ultimately show ?thesis by auto
  qed
qed simp

lemma check_sequence_repetition_spec:
  "check_sequence_repetition ts p = Inr (0 < max_pattern_size p \<and> 2 \<le> min_count p \<and>
     (\<exists>l. max 1 (min_pattern_size p) \<le> int l \<and> int l \<le> max_pattern_size p \<and>
        tail_repeats ts l (nat (min_count p))))"
proof -
  let ?mn = "if min_pattern_size p \<le> 0 then 1 else min_pattern_size p"
  have mx: "?mn = max 1 (min_pattern_size p)" by auto
  show ?thesis
  proof (cases "max_pattern_size p \<le> 0 \<or> min_count p < 2 \<or> ?mn > max_pattern_size p")
    case True
    then show ?thesis unfolding mx by (auto simp: check_sequence_repetition_def Let_def mx)
  next
    case False
    let ?ls = "[nat ?mn..<nat (max_pattern_size p + 1)]"
    have c: "int (nat (min_count p)) = min_count p" "0 < nat (min_count p)" using False by auto
    have "check_sequence_repetition ts p = try_patterns ts (int (nat (min_count p))) ?ls"
      using False c by (simp add: check_sequence_repetition_def Let_def)
    also have "\<dots> = Inr (\<exists>l\<in>set ?ls. tail_repeats ts l (nat (min_count p)))"
      using c by (intro try_patterns_spec) auto
    also have "(\<exists>l\<in>set ?ls. tail_repeats ts l (nat (min_count p))) \<longleftrightarrow>
        (\<exists>l. max 1 (min_pattern_size p) \<le> int l \<and> int l \<le> max_pattern_size p \<and>
          tail_repeats ts l (nat (min_count p)))"
      unfolding mx [symmetric] Bex_def using False
      by (intro arg_cong [where f = Ex] ext) (auto simp: nat_le_iff zless_nat_eq_int_zless)
    finally show ?thesis using False by simp
  qed
qed

lemma remove_all_single:
  "distinct xs \<Longrightarrow> remove1 x xs = filter (\<lambda>y. y \<notin> {x}) xs"
  by (simp add: distinct_remove1_removeAll removeAll_filter_not_eq eq_commute)

section \<open>Properties\<close>

text \<open>
  C27: repetition detection decides exactly whether, for some pattern length between the configured
  bounds (a minimum of zero counting as one), the output ends in that many tokens repeated
  \<^verbatim>\<open>min_count\<close> times; in particular no index is ever out of range and stopping at the first
  pattern that is too long loses nothing.
\<close>

theorem check_sequence_repetition_correct:
  "check_sequence_repetition ts p = Inr (0 < max_pattern_size p \<and> 2 \<le> min_count p \<and>
     (\<exists>l. max 1 (min_pattern_size p) \<le> int l \<and> int l \<le> max_pattern_size p \<and>
        tail_repeats ts l (nat (min_count p))))"
  by (rule check_sequence_repetition_spec)

text \<open>
  \<^verbatim>\<open>remove_all\<close> drops exactly the given items from a list without duplicates, although its fast
  path for a single item removes only one occurrence.
\<close>

lemma remove_all_filter:
  assumes "distinct lst"
  shows "remove_all lst items = filter (\<lambda>x. x \<notin> items) lst"
  using remove_all_single [OF assms]
  by (auto simp: remove_all_def card_1_singleton_iff)

text \<open>
  C28: the stop check of a generating request never fails once it has an output token, changes
  nothing but the status and the stop reason, and stops the request exactly when the minimum
  number of tokens is out and the last token is the end-of-sequence token or a stop token, a
  length limit is reached, or the output repeats; the new status is then a finished one.
\<close>

theorem check_stop_correct:
  assumes "pooling_params r = None" and "sampling_params r = Some sp" and "output_token_ids r \<noteq> []"
  shows "\<exists>b r'. check_stop r max_model_len = Inr (b, r') \<and>
    r' = r\<lparr>status := status r', stop_reason := stop_reason r'\<rparr> \<and>
    (\<not> b \<longrightarrow> r' = r) \<and> (b \<longrightarrow> is_finished r') \<and>
    (b \<longleftrightarrow> sp_min_tokens sp \<le> num_output_tokens r \<and>
       (Some (last (output_token_ids r)) = sp_eos_token_id sp \<or>
        (\<exists>l. sp_stop_token_ids sp = Some l \<and> last (output_token_ids r) \<in> set l) \<or>
        max_model_len \<le> num_tokens r \<or> max_tokens r \<le> num_output_tokens r \<or>
        (\<exists>p. sp_repetition_detection sp = Some p \<and>
          check_sequence_repetition (output_token_ids r) p = Inr True)))"
proof -
  have last: "py_index (output_token_ids r) (- 1) = Inr (last (output_token_ids r))"
    using py_index_from_end [of 1 "output_token_ids r"] assms(3)
    by (simp add: Suc_le_eq hd_rev [symmetric] hd_conv_nth)
  have rep: "\<exists>v. check_sequence_repetition (output_token_ids r) p = Inr v" for p
    by (simp add: check_sequence_repetition_spec)
  show ?thesis
  proof (cases "sp_repetition_detection sp")
    case None
    then show ?thesis using assms last
      by (cases "sp_stop_token_ids sp") (auto simp: check_stop_def is_finished_def)
  next
    case (Some p)
    with rep obtain v where "check_sequence_repetition (output_token_ids r) p = Inr v" by blast
    with Some show ?thesis using assms last
      by (cases "sp_stop_token_ids sp") (auto simp: check_stop_def is_finished_def)
  qed
qed

theorem check_stop_correct_witness:
  "\<exists>b r'. check_stop ((base_request ''a'' [5, 6])\<lparr>output_token_ids := [7, 2], all_token_ids := [5, 6, 7, 2]\<rparr>) 100
     = Inr (b, r') \<and> b \<and> is_finished r'"
  using check_stop_correct [of "(base_request ''a'' [5, 6])\<lparr>output_token_ids := [7, 2],
      all_token_ids := [5, 6, 7, 2]\<rparr>" "the (sampling_params (base_request ''a'' []))" 100]
  by (auto simp: base_request_def num_output_tokens_def)

end
