(* ===== verification/Sched_Output.thy ===== *)
theory Sched_Output
  imports Request
begin

text \<open>
  What the scheduler tells the workers in one step: \<^verbatim>\<open>vllm/v1/core/sched/output.py\<close>. Dictionaries are
  association lists in insertion order. The metadata of the KV and encoder connectors, opaque objects
  the scheduler only passes on, is left out.
\<close>

record new_request_data =
  nr_req_id :: string
  nr_prompt_token_ids :: "int list option"
  nr_mm_features :: "mm_feature list"
  nr_sampling_params :: "sampling_params option"
  nr_pooling_params :: "pooling_params option"
  nr_block_ids :: "int list list"
  nr_num_computed_tokens :: int
  nr_lora_request :: "lora_request option"
  nr_prompt_embeds :: "int list list option"
  nr_prefill_token_ids :: "int list option"

definition new_request_from_request :: "request \<Rightarrow> int list list \<Rightarrow> int list option \<Rightarrow> new_request_data" where
  "new_request_from_request r block_ids prefill_token_ids =
     \<lparr>nr_req_id = request_id r, nr_prompt_token_ids = prompt_token_ids r, nr_mm_features = mm_features r,
      nr_sampling_params = sampling_params r, nr_pooling_params = pooling_params r, nr_block_ids = block_ids,
      nr_num_computed_tokens = num_computed_tokens r, nr_lora_request = lora_request r,
      nr_prompt_embeds = prompt_embeds r, nr_prefill_token_ids = prefill_token_ids\<rparr>"

record cached_request_data =
  cr_req_ids :: "string list"
  cr_resumed_req_ids :: "string set"
  cr_new_token_ids :: "int list list"
  cr_all_token_ids :: "(string \<times> int list) list"
  cr_new_block_ids :: "int list list option list"
  cr_num_computed_tokens :: "int list"
  cr_num_output_tokens :: "int list"

definition cached_request_make_empty :: cached_request_data where
  "cached_request_make_empty = \<lparr>cr_req_ids = [], cr_resumed_req_ids = {}, cr_new_token_ids = [],
     cr_all_token_ids = [], cr_new_block_ids = [], cr_num_computed_tokens = [], cr_num_output_tokens = []\<rparr>"

text \<open>The dictionary built from two lists: a later entry for a key overwrites an earlier one.\<close>

definition is_context_phase :: "cached_request_data \<Rightarrow> string \<Rightarrow> bool" where
  "is_context_phase c req_id \<longleftrightarrow>
     map_of (fold (\<lambda>(k, v). AList.update k v) (zip (cr_req_ids c) (cr_num_output_tokens c)) []) req_id = Some 0"

record scheduler_output =
  scheduled_new_reqs :: "new_request_data list"
  scheduled_cached_reqs :: cached_request_data
  num_scheduled_tokens :: "(string \<times> int) list"
  total_num_scheduled_tokens :: int
  scheduled_spec_decode_tokens :: "(string \<times> int list) list"
  scheduled_encoder_inputs :: "(string \<times> int list) list"
  num_common_prefix_blocks :: "int list"
  out_finished_req_ids :: "string set"
  free_encoder_mm_hashes :: "string list"
  preempted_req_ids :: "string set option"
  has_structured_output_requests :: bool
  pending_structured_output_tokens :: bool
  num_invalid_spec_tokens :: "(string \<times> int) list option"
  new_block_ids_to_zero :: "int list option"

definition scheduler_output_make_empty :: scheduler_output where
  "scheduler_output_make_empty = \<lparr>scheduled_new_reqs = [], scheduled_cached_reqs = cached_request_make_empty,
     num_scheduled_tokens = [], total_num_scheduled_tokens = 0, scheduled_spec_decode_tokens = [],
     scheduled_encoder_inputs = [], num_common_prefix_blocks = [], out_finished_req_ids = {},
     free_encoder_mm_hashes = [], preempted_req_ids = None, has_structured_output_requests = False,
     pending_structured_output_tokens = False, num_invalid_spec_tokens = None, new_block_ids_to_zero = None\<rparr>"

end
