(* ===== verification/Echo_Prune.thy ===== *)
theory Echo_Prune
  imports Sched_Output
begin

text \<open>
  The ECHO extension of \<^verbatim>\<open>vllm_ascend/worker/model_runner_v1.py\<close>: before the target model runs, the
  drafts of the batch compete for a budget of \<^verbatim>\<open>K_MAX\<close> tokens by their cumulative log-probability, and
  the scheduler output is cut down to the survivors.

  Tensors are lists. Log-probabilities live in a linearly ordered additive group; the rounding of
  floating-point sums is not modelled. \<^verbatim>\<open>torch.log_softmax\<close> on a row and \<^verbatim>\<open>torch.topk\<close> on a vector (the
  indices it returns) are parameters.
\<close>

section \<open>The runner's side of a step\<close>

text \<open>\<^verbatim>\<open>self._draft_token_ids\<close>: nothing, a tensor (its width and rows) or a list of lists.\<close>

datatype draft_ids = NoDrafts | DraftTensor nat "int list list" | DraftLists "int list list"

record 'v echo_runner =
  echo_enabled :: bool
  echo_k_max :: int
  runner_draft_token_ids :: draft_ids
  echo_logits_list :: "'v list list list"
  draft_token_req_ids :: "string list option"

definition prefix_sums :: "'v :: comm_monoid_add list \<Rightarrow> 'v list" where
  "prefix_sums xs = map (\<lambda>j. sum_list (take (Suc j) xs)) [0..<length xs]"

text \<open>The log-probability the drafter gave its own token, for one row and one step.\<close>

definition step_log_prob :: "('v list \<Rightarrow> 'v list) \<Rightarrow> 'v list list list \<Rightarrow> nat \<Rightarrow> nat \<Rightarrow> int \<Rightarrow> 'v res" where
  "step_log_prob log_softmax logits row t tok =
     (if t < length logits \<and> row < length (logits ! t) \<and> 0 \<le> tok \<and> nat tok < length (log_softmax (logits ! t ! row))
      then Inr (log_softmax (logits ! t ! row) ! nat tok) else Inl RuntimeError)"

definition row_log_probs ::
  "('v :: comm_monoid_add list \<Rightarrow> 'v list) \<Rightarrow> 'v list list list \<Rightarrow> int list list \<Rightarrow> nat \<Rightarrow> 'v list res" where
  "row_log_probs log_softmax logits drafts row =
     and_then (map_res (\<lambda>(t, tok). step_log_prob log_softmax logits row t tok) (enumerate 0 (drafts ! row)))
       (\<lambda>cond. Inr (prefix_sums cond))"

text \<open>The selected entries as a mask over the rows; \<open>w\<close> is the number of columns.\<close>

definition select_mask :: "('v list \<Rightarrow> nat \<Rightarrow> nat list) \<Rightarrow> 'v list list \<Rightarrow> nat \<Rightarrow> nat \<Rightarrow> nat \<Rightarrow> bool list" where
  "select_mask topk cum w n i =
     (let sel = (if n > 0 then topk (concat cum) n else [])
      in map (\<lambda>j. i * w + j \<in> set sel) [0..<w])"

text \<open>One request of the batch: its drafts are filtered by the mask of its row.\<close>

definition prune_request ::
  "nat \<Rightarrow> (nat \<Rightarrow> bool list) \<Rightarrow> nat \<times> string \<Rightarrow>
   (string \<times> int list) list \<times> (string \<times> int) list \<Rightarrow> (string \<times> int list) list \<times> (string \<times> int) list" where
  "prune_request total_steps keep ir s =
     (case map_of (fst s) (snd ir) of
        None \<Rightarrow> s
      | Some full_drafts \<Rightarrow>
          let n_in_layout = min (length full_drafts) total_steps;
              pruned = map fst (filter snd (zip full_drafts (take n_in_layout (keep (fst ir)))))
          in if pruned \<noteq> []
             then (AList.update (snd ir) pruned (fst s), AList.update (snd ir) (int (length pruned) + 1) (snd s))
             else (AList.update (snd ir) [] (fst s), AList.update (snd ir) 1 (snd s)))"

definition echo_prune_drafts ::
  "('v :: comm_monoid_add list \<Rightarrow> 'v list) \<Rightarrow> ('v list \<Rightarrow> nat \<Rightarrow> nat list) \<Rightarrow> 'v echo_runner \<Rightarrow>
   scheduler_output \<Rightarrow> scheduler_output res" where
  "echo_prune_drafts log_softmax topk st out =
     (if \<not> echo_enabled st then Inr out
      else case runner_draft_token_ids st of
        NoDrafts \<Rightarrow> Inr out
      | DraftLists _ \<Rightarrow> Inr out
      | DraftTensor total_steps drafts \<Rightarrow>
          if echo_logits_list st = [] then Inr out
          else and_then (of_option TypeError (draft_token_req_ids st)) (\<lambda>req_ids.
            let bs_drafter = length drafts;
                req_ids_drafter = take bs_drafter req_ids;
                sched = num_scheduled_tokens out;
                sched_indices = filter (\<lambda>i. req_ids_drafter ! i \<in> fst ` set sched) [0..<length req_ids_drafter];
                actual_bs = length sched_indices
            in if actual_bs = 0 then Inr out
               else and_then (map_res (row_log_probs log_softmax (echo_logits_list st) drafts) sched_indices) (\<lambda>cum.
                 let n_select = min (max (echo_k_max st - int actual_bs) 0) (int (length (concat cum)));
                     keep = select_mask topk cum total_steps (nat n_select);
                     (spec', sched') = fold (prune_request total_steps keep)
                       (enumerate 0 (map (\<lambda>i. req_ids_drafter ! i) sched_indices))
                       (scheduled_spec_decode_tokens out, sched)
                 in Inr (out\<lparr>scheduled_spec_decode_tokens := spec', num_scheduled_tokens := sched',
                             total_num_scheduled_tokens := sum_list (map snd sched')\<rparr>))))"

section \<open>Draft tokens on their way to the scheduler\<close>

text \<open>
  The host copy of the draft tokens has a fixed width; ECHO copies a narrower tensor into a prefix of
  the columns. A copy between different shapes raises, but a single column is repeated.
\<close>

record draft_buffers =
  db_echo :: bool
  db_async :: bool
  db_num_spec_tokens :: int
  db_draft_token_ids :: draft_ids
  db_req_ids :: "string list option"
  db_width :: nat
  db_cpu :: "int list list"

definition copy_row :: "bool \<Rightarrow> nat \<Rightarrow> nat \<Rightarrow> int list \<Rightarrow> int list" where
  "copy_row echo width num_cols row =
     (if echo then row @ replicate (width - num_cols) (- 1)
      else if num_cols = 1 then concat (replicate width row) else row)"

text \<open>\<open>needed\<close>: whether structured output or output tokens ask for the copy in the base class.\<close>

definition copy_draft_token_ids_to_cpu :: "string list \<Rightarrow> bool \<Rightarrow> bool \<Rightarrow> draft_buffers \<Rightarrow> draft_buffers res" where
  "copy_draft_token_ids_to_cpu batch_req_ids needed zeros_only d =
     (if \<not> (db_echo d \<and> db_async d) \<and> db_async d \<and> \<not> needed then Inr d
      else let d1 = d\<lparr>db_req_ids := Some batch_req_ids\<rparr>
      in case db_draft_token_ids d of
           DraftTensor num_cols rows \<Rightarrow>
             (let num_reqs = length rows; rest = drop num_reqs (db_cpu d)
              in if zeros_only
                 then Inr (d1\<lparr>db_cpu := map (\<lambda>_. replicate (db_width d) 0) (take num_reqs (db_cpu d)) @ rest\<rparr>)
                 else if length (db_cpu d) < num_reqs \<or> db_width d < num_cols \<or>
                         \<not> (db_echo d \<and> db_async d) \<and> num_cols \<noteq> db_width d \<and> num_cols \<noteq> 1
                 then Inl RuntimeError
                 else Inr (d1\<lparr>db_cpu := map (copy_row (db_echo d \<and> db_async d) (db_width d) num_cols) rows @ rest\<rparr>))
         | _ \<Rightarrow> Inr d1)"

definition get_draft_token_ids_cpu :: "string list \<Rightarrow> draft_buffers \<Rightarrow> int list list \<times> string list" where
  "get_draft_token_ids_cpu batch_req_ids d =
     (case db_draft_token_ids d of
        DraftLists l \<Rightarrow> (l, batch_req_ids)
      | _ \<Rightarrow> (case db_req_ids d of None \<Rightarrow> ([], []) | Some ids \<Rightarrow> (take (length ids) (db_cpu d), ids)))"

definition take_draft_token_ids :: "string list \<Rightarrow> draft_buffers \<Rightarrow> (string list \<times> int list list) option" where
  "take_draft_token_ids batch_req_ids d =
     (if db_num_spec_tokens d = 0 \<or> (case db_req_ids d of None \<Rightarrow> True | Some ids \<Rightarrow> ids = []) then None
      else let (toks, ids) = get_draft_token_ids_cpu batch_req_ids d in Some (ids, toks))"

section \<open>Dummy batches and the query offsets\<close>

text \<open>How \<^verbatim>\<open>_dummy_run\<close> splits its tokens among requests; the two assertions end the definition.\<close>

definition set_last :: "int list \<Rightarrow> (int \<Rightarrow> int) \<Rightarrow> int list res" where
  "set_last xs f = (if xs = [] then Inl IndexError else Inr (butlast xs @ [f (last xs)]))"

definition dummy_batch ::
  "bool \<Rightarrow> int \<Rightarrow> int \<Rightarrow> int \<Rightarrow> int \<Rightarrow> bool \<Rightarrow> bool \<Rightarrow> bool \<Rightarrow> (int \<times> int list) res" where
  "dummy_batch echo max_num_seqs max_num_batched_tokens uniform_decode_query_len n uniform_decode
       create_mixed_batch profile_cpp =
     (let max_query_len = (if uniform_decode then uniform_decode_query_len else n)
      in and_then (py_assert (n \<le> max_num_batched_tokens)) (\<lambda>_.
         and_then (
           if create_mixed_batch then Inl NotImplementedError
           else if uniform_decode
           then let num_reqs = min max_num_seqs (cdiv n max_query_len);
                    l = replicate (nat num_reqs) max_query_len
                in if n mod max_query_len \<noteq> 0
                   then and_then (set_last l (\<lambda>_. n mod max_query_len)) (\<lambda>l'. Inr (num_reqs, l'))
                   else Inr (num_reqs, l)
           else if profile_cpp then Inr (1, [n])
           else if echo then Inr (1, [n])
           else let num_reqs = min n max_num_seqs; min_tokens_per_req = n div num_reqs;
                    l = replicate (nat num_reqs) min_tokens_per_req
                in and_then (set_last l (\<lambda>x. x + n mod num_reqs)) (\<lambda>l'. Inr (num_reqs, l')))
         (\<lambda>(num_reqs, l).
           and_then (py_assert (sum_list l = n)) (\<lambda>_.
           and_then (py_assert (int (length l) = num_reqs)) (\<lambda>_. Inr (num_reqs, l))))))"

text \<open>
  The offsets of the requests in the token dimension, padded so that the last one is the padded
  number of tokens. \<open>full\<close>: both the runtime mode and the configured mode are full graphs.
\<close>

definition pad_query_start_loc_for_fia ::
  "nat \<Rightarrow> bool \<Rightarrow> int \<Rightarrow> nat \<Rightarrow> nat option \<Rightarrow> int list \<Rightarrow> (nat \<times> int list) res" where
  "pad_query_start_loc_for_fia uniform_len full num_tokens_padded num_reqs batch_desc_num_reqs qsl =
     (let padded = (if full then num_reqs else case batch_desc_num_reqs of Some k \<Rightarrow> k | None \<Rightarrow> num_reqs)
      in if num_tokens_padded = int (padded * uniform_len)
         then and_then (py_assert (num_reqs \<le> padded)) (\<lambda>_.
              and_then (py_index qsl (int num_reqs)) (\<lambda>last_loc.
                if length qsl < padded + 1 \<and> Suc num_reqs < padded then Inl ValueError
                else Inr (padded, take (length qsl) (take (Suc num_reqs) qsl @
                  map (\<lambda>i. int (i * uniform_len) + last_loc) [1..<Suc (padded - num_reqs)] @ drop (Suc padded) qsl))))
         else and_then (py_assert (num_reqs = padded)) (\<lambda>_.
              if length qsl \<le> padded + 1 then Inl IndexError
              else Inr (padded + 1, qsl[padded + 1 := num_tokens_padded])))"

section \<open>Masks\<close>

definition pruned_drafts :: "nat \<Rightarrow> bool list \<Rightarrow> int list \<Rightarrow> int list" where
  "pruned_drafts w ks full = map fst (filter snd (zip full (take (min (length full) w) ks)))"

lemma prune_request_eq:
  "prune_request w keep (i, rid) (spec, sched) =
     (case map_of spec rid of None \<Rightarrow> (spec, sched)
      | Some full \<Rightarrow> (AList.update rid (pruned_drafts w (keep i) full) spec,
          AList.update rid (int (length (pruned_drafts w (keep i) full)) + 1) sched))"
  by (auto simp: prune_request_def pruned_drafts_def Let_def split: option.splits)

lemma pruned_length: "length ks = w \<Longrightarrow> length (pruned_drafts w ks full) \<le> length (filter id ks)"
proof -
  have "length (filter snd (zip xs bs)) \<le> length (filter id bs)" for xs :: "int list" and bs
  proof (induction xs arbitrary: bs)
    case (Cons x xs)
    then show ?case by (cases bs) (auto intro: le_SucI)
  qed simp
  moreover have "length (filter id (take n ks)) \<le> length (filter id ks)" for n
    by (metis append_take_drop_id filter_append le_add1 length_append)
  ultimately show ?thesis using le_trans unfolding pruned_drafts_def by (metis length_map)
qed

lemma pruned_length_full:
  assumes "length ks = w" "w \<le> length full"
  shows "length (pruned_drafts w ks full) = length (filter id ks)"
proof -
  have "length (filter snd (zip xs bs)) = length (filter id bs)" if "length bs \<le> length xs" for xs :: "int list" and bs
    using that
  proof (induction xs arbitrary: bs)
    case (Cons x xs)
    then show ?case by (cases bs) auto
  qed simp
  then show ?thesis using assms by (simp add: pruned_drafts_def min_def)
qed

text \<open>A mask that never keeps a position after a dropped one cuts a prefix.\<close>

definition down_closed :: "bool list \<Rightarrow> bool" where
  "down_closed ks \<longleftrightarrow> (\<forall>j j'. j \<le> j' \<longrightarrow> j' < length ks \<longrightarrow> ks ! j' \<longrightarrow> ks ! j)"

lemma down_closed_filter:
  assumes "down_closed ks"
  shows "map fst (filter snd (zip xs ks)) = take (length (filter id ks)) xs"
  using assms
proof (induction ks arbitrary: xs)
  case (Cons k ks)
  have dc: "down_closed ks"
    unfolding down_closed_def
  proof (intro allI impI)
    fix j j' assume "j \<le> j'" "j' < length ks" "ks ! j'"
    then show "ks ! j" using Cons.prems [unfolded down_closed_def, rule_format, of "Suc j" "Suc j'"] by simp
  qed
  show ?case
  proof (cases k)
    case True
    then show ?thesis using Cons.IH [OF dc] by (cases xs) auto
  next
    case False
    have "\<not> ks ! j" if "j < length ks" for j
      using Cons.prems [unfolded down_closed_def, rule_format, of 0 "Suc j"] False that by auto
    then have no: "\<forall>b\<in>set ks. \<not> b" by (metis in_set_conv_nth)
    then have "filter id ks = []" "filter (\<lambda>a. a) ks = []" by (simp_all add: filter_empty_conv)
    moreover have "filter snd (zip (tl xs) ks) = []" using no by (auto simp: filter_empty_conv dest: set_zip_rightD)
    ultimately show ?thesis using False by (cases xs) auto
  qed
qed simp

lemma down_closed_take: "down_closed ks \<Longrightarrow> down_closed (take n ks)"
  by (auto simp: down_closed_def)

lemma pruned_prefix:
  assumes "down_closed ks"
  shows "\<exists>m. pruned_drafts w ks full = take m full"
  using down_closed_filter [OF down_closed_take [OF assms]] unfolding pruned_drafts_def by blast

section \<open>The loop over the batch\<close>


text \<open>Each request of the batch is visited once; the row it owns is the one paired with it.\<close>

definition row_of :: "(nat \<times> string) list \<Rightarrow> string \<Rightarrow> nat option" where
  "row_of irs rid = map_of (map (\<lambda>(i, r). (r, i)) irs) rid"

lemma prune_loop:
  assumes "distinct (map snd irs)"
    and "fold (prune_request w keep) irs (spec, sched) = (spec', sched')"
  shows "map_of spec' rid = (case map_of spec rid of None \<Rightarrow> None | Some full \<Rightarrow>
      Some (case row_of irs rid of None \<Rightarrow> full | Some i \<Rightarrow> pruned_drafts w (keep i) full)) \<and>
    map_of sched' rid = (case (map_of spec rid, row_of irs rid) of
        (Some full, Some i) \<Rightarrow> Some (int (length (pruned_drafts w (keep i) full)) + 1) | _ \<Rightarrow> map_of sched rid) \<and>
    (snd ` set irs \<subseteq> fst ` set sched \<longrightarrow> map fst sched' = map fst sched)"
  using assms
proof (induction irs arbitrary: spec sched)
  case Nil
  then show ?case by (auto simp: row_of_def split: option.splits)
next
  case (Cons ir irs)
  obtain i r where ir: "ir = (i, r)" by force
  obtain spec1 sched1 where pr: "prune_request w keep ir (spec, sched) = (spec1, sched1)" by force
  note E = pr [unfolded ir prune_request_eq]
  have n: "row_of irs r = None" using Cons.prems(1) by (auto simp: row_of_def ir map_of_eq_None_iff image_iff)
  have up: "row_of (ir # irs) rid = (if rid = r then Some i else row_of irs rid)" by (simp add: row_of_def ir)
  have sp: "map_of spec1 x = (if x = r then map_option (pruned_drafts w (keep i)) (map_of spec r) else map_of spec x)" for x
    using E by (auto simp: update_conv' split: option.splits)
  have sc: "map_of sched1 x = (case (map_of spec r, x = r) of (Some full, True) \<Rightarrow>
      Some (int (length (pruned_drafts w (keep i) full)) + 1) | _ \<Rightarrow> map_of sched x)" for x
    using E by (auto simp: update_conv' split: option.splits bool.splits)
  have k: "map fst sched1 = map fst sched" if "r \<in> fst ` set sched"
    using E that by (force simp: update_keys split: option.splits)
  have "fold (prune_request w keep) irs (spec1, sched1) = (spec', sched')" "distinct (map snd irs)"
    using Cons.prems pr by simp_all
  note I = Cons.IH [OF this(2,1)]
  have "map fst sched' = map fst sched" if "snd ` set (ir # irs) \<subseteq> fst ` set sched"
  proof -
    have r: "r \<in> fst ` set sched" using that ir by simp
    have "fst ` set sched1 = fst ` set sched" using k [OF r] by (metis image_set)
    then show ?thesis using I that k [OF r] by simp
  qed
  then show ?case using I n unfolding sp sc up by (auto split: option.splits bool.splits)
qed

section \<open>The selection\<close>

text \<open>What \<^verbatim>\<open>torch.topk\<close> documents: the indices of \<open>n\<close> largest entries, in any order.\<close>

definition topk_ok :: "('v :: linorder list \<Rightarrow> nat \<Rightarrow> nat list) \<Rightarrow> bool" where
  "topk_ok topk \<longleftrightarrow> (\<forall>xs n. n \<le> length xs \<longrightarrow> length (topk xs n) = n \<and> distinct (topk xs n) \<and>
     set (topk xs n) \<subseteq> {..<length xs} \<and>
     (\<forall>i\<in>set (topk xs n). \<forall>j<length xs. j \<notin> set (topk xs n) \<longrightarrow> xs ! j \<le> xs ! i))"

lemma nth_concat_uniform:
  assumes "\<forall>r\<in>set rs. length r = w" "i < length rs" "j < w"
  shows "concat rs ! (i * w + j) = rs ! i ! j" and "i * w + j < length (concat rs)"
proof -
  show "concat rs ! (i * w + j) = rs ! i ! j"
    using assms
  proof (induction rs arbitrary: i)
    case (Cons r rs)
    then show ?case by (cases i) (auto simp: nth_append)
  qed simp
  have len: "length (concat rs) = length rs * w" using assms(1) by (induction rs) auto
  have "i * w + j < Suc i * w" using assms(3) by simp
  also have "\<dots> \<le> length rs * w" using assms(2) by (intro mult_le_mono1) simp
  finally show "i * w + j < length (concat rs)" using len by simp
qed

lemma length_select_mask [simp]: "length (select_mask topk cum w n i) = w"
  by (simp add: select_mask_def Let_def)

text \<open>The rows of the mask together hold one entry per selected index.\<close>

lemma mask_count:
  assumes ok: "topk_ok topk" and n: "n \<le> length (concat cum)" and w: "\<forall>r\<in>set cum. length r = w"
  shows "(\<Sum>i<length cum. length (filter id (select_mask topk cum w n i))) = n"
proof (cases "n = 0")
  case True
  then show ?thesis by (simp add: select_mask_def filter_empty_conv)
next
  case False
  let ?S = "set (topk (concat cum) n)"
  have S: "card ?S = n" "?S \<subseteq> {..<length (concat cum)}"
    using ok n by (auto simp: topk_ok_def distinct_card)
  have len: "length (concat cum) = length cum * w" using w by (induction cum) auto
  have row: "length (filter id (select_mask topk cum w n i)) = card {x \<in> ?S. x div w = i}" for i
  proof -
    have "length (filter id (select_mask topk cum w n i)) = card {j. j < w \<and> i * w + j \<in> ?S}"
      using False by (simp add: select_mask_def filter_map length_filter_conv_card comp_def cong: conj_cong)
    also have "\<dots> = card ((\<lambda>j. i * w + j) ` {j. j < w \<and> i * w + j \<in> ?S})"
      by (rule card_image [symmetric]) (simp add: inj_on_def)
    also have "(\<lambda>j. i * w + j) ` {j. j < w \<and> i * w + j \<in> ?S} = {x \<in> ?S. x div w = i \<and> 0 < w}"
    proof (intro set_eqI iffI)
      fix x assume "x \<in> {x \<in> ?S. x div w = i \<and> 0 < w}"
      then have "x = i * w + x mod w" "x mod w < w" "x \<in> ?S" by auto
      then show "x \<in> (\<lambda>j. i * w + j) ` {j. j < w \<and> i * w + j \<in> ?S}" by (metis (mono_tags, lifting) imageI mem_Collect_eq)
    qed auto
    also have "\<dots> = {x \<in> ?S. x div w = i}" using S(2) len by (cases "w = 0") auto
    finally show ?thesis .
  qed
  have "(\<Sum>i<length cum. card {x \<in> ?S. x div w = i}) = card (\<Union>i<length cum. {x \<in> ?S. x div w = i})"
    by (rule card_UN_disjoint [symmetric]) auto
  also have "(\<Union>i<length cum. {x \<in> ?S. x div w = i}) = ?S"
    using S(2) len by (auto simp: less_mult_imp_div_less)
  finally show ?thesis using row S(1) by simp
qed

text \<open>If the scores fall along every row, a selected position has all its predecessors selected.\<close>

lemma mask_down_closed:
  assumes ok: "topk_ok topk" and n: "n \<le> length (concat cum)" and w: "\<forall>r\<in>set cum. length r = w"
    and i: "i < length cum" and dec: "\<And>j j'. j < j' \<Longrightarrow> j' < w \<Longrightarrow> cum ! i ! j' < cum ! i ! j"
  shows "down_closed (select_mask topk cum w n i)"
proof (cases "n = 0")
  case False
  let ?S = "set (topk (concat cum) n)"
  have "i * w + j \<in> ?S" if j: "j \<le> j'" "j' < w" "i * w + j' \<in> ?S" for j j'
  proof (rule ccontr)
    assume no: "i * w + j \<notin> ?S"
    then have lt: "j < j'" using j by (metis le_neq_implies_less)
    have "concat cum ! (i * w + j) \<le> concat cum ! (i * w + j')"
      using ok n no j nth_concat_uniform(2) [OF w i, of j] unfolding topk_ok_def by simp
    then show False
      using dec [OF lt j(2)] nth_concat_uniform(1) [OF w i, of j] nth_concat_uniform(1) [OF w i j(2)] lt j(2) by simp
  qed
  then show ?thesis using False by (auto simp: down_closed_def select_mask_def Let_def)
qed (auto simp: down_closed_def select_mask_def)

section \<open>A well-formed step\<close>

text \<open>
  The drafter's outputs fit together: a row of drafts per recorded request, logits for every step and
  row, draft tokens inside the vocabulary.
\<close>

definition echo_ready ::
  "('v list \<Rightarrow> 'v list) \<Rightarrow> 'v echo_runner \<Rightarrow> scheduler_output \<Rightarrow> nat \<Rightarrow> int list list \<Rightarrow> string list \<Rightarrow> bool" where
  "echo_ready log_softmax st out w drafts ids \<longleftrightarrow> echo_enabled st \<and>
     runner_draft_token_ids st = DraftTensor w drafts \<and> draft_token_req_ids st = Some ids \<and>
     echo_logits_list st \<noteq> [] \<and> distinct ids \<and> length drafts \<le> length ids \<and> (\<forall>d\<in>set drafts. length d = w) \<and>
     w \<le> length (echo_logits_list st) \<and> (\<forall>t<w. length drafts \<le> length (echo_logits_list st ! t)) \<and>
     (\<forall>i<length drafts. \<forall>t<w. 0 \<le> drafts ! i ! t \<and>
        nat (drafts ! i ! t) < length (log_softmax (echo_logits_list st ! t ! i))) \<and>
     distinct (map fst (num_scheduled_tokens out))"

definition echo_rows :: "scheduler_output \<Rightarrow> int list list \<Rightarrow> string list \<Rightarrow> nat list" where
  "echo_rows out drafts ids = filter (\<lambda>i. ids ! i \<in> fst ` set (num_scheduled_tokens out)) [0..<length drafts]"

text \<open>The scores that compete: cumulative log-probabilities of the draft tokens.\<close>

definition echo_score ::
  "('v :: comm_monoid_add list \<Rightarrow> 'v list) \<Rightarrow> 'v echo_runner \<Rightarrow> int list list \<Rightarrow> nat \<Rightarrow> nat \<Rightarrow> 'v" where
  "echo_score log_softmax st drafts i j =
     sum_list (map (\<lambda>t. log_softmax (echo_logits_list st ! t ! i) ! nat (drafts ! i ! t)) [0..<Suc j])"

lemma map_res_total:
  assumes "\<And>x. x \<in> set xs \<Longrightarrow> f x = Inr (g x)"
  shows "map_res f xs = Inr (map g xs)"
  using assms by (induction xs) simp_all

lemma row_log_probs_score:
  assumes "echo_ready log_softmax st out w drafts ids" "i < length drafts"
  shows "row_log_probs log_softmax (echo_logits_list st) drafts i = Inr (map (echo_score log_softmax st drafts i) [0..<w])"
proof -
  have d: "length (drafts ! i) = w" using assms by (simp add: echo_ready_def)
  have l: "i < length (echo_logits_list st ! t)" if "t < w" for t
  proof -
    have "length drafts \<le> length (echo_logits_list st ! t)" using assms(1) that by (simp add: echo_ready_def)
    then show ?thesis using assms(2) by simp
  qed
  let ?v = "\<lambda>t. log_softmax (echo_logits_list st ! t ! i) ! nat (drafts ! i ! t)"
  have "map_res (\<lambda>(t, tok). step_log_prob log_softmax (echo_logits_list st) i t tok) (enumerate 0 (drafts ! i)) =
      Inr (map (\<lambda>(t, tok). log_softmax (echo_logits_list st ! t ! i) ! nat tok) (enumerate 0 (drafts ! i)))"
    by (rule map_res_total) (use assms d l in \<open>auto simp: step_log_prob_def echo_ready_def in_set_enumerate_eq\<close>)
  also have "map (\<lambda>(t, tok). log_softmax (echo_logits_list st ! t ! i) ! nat tok) (enumerate 0 (drafts ! i)) = map ?v [0..<w]"
    by (rule nth_equalityI) (use d in \<open>auto simp: nth_enumerate_eq\<close>)
  finally have r: "map_res (\<lambda>(t, tok). step_log_prob log_softmax (echo_logits_list st) i t tok) (enumerate 0 (drafts ! i)) =
      Inr (map ?v [0..<w])" .
  have "prefix_sums (map ?v [0..<w]) = map (echo_score log_softmax st drafts i) [0..<w]"
    by (rule nth_equalityI) (auto simp: prefix_sums_def echo_score_def take_map)
  then show ?thesis using r by (simp add: row_log_probs_def)
qed

text \<open>The outcome of pruning, in terms of the mask of the selected positions.\<close>

definition echo_keep ::
  "('v :: comm_monoid_add list \<Rightarrow> 'v list) \<Rightarrow> ('v list \<Rightarrow> nat \<Rightarrow> nat list) \<Rightarrow> 'v echo_runner \<Rightarrow> scheduler_output \<Rightarrow>
   nat \<Rightarrow> int list list \<Rightarrow> string list \<Rightarrow> nat \<Rightarrow> bool list" where
  "echo_keep log_softmax topk st out w drafts ids =
     (let rows = echo_rows out drafts ids
      in select_mask topk (map (\<lambda>i. map (echo_score log_softmax st drafts i) [0..<w]) rows) w
           (nat (min (max (echo_k_max st - int (length rows)) 0) (int (length rows * w)))))"

lemma echo_prune_result:
  assumes rd: "echo_ready log_softmax st out w drafts ids" and rows: "rows = echo_rows out drafts ids" "rows \<noteq> []"
    and keep: "keep = echo_keep log_softmax topk st out w drafts ids"
  shows "\<exists>spec' sched'. echo_prune_drafts log_softmax topk st out = Inr (out\<lparr>scheduled_spec_decode_tokens := spec',
      num_scheduled_tokens := sched', total_num_scheduled_tokens := sum_list (map snd sched')\<rparr>) \<and>
    fold (prune_request w keep) (enumerate 0 (map (\<lambda>i. ids ! i) rows))
      (scheduled_spec_decode_tokens out, num_scheduled_tokens out) = (spec', sched')"
proof -
  note D = rd [unfolded echo_ready_def]
  have rows': "filter (\<lambda>i. take (length drafts) ids ! i \<in> fst ` set (num_scheduled_tokens out)) [0..<length drafts] = rows"
    unfolding rows echo_rows_def by (rule filter_cong) auto
  have names: "map ((!) (take (length drafts) ids)) rows = map ((!) ids) rows"
    using rows by (auto simp: echo_rows_def)
  let ?cum = "map (\<lambda>i. map (echo_score log_softmax st drafts i) [0..<w]) rows"
  have cum: "map_res (row_log_probs log_softmax (echo_logits_list st) drafts) rows = Inr ?cum"
    by (rule map_res_total, rule row_log_probs_score [OF rd]) (use rows in \<open>auto simp: echo_rows_def\<close>)
  have len: "length (concat ?cum) = length rows * w" by (induction rows) auto
  have kp: "keep = select_mask topk ?cum w (nat (min (max (echo_k_max st - int (length rows)) 0) (int (length (concat ?cum)))))"
    unfolding keep echo_keep_def Let_def rows(1) [symmetric] len ..
  obtain spec' sched' where f: "fold (prune_request w keep) (enumerate 0 (map (\<lambda>i. ids ! i) rows))
      (scheduled_spec_decode_tokens out, num_scheduled_tokens out) = (spec', sched')" by force
  show ?thesis
    using D rows(2) cum f unfolding echo_prune_drafts_def Let_def
    by (simp add: rows' names kp [symmetric] del: length_concat)
qed

lemma sum_list_values:
  fixes d :: "(string \<times> int) list"
  assumes "distinct (map fst d)"
  shows "sum_list (map snd d) = (\<Sum>k\<in>fst ` set d. the (map_of d k))"
proof -
  have "sum_list (map snd d) = sum_list (map (\<lambda>k. the (map_of d k)) (map fst d))"
    using assms by (intro arg_cong [where f = sum_list]) (auto simp: map_of_is_SomeI comp_def intro!: map_cong)
  also have "\<dots> = (\<Sum>k\<in>set (map fst d). the (map_of d k))" by (rule sum_list_distinct_conv_sum_set [OF assms])
  finally show ?thesis by simp
qed

lemma row_of_enumerate:
  assumes "distinct names" "i < length names"
  shows "row_of (enumerate 0 names) (names ! i) = Some i"
proof -
  have e: "map (\<lambda>(i, r). (r, i)) (enumerate 0 names) = zip names [0..<length names]"
    by (rule nth_equalityI) (auto simp: nth_enumerate_eq)
  show ?thesis unfolding row_of_def e
    by (rule map_of_is_SomeI) (use assms in \<open>auto simp: set_zip\<close>)
qed

lemma row_of_None: "rid \<notin> set names \<Longrightarrow> row_of (enumerate 0 names) rid = None"
  by (auto simp: row_of_def map_of_eq_None_iff in_set_enumerate_eq image_iff)

text \<open>The requests of the batch that the drafter knows, in the order of its rows.\<close>

lemma echo_names:
  assumes rd: "echo_ready log_softmax st out w drafts ids" and names: "names = map ((!) ids) (echo_rows out drafts ids)"
  shows "distinct names" and "set names = set (take (length drafts) ids) \<inter> fst ` set (num_scheduled_tokens out)"
proof -
  have d: "distinct ids" "length drafts \<le> length ids" using rd by (auto simp: echo_ready_def)
  then show "distinct names" unfolding names
    by (auto simp: distinct_map echo_rows_def inj_on_def nth_eq_iff_index_eq)
  have "set (take (length drafts) ids) = (!) ids ` {..<length drafts}"
    using d(2) by (simp add: nth_image [symmetric] lessThan_atLeast0)
  then show "set names = set (take (length drafts) ids) \<inter> fst ` set (num_scheduled_tokens out)"
    unfolding names by (auto simp: echo_rows_def)
qed

lemma echo_pruned_entry:
  assumes rd: "echo_ready log_softmax st out w drafts ids" and names: "names = map ((!) ids) (echo_rows out drafts ids)"
    and keep: "keep = echo_keep log_softmax topk st out w drafts ids" and ne: "names \<noteq> []"
  shows "\<exists>spec' sched'. echo_prune_drafts log_softmax topk st out = Inr (out\<lparr>scheduled_spec_decode_tokens := spec',
      num_scheduled_tokens := sched', total_num_scheduled_tokens := sum_list (map snd sched')\<rparr>) \<and>
    map fst sched' = map fst (num_scheduled_tokens out) \<and>
    (\<forall>i<length names. \<forall>full. map_of (scheduled_spec_decode_tokens out) (names ! i) = Some full \<longrightarrow>
       map_of spec' (names ! i) = Some (pruned_drafts w (keep i) full) \<and>
       map_of sched' (names ! i) = Some (int (length (pruned_drafts w (keep i) full)) + 1)) \<and>
    (\<forall>rid. rid \<notin> set names \<longrightarrow> map_of spec' rid = map_of (scheduled_spec_decode_tokens out) rid \<and>
       map_of sched' rid = map_of (num_scheduled_tokens out) rid)"
proof -
  note N = echo_names [OF rd names]
  have ne': "echo_rows out drafts ids \<noteq> []" using ne names by simp
  from echo_prune_result [OF rd refl ne' keep] obtain spec' sched' where r:
    "echo_prune_drafts log_softmax topk st out = Inr (out\<lparr>scheduled_spec_decode_tokens := spec',
      num_scheduled_tokens := sched', total_num_scheduled_tokens := sum_list (map snd sched')\<rparr>)"
    "fold (prune_request w keep) (enumerate 0 names) (scheduled_spec_decode_tokens out, num_scheduled_tokens out) = (spec', sched')"
    unfolding names by blast
  have ds: "distinct (map snd (enumerate 0 names))" using N(1) by simp
  have sub: "snd ` set (enumerate 0 names) \<subseteq> fst ` set (num_scheduled_tokens out)"
    using N(2) by (auto simp: in_set_enumerate_eq)
  note L = prune_loop [OF ds r(2)]
  have "map fst sched' = map fst (num_scheduled_tokens out)" using L sub by blast
  moreover have "map_of spec' (names ! i) = Some (pruned_drafts w (keep i) full) \<and>
       map_of sched' (names ! i) = Some (int (length (pruned_drafts w (keep i) full)) + 1)"
    if "i < length names" "map_of (scheduled_spec_decode_tokens out) (names ! i) = Some full" for i full
    using L [of "names ! i"] row_of_enumerate [OF N(1) that(1)] that(2) by simp
  moreover have "map_of spec' rid = map_of (scheduled_spec_decode_tokens out) rid \<and>
       map_of sched' rid = map_of (num_scheduled_tokens out) rid" if "rid \<notin> set names" for rid
    using L [of rid] row_of_None [OF that] by (auto split: option.splits)
  ultimately show ?thesis using r(1) by blast
qed

lemma echo_keep_count:
  assumes "topk_ok topk" "rows = echo_rows out drafts ids" "keep = echo_keep log_softmax topk st out w drafts ids"
  shows "(\<Sum>i<length rows. int (length (filter id (keep i)))) = min (max (echo_k_max st - int (length rows)) 0) (int (length rows * w))"
    and "length (keep i) = w"
proof -
  let ?cum = "map (\<lambda>i. map (echo_score log_softmax st drafts i) [0..<w]) rows"
  let ?n = "nat (min (max (echo_k_max st - int (length rows)) 0) (int (length rows * w)))"
  have len: "length (concat ?cum) = length rows * w" by (induction rows) auto
  have k: "keep = select_mask topk ?cum w ?n" using assms(2,3) by (simp add: echo_keep_def Let_def)
  have "(\<Sum>i<length ?cum. length (filter id (select_mask topk ?cum w ?n i))) = ?n"
    by (rule mask_count [OF assms(1)]) (simp_all add: len nat_le_iff del: length_concat)
  then have "(\<Sum>i<length rows. length (filter id (keep i))) = ?n" by (simp add: k)
  then have "int (\<Sum>i<length rows. length (filter id (keep i))) = int ?n" by simp
  then show "(\<Sum>i<length rows. int (length (filter id (keep i)))) = min (max (echo_k_max st - int (length rows)) 0) (int (length rows * w))"
    by simp
  show "length (keep i) = w" by (simp add: k)
qed

text \<open>A batch in which every request has a row and drafts.\<close>

lemma echo_batch:
  assumes rd: "echo_ready log_softmax st out w drafts ids" and names: "names = map ((!) ids) (echo_rows out drafts ids)"
    and keep: "keep = echo_keep log_softmax topk st out w drafts ids" and ne: "num_scheduled_tokens out \<noteq> []"
    and rows: "fst ` set (num_scheduled_tokens out) \<subseteq> set (take (length drafts) ids)"
    and spec: "fst ` set (num_scheduled_tokens out) \<subseteq> fst ` set (scheduled_spec_decode_tokens out)"
  shows "\<exists>spec' sched' full. echo_prune_drafts log_softmax topk st out = Inr (out\<lparr>scheduled_spec_decode_tokens := spec',
      num_scheduled_tokens := sched', total_num_scheduled_tokens := sum_list (map snd sched')\<rparr>) \<and>
    map fst sched' = map fst (num_scheduled_tokens out) \<and> length names = length (num_scheduled_tokens out) \<and>
    set names = fst ` set (num_scheduled_tokens out) \<and>
    (\<forall>i<length names. map_of (scheduled_spec_decode_tokens out) (names ! i) = Some (full i) \<and>
       map_of spec' (names ! i) = Some (pruned_drafts w (keep i) (full i)) \<and>
       map_of sched' (names ! i) = Some (int (length (pruned_drafts w (keep i) (full i))) + 1)) \<and>
    sum_list (map snd sched') = (\<Sum>i<length names. int (length (pruned_drafts w (keep i) (full i)))) + int (length names)"
proof -
  let ?sched = "num_scheduled_tokens out" and ?spec = "scheduled_spec_decode_tokens out"
  note N = echo_names [OF rd names]
  have dk: "distinct (map fst ?sched)" using rd by (simp add: echo_ready_def)
  have sn: "set names = fst ` set ?sched" using N(2) rows by blast
  then have nn: "names \<noteq> []" using ne by auto
  have ln: "length names = length ?sched"
    using sn N(1) dk by (metis distinct_card length_map list.set_map)
  from echo_pruned_entry [OF rd names keep nn] obtain spec' sched' where r:
    "echo_prune_drafts log_softmax topk st out = Inr (out\<lparr>scheduled_spec_decode_tokens := spec',
      num_scheduled_tokens := sched', total_num_scheduled_tokens := sum_list (map snd sched')\<rparr>)"
    "map fst sched' = map fst ?sched"
    "\<forall>i<length names. \<forall>full. map_of ?spec (names ! i) = Some full \<longrightarrow>
       map_of spec' (names ! i) = Some (pruned_drafts w (keep i) full) \<and>
       map_of sched' (names ! i) = Some (int (length (pruned_drafts w (keep i) full)) + 1)" by blast
  define full where "full = (\<lambda>i. the (map_of ?spec (names ! i)))"
  have full: "map_of ?spec (names ! i) = Some (full i)" if "i < length names" for i
    using spec sn that nth_mem [OF that] unfolding full_def by (auto simp: map_of_eq_None_iff subset_iff split: option.splits)
  have entry: "map_of spec' (names ! i) = Some (pruned_drafts w (keep i) (full i))"
    "map_of sched' (names ! i) = Some (int (length (pruned_drafts w (keep i) (full i))) + 1)" if "i < length names" for i
    using r(3) full [OF that] that by auto
  have "sum_list (map snd sched') = (\<Sum>k\<in>fst ` set sched'. the (map_of sched' k))"
    by (rule sum_list_values) (use r(2) dk in simp)
  also have "fst ` set sched' = set names" using r(2) sn by (metis image_set)
  also have "(\<Sum>k\<in>set names. the (map_of sched' k)) = (\<Sum>i<length names. the (map_of sched' (names ! i)))"
    using N(1) by (simp add: sum_list_distinct_conv_sum_set [symmetric] sum_list_sum_nth atLeast0LessThan)
  finally have "sum_list (map snd sched') = (\<Sum>i<length names. int (length (pruned_drafts w (keep i) (full i)))) + int (length names)"
    using entry(2) by (simp add: sum.distrib)
  then show ?thesis using r(1,2) ln sn full entry by blast
qed

section \<open>Properties\<close>

text \<open>A selection for the witnesses: the indices in falling order of the entries.\<close>

definition best_first :: "int list \<Rightarrow> nat \<Rightarrow> nat list" where
  "best_first xs n = take n (sort_key (\<lambda>i. - (xs ! i)) [0..<length xs])"

text \<open>The same, with the later of two equal entries first.\<close>

definition last_first :: "int list \<Rightarrow> nat \<Rightarrow> nat list" where
  "last_first xs n = take n (sort_key (\<lambda>i. - (xs ! i)) (rev [0..<length xs]))"

lemma sort_key_topk:
  fixes g :: "int list \<Rightarrow> nat list"
  assumes "\<And>xs. distinct (g xs) \<and> set (g xs) = {..<length xs}"
  shows "topk_ok (\<lambda>xs n. take n (sort_key (\<lambda>i. - (xs ! i)) (g xs)))"
  unfolding topk_ok_def
proof (intro allI impI conjI ballI)
  fix xs :: "int list" and n assume n: "n \<le> length xs"
  let ?s = "sort_key (\<lambda>i. - (xs ! i)) (g xs)"
  have d: "distinct ?s" "set ?s = {..<length xs}" using assms by auto
  then have l: "length ?s = length xs" by (metis card_lessThan distinct_card)
  show "length (take n ?s) = n" using n l by simp
  show "distinct (take n ?s)" using d(1) by simp
  show "set (take n ?s) \<subseteq> {..<length xs}" using d(2) set_take_subset [of n ?s] by auto
  fix i j assume i: "i \<in> set (take n ?s)" and j: "j < length xs" "j \<notin> set (take n ?s)"
  have "j \<in> set (drop n ?s)" using j d(2) append_take_drop_id [of n ?s] by (metis UnE lessThan_iff set_append)
  moreover have "sorted (map (\<lambda>i. - (xs ! i)) (take n ?s @ drop n ?s))" by simp
  ultimately show "xs ! j \<le> xs ! i" using i unfolding map_append sorted_append by fastforce
qed

lemma best_first_ok: "topk_ok best_first"
  unfolding best_first_def by (rule sort_key_topk) auto

lemma last_first_ok: "topk_ok last_first"
  unfolding last_first_def by (rule sort_key_topk) auto

definition echo_example :: "int echo_runner" where
  "echo_example = \<lparr>echo_enabled = True, echo_k_max = 4, runner_draft_token_ids = DraftTensor 2 [[0, 1], [1, 0]],
     echo_logits_list = [[[- 1, - 5], [- 3, - 2]], [[- 4, - 1], [- 6, - 9]]],
     draft_token_req_ids = Some [''a'', ''b'']\<rparr>"

definition echo_output :: scheduler_output where
  "echo_output = scheduler_output_make_empty\<lparr>num_scheduled_tokens := [(''a'', 3), (''b'', 3)],
     total_num_scheduled_tokens := 6, scheduled_spec_decode_tokens := [(''a'', [0, 1]), (''b'', [1, 0])]\<rparr>"

lemma echo_example_ready: "echo_ready (\<lambda>x. x) echo_example echo_output 2 [[0, 1], [1, 0]] [''a'', ''b'']"
  by (auto simp: echo_ready_def echo_example_def echo_output_def less_Suc_eq numeral_2_eq_2)

text \<open>
  C10: when every scheduled request has a row of drafts, pruning leaves every request with one token
  more than its surviving drafts, keeps the total equal to their sum, and brings the whole batch
  within \<^verbatim>\<open>K_MAX\<close> tokens (or one per request, if there are more requests); when no request has fewer
  drafts than the drafter has steps, the budget is used up exactly.
\<close>

theorem echo_within_budget:
  assumes "topk_ok topk" and "echo_ready log_softmax st out w drafts ids"
    and "num_scheduled_tokens out \<noteq> []"
    and "fst ` set (num_scheduled_tokens out) \<subseteq> set (take (length drafts) ids)"
    and "fst ` set (num_scheduled_tokens out) \<subseteq> fst ` set (scheduled_spec_decode_tokens out)"
    and "bs = int (length (num_scheduled_tokens out))"
  shows "\<exists>out'. echo_prune_drafts log_softmax topk st out = Inr out' \<and>
    map fst (num_scheduled_tokens out') = map fst (num_scheduled_tokens out) \<and>
    (\<forall>(rid, n)\<in>set (num_scheduled_tokens out'). \<exists>ds. map_of (scheduled_spec_decode_tokens out') rid = Some ds \<and>
       n = int (length ds) + 1) \<and>
    total_num_scheduled_tokens out' = sum_list (map snd (num_scheduled_tokens out')) \<and>
    total_num_scheduled_tokens out' \<le> max (echo_k_max st) bs \<and>
    ((\<forall>(rid, ds)\<in>set (scheduled_spec_decode_tokens out). w \<le> length ds) \<longrightarrow>
       total_num_scheduled_tokens out' = bs + min (max (echo_k_max st - bs) 0) (bs * int w))"
proof -
  let ?sched = "num_scheduled_tokens out" and ?spec = "scheduled_spec_decode_tokens out"
  define names where "names = map ((!) ids) (echo_rows out drafts ids)"
  define keep where "keep = echo_keep log_softmax topk st out w drafts ids"
  from echo_batch [OF assms(2) names_def keep_def assms(3-5)] obtain spec' sched' full where r:
    "echo_prune_drafts log_softmax topk st out = Inr (out\<lparr>scheduled_spec_decode_tokens := spec',
      num_scheduled_tokens := sched', total_num_scheduled_tokens := sum_list (map snd sched')\<rparr>)"
    "map fst sched' = map fst ?sched" "length names = length ?sched" "set names = fst ` set ?sched"
    "\<forall>i<length names. map_of ?spec (names ! i) = Some (full i) \<and>
       map_of spec' (names ! i) = Some (pruned_drafts w (keep i) (full i)) \<and>
       map_of sched' (names ! i) = Some (int (length (pruned_drafts w (keep i) (full i))) + 1)"
    "sum_list (map snd sched') = (\<Sum>i<length names. int (length (pruned_drafts w (keep i) (full i)))) + int (length names)"
    by blast
  have lr: "length (echo_rows out drafts ids) = length names" by (simp add: names_def)
  have bs: "int (length names) = bs" using r(3) assms(6) by simp
  have cnt: "(\<Sum>i<length names. int (length (filter id (keep i)))) = min (max (echo_k_max st - bs) 0) (bs * int w)"
    using echo_keep_count(1) [OF assms(1) refl keep_def] lr bs by simp
  have kl: "length (keep i) = w" for i using echo_keep_count(2) [OF assms(1) refl keep_def] .
  have "(\<Sum>i<length names. int (length (pruned_drafts w (keep i) (full i)))) \<le> (\<Sum>i<length names. int (length (filter id (keep i))))"
    by (rule sum_mono) (use pruned_length [OF kl] in simp)
  then have le: "sum_list (map snd sched') \<le> max (echo_k_max st) bs" using r(6) cnt bs by linarith
  have "sum_list (map snd sched') = bs + min (max (echo_k_max st - bs) 0) (bs * int w)"
    if long: "\<forall>(rid, ds)\<in>set ?spec. w \<le> length ds"
  proof -
    have "w \<le> length (full i)" if "i < length names" for i
      using r(5) that long by (auto dest!: map_of_SomeD)
    then have "(\<Sum>i<length names. int (length (pruned_drafts w (keep i) (full i)))) = (\<Sum>i<length names. int (length (filter id (keep i))))"
      using pruned_length_full [OF kl] by simp
    then show ?thesis using r(6) cnt bs by simp
  qed
  moreover have "\<exists>ds. map_of spec' rid = Some ds \<and> n = int (length ds) + 1" if mem: "(rid, n) \<in> set sched'" for rid n
  proof -
    have "rid \<in> set names" using mem r(2,4) by (metis fst_conv image_eqI image_set)
    then obtain i where i: "i < length names" "rid = names ! i" by (auto simp: in_set_conv_nth)
    have "map_of sched' rid = Some n" using mem r(2) assms(2) by (simp add: map_of_is_SomeI echo_ready_def)
    then show ?thesis using r(5) i by simp
  qed
  ultimately show ?thesis using r(1,2) le by (auto simp: case_prod_unfold)
qed

theorem echo_within_budget_witness:
  "\<exists>out'. echo_prune_drafts (\<lambda>x. x) best_first echo_example echo_output = Inr out' \<and> total_num_scheduled_tokens out' = 4"
proof -
  have "\<forall>(rid, ds)\<in>set (scheduled_spec_decode_tokens echo_output). 2 \<le> length ds" "echo_k_max echo_example = 4"
    by (simp_all add: echo_output_def echo_example_def)
  with echo_within_budget [OF best_first_ok echo_example_ready, of 2] show ?thesis
    by (auto simp: echo_output_def)
qed

text \<open>
  C11: when every draft token has a log-probability below zero, the surviving drafts of each request
  are a prefix of its drafts, so no token is kept whose predecessor was dropped; this holds for every
  selection that satisfies the documentation of \<^verbatim>\<open>topk\<close>. Requests without a row keep their drafts.
\<close>

theorem echo_keeps_prefixes:
  fixes log_softmax :: "'v :: linordered_ab_group_add list \<Rightarrow> 'v list"
  assumes "topk_ok topk" and "echo_ready log_softmax st out w drafts ids"
    and "\<forall>i<length drafts. \<forall>t<w. log_softmax (echo_logits_list st ! t ! i) ! nat (drafts ! i ! t) < 0"
    and "set (take (length drafts) ids) \<inter> fst ` set (num_scheduled_tokens out) \<noteq> {}"
  shows "\<exists>out'. echo_prune_drafts log_softmax topk st out = Inr out' \<and>
    (\<forall>rid full. map_of (scheduled_spec_decode_tokens out) rid = Some full \<longrightarrow>
       (\<exists>m. map_of (scheduled_spec_decode_tokens out') rid = Some (take m full)))"
proof -
  define names where "names = map ((!) ids) (echo_rows out drafts ids)"
  define keep where "keep = echo_keep log_softmax topk st out w drafts ids"
  let ?rows = "echo_rows out drafts ids"
  let ?cum = "map (\<lambda>i. map (echo_score log_softmax st drafts i) [0..<w]) ?rows"
  note N = echo_names [OF assms(2) names_def]
  have ne: "names \<noteq> []" using N(2) assms(4) by auto
  from echo_pruned_entry [OF assms(2) names_def keep_def ne] obtain spec' sched' where r:
    "echo_prune_drafts log_softmax topk st out = Inr (out\<lparr>scheduled_spec_decode_tokens := spec',
      num_scheduled_tokens := sched', total_num_scheduled_tokens := sum_list (map snd sched')\<rparr>)"
    "\<forall>i<length names. \<forall>full. map_of (scheduled_spec_decode_tokens out) (names ! i) = Some full \<longrightarrow>
       map_of spec' (names ! i) = Some (pruned_drafts w (keep i) full)"
    "\<forall>rid. rid \<notin> set names \<longrightarrow> map_of spec' rid = map_of (scheduled_spec_decode_tokens out) rid" by blast
  have len: "length (concat ?cum) = length ?rows * w" by (simp add: length_concat comp_def sum_list_triv)
  have dc: "down_closed (keep i)" if i: "i < length names" for i
    unfolding keep_def echo_keep_def Let_def
  proof (rule mask_down_closed [OF assms(1)])
    show "i < length ?cum" using i by (simp add: names_def)
    fix j j' assume j: "j < j'" "j' < w"
    have row: "?rows ! i < length drafts" using i nth_mem [of i ?rows] by (auto simp: names_def echo_rows_def)
    have "echo_score log_softmax st drafts (?rows ! i) j' < echo_score log_softmax st drafts (?rows ! i) j"
      using j
    proof (induction j')
      case (Suc j')
      have "echo_score log_softmax st drafts (?rows ! i) (Suc j') < echo_score log_softmax st drafts (?rows ! i) j'"
        using assms(3) row Suc.prems by (simp add: echo_score_def)
      then show ?case using Suc by (cases "j = j'") auto
    qed simp
    then show "?cum ! i ! j' < ?cum ! i ! j" using i j by (simp add: names_def)
  qed (simp_all add: len nat_le_iff del: length_concat)
  have "\<exists>m. map_of spec' rid = Some (take m full)" if "map_of (scheduled_spec_decode_tokens out) rid = Some full" for rid full
  proof (cases "rid \<in> set names")
    case True
    then obtain i where i: "i < length names" "rid = names ! i" by (auto simp: in_set_conv_nth)
    then show ?thesis using r(2) that pruned_prefix [OF dc [OF i(1)], of w full] by auto
  next
    case False
    then show ?thesis using r(3) that by (intro exI [of _ "length full"]) simp
  qed
  then show ?thesis using r(1) by auto
qed

theorem echo_keeps_prefixes_witness:
  "\<exists>out' m. echo_prune_drafts (\<lambda>x. x) best_first echo_example echo_output = Inr out' \<and>
     map_of (scheduled_spec_decode_tokens out') ''a'' = Some (take m [0, 1])"
proof -
  have "\<forall>i<length [[0, 1], [1, 0 :: int]]. \<forall>t<2. echo_logits_list echo_example ! t ! i ! nat ([[0, 1], [1, 0]] ! i ! t) < 0"
    by (auto simp: echo_example_def less_Suc_eq numeral_2_eq_2)
  from echo_keeps_prefixes [OF best_first_ok echo_example_ready this] show ?thesis
    by (fastforce simp: echo_output_def)
qed





lemma set_last_replicate:
  "0 < k \<Longrightarrow> set_last (replicate k x) f = Inr (replicate (k - 1) x @ [f x])"
  by (cases k) (simp_all add: set_last_def butlast_snoc flip: replicate_append_same)

lemma cdiv_split:
  assumes "0 < b"
  shows "cdiv n b = n div b + (if n mod b = 0 then 0 else 1)"
proof -
  have "n - b < n div b * b" "n div b * b \<le> n" "n div b * b = n - n mod b" "0 \<le> n mod b" "n mod b < b"
    using assms by (auto simp: minus_mod_eq_div_mult [symmetric])
  then have "cdiv n b \<le> n div b + (if n mod b = 0 then 0 else 1)" using assms by (auto simp: cdiv_le_iff algebra_simps)
  moreover have "n div b + (if n mod b = 0 then 0 else 1) \<le> cdiv n b"
  proof (rule ccontr)
    assume "\<not> n div b + (if n mod b = 0 then 0 else 1) \<le> cdiv n b"
    then have "cdiv n b \<le> n div b + (if n mod b = 0 then 0 else 1) - 1" by simp
    then have "n \<le> (n div b + (if n mod b = 0 then 0 else 1) - 1) * b" using cdiv_le_iff [OF assms] by blast
    then show False
      using \<open>n div b * b = n - n mod b\<close> \<open>0 \<le> n mod b\<close> assms
      by (cases "n mod b = 0") (simp_all add: left_diff_distrib del: minus_mod_eq_div_mult)
  qed
  ultimately show ?thesis by simp
qed

lemma uniform_batch:
  assumes "0 < n" "0 < ulen" "n \<le> max_seqs * ulen"
  shows "\<exists>l. (let num_reqs = min max_seqs (cdiv n ulen); l = replicate (nat num_reqs) ulen
      in if n mod ulen \<noteq> 0 then and_then (set_last l (\<lambda>_. n mod ulen)) (\<lambda>l'. Inr (num_reqs, l')) else Inr (num_reqs, l)) =
        Inr (cdiv n ulen, l) \<and> sum_list l = n \<and> int (length l) = cdiv n ulen \<and> (\<forall>x\<in>set l. 0 < x)"
proof -
  have "cdiv n ulen \<le> max_seqs" using assms by (simp add: cdiv_le_iff)
  then have m: "min max_seqs (cdiv n ulen) = cdiv n ulen" by simp
  have d: "0 \<le> n div ulen" using assms by (simp add: pos_imp_zdiv_nonneg_iff)
  have e: "n div ulen * ulen = n - n mod ulen" by (simp add: minus_mod_eq_div_mult)
  show ?thesis
  proof (cases "n mod ulen = 0")
    case True
    then show ?thesis using d e assms unfolding m Let_def
      by (intro exI [of _ "replicate (nat (n div ulen)) ulen"]) (simp add: cdiv_split sum_list_replicate)
  next
    case False
    have "set_last (replicate (nat (cdiv n ulen)) ulen) (\<lambda>_. n mod ulen) =
        Inr (replicate (nat (cdiv n ulen) - 1) ulen @ [n mod ulen])"
      using False d assms(2) by (intro set_last_replicate) (simp add: cdiv_split)
    moreover have "nat (cdiv n ulen) - 1 = nat (n div ulen)" using False d assms(2) by (simp add: cdiv_split nat_add_distrib)
    moreover have "0 < n mod ulen" using False assms(2) by (simp add: order_neq_le_trans)
    ultimately show ?thesis using False d e assms unfolding m Let_def
      by (intro exI [of _ "replicate (nat (n div ulen)) ulen @ [n mod ulen]"]) (auto simp: cdiv_split sum_list_replicate)
  qed
qed

text \<open>
  C37: a dummy batch within the token limit trips an assertion exactly when it is uniform and its
  requests cannot hold the tokens; otherwise the token counts are positive, one per request, at most
  the allowed number of requests, and add up to the tokens asked for.
\<close>

theorem dummy_batch_correct:
  assumes "0 < n" and "n \<le> max_batched" and "0 < max_seqs" and "0 < ulen"
  shows "(uniform \<and> max_seqs * ulen < n \<longrightarrow>
      dummy_batch echo max_seqs max_batched ulen n uniform False profile_cpp = Inl AssertionError) \<and>
    (\<not> (uniform \<and> max_seqs * ulen < n) \<longrightarrow>
      (\<exists>k l. dummy_batch echo max_seqs max_batched ulen n uniform False profile_cpp = Inr (k, l) \<and>
         sum_list l = n \<and> int (length l) = k \<and> k \<le> max_seqs \<and> (\<forall>x\<in>set l. 0 < x)))"
proof (intro conjI impI)
  assume u: "uniform \<and> max_seqs * ulen < n"
  have "max_seqs < cdiv n ulen" using u assms(4) cdiv_le_iff [of ulen n max_seqs] by linarith
  then have m: "min max_seqs (cdiv n ulen) = max_seqs" by simp
  have s: "sum_list (replicate (nat max_seqs) ulen) = max_seqs * ulen" using assms(3) by (simp add: sum_list_replicate)
  have "n mod ulen < ulen" using assms(4) by simp
  moreover have "sum_list (replicate (nat max_seqs - 1) ulen @ [n mod ulen]) = max_seqs * ulen - ulen + n mod ulen"
    using assms(3) by (simp add: sum_list_replicate algebra_simps of_nat_diff)
  ultimately have "sum_list (replicate (nat max_seqs - 1) ulen @ [n mod ulen]) < n"
    using u by linarith
  then show "dummy_batch echo max_seqs max_batched ulen n uniform False profile_cpp = Inl AssertionError"
    using u s assms by (auto simp: dummy_batch_def Let_def m set_last_replicate py_assert_def)
next
  assume u: "\<not> (uniform \<and> max_seqs * ulen < n)"
  show "\<exists>k l. dummy_batch echo max_seqs max_batched ulen n uniform False profile_cpp = Inr (k, l) \<and>
         sum_list l = n \<and> int (length l) = k \<and> k \<le> max_seqs \<and> (\<forall>x\<in>set l. 0 < x)"
  proof (cases uniform)
    case True
    then have n: "n \<le> max_seqs * ulen" using u by simp
    then have "cdiv n ulen \<le> max_seqs" using assms(4) by (simp add: cdiv_le_iff)
    then show ?thesis using uniform_batch [OF assms(1,4) n] True assms by (auto simp: dummy_batch_def Let_def)
  next
    case False
    show ?thesis
    proof (cases "profile_cpp \<or> echo")
      case True
      then show ?thesis using False assms by (auto simp: dummy_batch_def Let_def)
    next
      case no: False
      let ?k = "min n max_seqs"
      have k: "0 < ?k" "?k \<le> n" using assms by simp_all
      then have q: "1 \<le> n div ?k" "0 < n div ?k + n mod ?k"
        using le_div_iff_mult_le [of ?k 1 n] pos_mod_sign [of ?k n] by linarith+
      have "n div ?k * ?k + n mod ?k = n" by (rule div_mult_mod_eq)
      then have "(?k - 1) * (n div ?k) + (n div ?k + n mod ?k) = n" by (simp add: algebra_simps)
      then show ?thesis using False no assms k q
        by (auto simp: dummy_batch_def Let_def set_last_replicate sum_list_replicate of_nat_diff)
    qed
  qed
qed

theorem dummy_batch_correct_witness:
  "dummy_batch False 2 100 3 7 True False False = Inl AssertionError \<and>
   (\<exists>k l. dummy_batch False 2 100 3 5 True False False = Inr (k, l) \<and> sum_list l = 5)"
  using dummy_batch_correct [of 7 100 2 3 True False False] dummy_batch_correct [of 5 100 2 3 True False False] by auto

text \<open>
  C38: padding the query offsets keeps the offsets of the real requests, and the entry the attention
  kernel reads as the last one is the padded token count whenever the real requests have uniform query
  lengths; the only other outcome is a batch whose padded count is uniform although its requests are
  not, whose last entry is then short or long by the difference.
\<close>

theorem pad_query_start_loc_correct:
  assumes "pad_query_start_loc_for_fia u full T n d qsl = Inr (r, q)" and "r < length qsl"
  shows "length q = length qsl \<and> n \<le> r \<and> take (Suc n) q = take (Suc n) qsl \<and>
    (qsl ! n = int (n * u) \<longrightarrow> q ! r = T) \<and>
    (q ! r \<noteq> T \<longrightarrow> T = int (r * u) \<and> q ! r = qsl ! n + int ((r - n) * u))"
proof -
  define padded where "padded = (if full then n else case d of Some k \<Rightarrow> k | None \<Rightarrow> n)"
  note eq = assms(1) [unfolded pad_query_start_loc_for_fia_def, folded padded_def]
  show ?thesis
  proof (cases "T = int (padded * u)")
    case True
    then have r: "r = padded" "n \<le> r" and n: "n < length qsl"
      and q: "q = take (length qsl) (take (Suc n) qsl @
        map (\<lambda>i. int (i * u) + qsl ! n) [1..<Suc (padded - n)] @ drop (Suc padded) qsl)"
      using eq assms(2) by (auto simp: Let_def and_then_eq_Inr py_assert_def py_index_def split: if_splits)
    have "q ! r = qsl ! n + int ((r - n) * u)"
      using r n assms(2) unfolding q by (cases "r = n") (auto simp: nth_append min_def nth_append_left)
    then show ?thesis using r n True assms(2) q by (auto simp: left_diff_distrib of_nat_diff min_def)
  next
    case False
    then have "r = Suc n" "q = qsl[r := T]"
      using eq by (auto simp: Let_def and_then_eq_Inr py_assert_def split: if_splits)
    then show ?thesis using assms(2) by simp
  qed
qed

theorem pad_query_start_loc_correct_witness:
  "pad_query_start_loc_for_fia 3 False 9 2 (Some 3) [0, 3, 6, 0, 0] = Inr (3, [0, 3, 6, 9, 0]) \<and>
   [0, 3, 6, 9, 0] ! 3 = (9 :: int) \<and>
   pad_query_start_loc_for_fia 3 False 6 2 None [0, 1, 4, 0, 0] = Inr (2, [0, 1, 4, 0, 0]) \<and>
   [0, 1, 4, 0, 0] ! 2 = (4 :: int)"
proof -
  have "pad_query_start_loc_for_fia 3 False 9 2 (Some 3) [0, 3, 6, 0, 0] = Inr (3, [0, 3, 6, 9, 0])"
    "pad_query_start_loc_for_fia 3 False 6 2 None [0, 1, 4, 0, 0] = Inr (2, [0, 1, 4, 0, 0])" by code_simp+
  then show ?thesis using pad_query_start_loc_correct [of 3 False 9 2 "Some 3" "[0, 3, 6, 0, 0]" 3 "[0, 3, 6, 9, 0]"]
    pad_query_start_loc_correct [of 3 False 6 2 None "[0, 1, 4, 0, 0]" 2 "[0, 1, 4, 0, 0]"] by simp
qed

end
