(* ===== verification/Free_Queue.thy ===== *)
theory Free_Queue
  imports Prelude
begin

text \<open>
  The free list of KV-cache blocks: \<^verbatim>\<open>KVCacheBlock\<close> and \<^verbatim>\<open>FreeKVCacheBlockQueue\<close> of
  \<^verbatim>\<open>vllm/v1/core/kv_cache_utils.py\<close>. The class threads a doubly linked list through the
  \<^verbatim>\<open>prev_free_block\<close>/\<^verbatim>\<open>next_free_block\<close> attributes of shared block objects, between a fake
  head and a fake tail; the model keeps the objects in an explicit store (\<open>heap\<close>) and every
  operation performs the same field writes in the same order. The abstraction \<open>free_list q xs\<close>
  says that the links of \<open>q\<close> spell exactly the list \<open>xs\<close>; every operation refines the list
  operation it stands for, and the batched operations equal the iterated single ones.
\<close>

section \<open>Blocks and the store\<close>

text \<open>A reference to a block object: the two sentinels, or a block of the pool by its index.\<close>

datatype node = Head | Tail | Blk nat

record 'k kv_block =
  block_id :: int
  ref_cnt :: int
  block_hash :: "'k option"
  prev_free_block :: "node option"
  next_free_block :: "node option"
  is_null :: bool

definition KVCacheBlock :: "int \<Rightarrow> 'k kv_block" where
  "KVCacheBlock i = \<lparr>block_id = i, ref_cnt = 0, block_hash = None,
     prev_free_block = None, next_free_block = None, is_null = False\<rparr>"

text \<open>The \<^verbatim>\<open>block_hash\<close> setter asserts that no hash is set; \<^verbatim>\<open>reset_hash\<close> clears it.\<close>

definition set_block_hash :: "'k \<Rightarrow> 'k kv_block \<Rightarrow> 'k kv_block res" where
  "set_block_hash k b =
     (if block_hash b = None then Inr (b\<lparr>block_hash := Some k\<rparr>) else Inl AssertionError)"

definition reset_hash :: "'k kv_block \<Rightarrow> 'k kv_block" where
  "reset_hash b = b\<lparr>block_hash := None\<rparr>"

type_synonym 'k heap = "node \<Rightarrow> 'k kv_block"

record 'k free_queue =
  heap :: "'k heap"
  num_free_blocks :: int

definition set_next :: "node \<Rightarrow> node option \<Rightarrow> 'k heap \<Rightarrow> 'k heap" where
  "set_next a v h = h(a := (h a)\<lparr>next_free_block := v\<rparr>)"

definition set_prev :: "node \<Rightarrow> node option \<Rightarrow> 'k heap \<Rightarrow> 'k heap" where
  "set_prev a v h = h(a := (h a)\<lparr>prev_free_block := v\<rparr>)"

abbreviation nxt :: "'k heap \<Rightarrow> node \<Rightarrow> node option" where
  "nxt h a \<equiv> next_free_block (h a)"

abbreviation prv :: "'k heap \<Rightarrow> node \<Rightarrow> node option" where
  "prv h a \<equiv> prev_free_block (h a)"

section \<open>FreeKVCacheBlockQueue\<close>

subsection \<open>Construction\<close>

text \<open>One iteration of the constructor's loop, at index \<open>i\<close> of \<open>blocks\<close>.\<close>

definition link_consecutive :: "node list \<Rightarrow> nat \<Rightarrow> 'k heap \<Rightarrow> 'k heap" where
  "link_consecutive blocks i h =
     (let h1 = (if 0 < i then set_prev (blocks ! i) (Some (blocks ! (i - 1))) h else h)
      in if Suc i < length blocks then set_next (blocks ! i) (Some (blocks ! Suc i)) h1 else h1)"

definition init_queue :: "node list \<Rightarrow> 'k heap \<Rightarrow> 'k free_queue" where
  "init_queue blocks h =
     (let n = length blocks;
          h1 = fold (link_consecutive blocks) [0..<n] h;
          h2 = h1(Head := KVCacheBlock (- 1), Tail := KVCacheBlock (- 1));
          h3 = (if 0 < n
                then set_next (last blocks) (Some Tail)
                      (set_prev Tail (Some (last blocks))
                        (set_prev (hd blocks) (Some Head)
                          (set_next Head (Some (hd blocks)) h2)))
                else set_prev Tail (Some Head) (set_next Head (Some Tail) h2))
      in \<lparr>heap = h3, num_free_blocks = int n\<rparr>)"

subsection \<open>Operations\<close>

definition popleft ::
  "('k, 'z) free_queue_scheme \<Rightarrow> (node \<times> ('k, 'z) free_queue_scheme) res" where
  "popleft q =
     (case nxt (heap q) Head of
        None \<Rightarrow> (if num_free_blocks q = 0 then Inl ValueError else Inl AssertionError)
      | Some first \<Rightarrow>
          if first = Tail
          then (if num_free_blocks q = 0 then Inl ValueError else Inl AssertionError)
          else (case nxt (heap q) first of
                  None \<Rightarrow> Inl RuntimeError
                | Some second \<Rightarrow>
                    let h1 = set_next Head (Some second) (heap q);
                        h2 = set_prev second (Some Head) h1;
                        h3 = set_next first None (set_prev first None h2)
                    in Inr (first, q\<lparr>heap := h3, num_free_blocks := num_free_blocks q - 1\<rparr>)))"

text \<open>The loop of \<^verbatim>\<open>popleft_n\<close>: from \<open>cur\<close>, collect \<open>n\<close> blocks and clear their links.\<close>

fun popleft_n_loop :: "nat \<Rightarrow> node option \<Rightarrow> 'k heap \<Rightarrow> (node list \<times> node option \<times> 'k heap) res" where
  "popleft_n_loop 0 cur h = Inr ([], cur, h)"
| "popleft_n_loop (Suc n) None h = Inl AssertionError"
| "popleft_n_loop (Suc n) (Some b) h =
     and_then (popleft_n_loop n (nxt h b) (set_next b None (set_prev b None h)))
       (\<lambda>(ret, cur, h'). Inr (b # ret, cur, h'))"

definition popleft_n ::
  "int \<Rightarrow> ('k, 'z) free_queue_scheme \<Rightarrow> (node list \<times> ('k, 'z) free_queue_scheme) res" where
  "popleft_n n q =
     (if n = 0 then Inr ([], q)
      else if \<not> n \<le> num_free_blocks q then Inl AssertionError
      else and_then (popleft_n_loop (nat n) (nxt (heap q) Head) (heap q))
        (\<lambda>(ret, cur, h).
           let h' = (case cur of None \<Rightarrow> h
                     | Some c \<Rightarrow> set_prev c (Some Head) (set_next Head (Some c) h))
           in Inr (ret, q\<lparr>heap := h', num_free_blocks := num_free_blocks q - n\<rparr>)))"

definition remove ::
  "node \<Rightarrow> ('k, 'z) free_queue_scheme \<Rightarrow> ('k, 'z) free_queue_scheme res" where
  "remove b q =
     (case (prv (heap q) b, nxt (heap q) b) of
        (Some p, Some n) \<Rightarrow>
          let h1 = set_next p (Some n) (heap q);
              h2 = set_prev n (Some p) h1;
              h3 = set_next b None (set_prev b None h2)
          in Inr (q\<lparr>heap := h3, num_free_blocks := num_free_blocks q - 1\<rparr>)
      | _ \<Rightarrow> Inl RuntimeError)"

definition append_free ::
  "node \<Rightarrow> ('k, 'z) free_queue_scheme \<Rightarrow> ('k, 'z) free_queue_scheme res" where
  "append_free b q =
     (case prv (heap q) Tail of
        None \<Rightarrow> Inl RuntimeError
      | Some last_block \<Rightarrow>
          let h1 = set_prev b (Some last_block) (set_next last_block (Some b) (heap q));
              h2 = set_prev Tail (Some b) (set_next b (Some Tail) h1)
          in Inr (q\<lparr>heap := h2, num_free_blocks := num_free_blocks q + 1\<rparr>))"

fun append_n_loop :: "node list \<Rightarrow> node \<Rightarrow> 'k heap \<Rightarrow> node \<times> 'k heap" where
  "append_n_loop [] last_block h = (last_block, h)"
| "append_n_loop (b # bs) last_block h =
     append_n_loop bs b (set_next last_block (Some b) (set_prev b (Some last_block) h))"

definition append_n ::
  "node list \<Rightarrow> ('k, 'z) free_queue_scheme \<Rightarrow> ('k, 'z) free_queue_scheme res" where
  "append_n blocks q =
     (if blocks = [] then Inr q
      else case prv (heap q) Tail of
        None \<Rightarrow> Inl AssertionError
      | Some last_block \<Rightarrow>
          let (l, h) = append_n_loop blocks last_block (heap q);
              h' = set_prev Tail (Some l) (set_next l (Some Tail) h)
          in Inr (q\<lparr>heap := h', num_free_blocks := num_free_blocks q + int (length blocks)\<rparr>))"

text \<open>
  \<^verbatim>\<open>get_all_free_blocks\<close> follows \<^verbatim>\<open>next_free_block\<close> until it is \<^verbatim>\<open>None\<close>; on a cyclic store
  the loop would not return, which is \<open>None\<close> here.
\<close>

partial_function (option) walk_free :: "'k heap \<Rightarrow> node \<Rightarrow> node list \<Rightarrow> node list option" where
  "walk_free h cur ret =
     (case nxt h cur of None \<Rightarrow> Some ret | Some n \<Rightarrow> walk_free h n (ret @ [cur]))"

definition get_all_free_blocks :: "('k, 'z) free_queue_scheme \<Rightarrow> node list res option" where
  "get_all_free_blocks q =
     (case nxt (heap q) Head of
        None \<Rightarrow> Some (Inl RuntimeError)
      | Some c \<Rightarrow> map_option Inr (walk_free (heap q) c []))"

section \<open>The abstraction: the links spell a list\<close>

fun linked :: "'k heap \<Rightarrow> node list \<Rightarrow> bool" where
  "linked h (a # b # ns) \<longleftrightarrow> nxt h a = Some b \<and> prv h b = Some a \<and> linked h (b # ns)"
| "linked h ns \<longleftrightarrow> True"

abbreviation ring :: "nat list \<Rightarrow> node list" where
  "ring xs \<equiv> Head # map Blk xs @ [Tail]"

definition free_list :: "('k, 'z) free_queue_scheme \<Rightarrow> nat list \<Rightarrow> bool" where
  "free_list q xs \<longleftrightarrow>
     distinct xs \<and> linked (heap q) (ring xs) \<and> num_free_blocks q = int (length xs) \<and>
     nxt (heap q) Tail = None \<and> prv (heap q) Head = None \<and>
     (\<forall>i. i \<notin> set xs \<longrightarrow> prv (heap q) (Blk i) = None \<and> nxt (heap q) (Blk i) = None)"

lemma set_links [simp]:
  "nxt (set_next a v h) x = (if x = a then v else nxt h x)"
  "nxt (set_prev a v h) x = nxt h x"
  "prv (set_prev a v h) x = (if x = a then v else prv h x)"
  "prv (set_next a v h) x = prv h x"
  by (simp_all add: set_next_def set_prev_def)

lemma set_links_frame [simp]:
  "block_id (set_next a v h x) = block_id (h x)" "block_id (set_prev a v h x) = block_id (h x)"
  "ref_cnt (set_next a v h x) = ref_cnt (h x)" "ref_cnt (set_prev a v h x) = ref_cnt (h x)"
  "block_hash (set_next a v h x) = block_hash (h x)"
  "block_hash (set_prev a v h x) = block_hash (h x)"
  "is_null (set_next a v h x) = is_null (h x)" "is_null (set_prev a v h x) = is_null (h x)"
  by (simp_all add: set_next_def set_prev_def)

lemma heap_eqI:
  assumes "\<And>x. block_id (h x) = block_id (h' x)" "\<And>x. ref_cnt (h x) = ref_cnt (h' x)"
    "\<And>x. block_hash (h x) = block_hash (h' x)" "\<And>x. is_null (h x) = is_null (h' x)"
    "\<And>x. nxt h x = nxt h' x" "\<And>x. prv h x = prv h' x"
  shows "h = (h' :: 'k heap)"
  using assms by (intro ext) (simp add: kv_block.equality)

text \<open>What the queue operations never touch: everything but the links.\<close>

definition same_data :: "'k heap \<Rightarrow> 'k heap \<Rightarrow> bool" where
  "same_data h h' \<longleftrightarrow> (\<forall>x. block_id (h' x) = block_id (h x) \<and> ref_cnt (h' x) = ref_cnt (h x) \<and>
     block_hash (h' x) = block_hash (h x) \<and> is_null (h' x) = is_null (h x))"

lemma same_data_refl [simp]: "same_data h h"
  by (simp add: same_data_def)

lemma same_data_trans: "same_data h h' \<Longrightarrow> same_data h' h'' \<Longrightarrow> same_data h h''"
  by (simp add: same_data_def)

lemma same_data_links [simp]:
  "same_data h (set_next a v h') \<longleftrightarrow> same_data h h'"
  "same_data h (set_prev a v h') \<longleftrightarrow> same_data h h'"
  by (simp_all add: same_data_def)

lemma linked_Cons: "linked h (a # ns) \<longleftrightarrow>
    (ns = [] \<or> nxt h a = Some (hd ns) \<and> prv h (hd ns) = Some a \<and> linked h ns)"
  by (cases ns) auto

lemma linked_split: "linked h (as @ a # bs) \<longleftrightarrow> linked h (as @ [a]) \<and> linked h (a # bs)"
proof (induction as)
  case (Cons c as)
  then show ?case by (cases as) (auto simp: linked_Cons)
qed simp

lemma linked_cong:
  assumes "\<And>a. a \<in> set (butlast ns) \<Longrightarrow> nxt h' a = nxt h a"
    and "\<And>a. a \<in> set (tl ns) \<Longrightarrow> prv h' a = prv h a"
  shows "linked h' ns \<longleftrightarrow> linked h ns"
  using assms by (induction h ns rule: linked.induct) auto

lemma in_set_tlD: "a \<in> set (tl xs) \<Longrightarrow> a \<in> set xs"
  by (cases xs) auto

lemma linked_unlink:
  assumes d: "distinct (as @ p # x # n # bs)" and l: "linked h (as @ p # x # n # bs)"
  shows "linked (set_next x None (set_prev x None (set_prev n (Some p) (set_next p (Some n) h))))
           (as @ p # n # bs)" (is "linked ?h _")
proof -
  from l have 1: "linked h (as @ [p])" and 2: "linked h (n # bs)"
    using iffD1 [OF linked_split, OF l] by (simp_all add: linked_Cons)
  have "linked ?h (as @ [p])"
    using 1 d by (subst linked_cong) (auto dest: in_set_tlD)
  moreover have "linked ?h (n # bs)"
    using 2 d by (subst linked_cong [of _ _ h]) (auto dest: in_set_butlastD split: if_splits)
  moreover have "linked ?h (p # n # bs)" if "linked ?h (n # bs)"
    using d that by auto
  ultimately show ?thesis
    using linked_split [of ?h as p "n # bs"] by blast
qed

lemma linked_insert:
  assumes d: "distinct (as @ p # b # n # bs)" and l: "linked h (as @ p # n # bs)"
  shows "linked (set_prev n (Some b) (set_next b (Some n)
           (set_prev b (Some p) (set_next p (Some b) h)))) (as @ p # b # n # bs)" (is "linked ?h _")
proof -
  from l have 1: "linked h (as @ [p])" and 2: "linked h (n # bs)"
    using iffD1 [OF linked_split, OF l] by (simp_all add: linked_Cons)
  have "linked ?h (as @ [p])"
    using 1 d by (subst linked_cong) (auto dest: in_set_tlD)
  moreover have "linked ?h (n # bs)"
    using 2 d by (subst linked_cong [of _ _ h]) (auto dest: in_set_butlastD split: if_splits)
  moreover have "linked ?h (p # b # n # bs)" if "linked ?h (n # bs)"
    using d that by auto
  ultimately show ?thesis
    using linked_split [of ?h as p "b # n # bs"] by blast
qed

text \<open>The neighbours of a block of the ring.\<close>

lemma ring_split:
  obtains us p n vs where "Head # map Blk as = us @ [p]" "map Blk bs @ [Tail] = n # vs"
    "p \<in> insert Head (Blk ` set as)" "n \<in> insert Tail (Blk ` set bs)"
proof -
  obtain us p where up: "Head # map Blk as = us @ [p]"
    by (metis list.distinct(1) rev_exhaust)
  then have "p \<in> set (Head # map Blk as)" by simp
  moreover obtain n vs where nv: "map Blk bs @ [Tail] = n # vs"
    by (cases "map Blk bs @ [Tail]") auto
  then have "n \<in> set (map Blk bs @ [Tail])" by simp
  ultimately show thesis by (intro that [OF up nv]) auto
qed

lemma distinct_ring [simp]: "distinct (ring xs) \<longleftrightarrow> distinct xs"
  by (auto simp: distinct_map inj_on_def)

lemma free_list_length: "free_list q xs \<Longrightarrow> num_free_blocks q = int (length xs)"
  by (simp add: free_list_def)

lemma free_list_distinct: "free_list q xs \<Longrightarrow> distinct xs"
  by (simp add: free_list_def)

lemma free_list_ends:
  assumes "free_list q xs"
  shows "nxt (heap q) Head = Some (hd (map Blk xs @ [Tail]))"
    and "prv (heap q) Tail = Some (last (Head # map Blk xs))"
proof -
  have l: "linked (heap q) (ring xs)" using assms by (simp add: free_list_def)
  show "nxt (heap q) Head = Some (hd (map Blk xs @ [Tail]))"
    using l by (simp add: linked_Cons)
  obtain us p where up: "Head # map Blk xs = us @ [p]"
    by (metis list.distinct(1) rev_exhaust)
  have "ring xs = (Head # map Blk xs) @ [Tail]" by simp
  then have "ring xs = us @ p # [Tail]" by (simp only: up append.assoc append_Cons append_Nil)
  with l have "linked (heap q) (us @ p # [Tail])" by simp
  from iffD1 [OF linked_split, OF this] show "prv (heap q) Tail = Some (last (Head # map Blk xs))"
    using up by simp
qed

subsection \<open>remove and popleft\<close>

lemma remove_refines:
  assumes fl: "free_list q (as @ x # bs)"
  obtains h where "remove (Blk x) q = Inr (q\<lparr>heap := h, num_free_blocks := num_free_blocks q - 1\<rparr>)"
    and "same_data (heap q) h"
    and "free_list (q\<lparr>heap := h, num_free_blocks := num_free_blocks q - 1\<rparr>) (as @ bs)"
proof -
  obtain us p n vs where up: "Head # map Blk as = us @ [p]" and nv: "map Blk bs @ [Tail] = n # vs"
    and pin: "p \<in> insert Head (Blk ` set as)" and nin: "n \<in> insert Tail (Blk ` set bs)"
    by (rule ring_split)
  have "ring (as @ x # bs) = (Head # map Blk as) @ Blk x # (map Blk bs @ [Tail])" by simp
  then have r: "ring (as @ x # bs) = us @ p # Blk x # n # vs"
    by (simp only: up nv append.assoc append_Cons append_Nil)
  have "ring (as @ bs) = (Head # map Blk as) @ (map Blk bs @ [Tail])" by simp
  then have r': "ring (as @ bs) = us @ p # n # vs"
    by (simp only: up nv append.assoc append_Cons append_Nil)
  have "distinct (ring (as @ x # bs))"
    using free_list_distinct [OF fl] by (simp only: distinct_ring)
  then have d: "distinct (us @ p # Blk x # n # vs)" by (simp only: r)
  have l: "linked (heap q) (us @ p # Blk x # n # vs)"
    using fl r by (simp add: free_list_def)
  from iffD1 [OF linked_split, OF this]
  have px: "prv (heap q) (Blk x) = Some p" and xn: "nxt (heap q) (Blk x) = Some n"
    by simp_all
  define h where "h = set_next (Blk x) None (set_prev (Blk x) None
      (set_prev n (Some p) (set_next p (Some n) (heap q))))"
  have "linked h (ring (as @ bs))"
    unfolding r' h_def by (rule linked_unlink [OF d l])
  moreover have "n \<noteq> Head" and "p \<noteq> Tail" using pin nin by auto
  moreover have "\<forall>i. i \<notin> set (as @ bs) \<longrightarrow> prv h (Blk i) = None \<and> nxt h (Blk i) = None"
  proof (intro allI impI)
    fix i assume i: "i \<notin> set (as @ bs)"
    then have "Blk i \<noteq> p" "Blk i \<noteq> n" using pin nin by auto
    then show "prv h (Blk i) = None \<and> nxt h (Blk i) = None"
      using i fl by (auto simp: h_def free_list_def)
  qed
  moreover have "remove (Blk x) q = Inr (q\<lparr>heap := h, num_free_blocks := num_free_blocks q - 1\<rparr>)"
    by (simp add: remove_def px xn h_def)
  ultimately show thesis
    using that [of h] fl by (auto simp: free_list_def h_def same_data_def)
qed

lemma popleft_remove:
  assumes "free_list q (x # xs)"
  shows "popleft q = and_then (remove (Blk x) q) (\<lambda>q'. Inr (Blk x, q'))"
proof -
  have l: "linked (heap q) (ring (x # xs))" using assms by (simp add: free_list_def)
  then have "nxt (heap q) Head = Some (Blk x)" "prv (heap q) (Blk x) = Some Head"
    by simp_all
  moreover obtain n where "nxt (heap q) (Blk x) = Some n"
    using l by (simp add: linked_Cons)
  ultimately show ?thesis by (simp add: popleft_def remove_def)
qed

lemma popleft_refines:
  assumes "free_list q (x # xs)"
  obtains h where
    "popleft q = Inr (Blk x, q\<lparr>heap := h, num_free_blocks := num_free_blocks q - 1\<rparr>)"
    and "same_data (heap q) h"
    and "free_list (q\<lparr>heap := h, num_free_blocks := num_free_blocks q - 1\<rparr>) xs"
proof -
  have "free_list q ([] @ x # xs)" using assms by simp
  then obtain h where "remove (Blk x) q =
      Inr (q\<lparr>heap := h, num_free_blocks := num_free_blocks q - 1\<rparr>)"
    and "same_data (heap q) h"
    and "free_list (q\<lparr>heap := h, num_free_blocks := num_free_blocks q - 1\<rparr>) ([] @ xs)"
    by (rule remove_refines)
  then show thesis using that [of h] popleft_remove [OF assms] by simp
qed

lemma popleft_empty: "free_list q [] \<Longrightarrow> popleft q = Inl ValueError"
  by (simp add: popleft_def free_list_def)

lemma remove_not_free:
  "free_list q xs \<Longrightarrow> x \<notin> set xs \<Longrightarrow> remove (Blk x) q = Inl RuntimeError"
  by (simp add: remove_def free_list_def)

subsection \<open>append\<close>

lemma append_refines:
  assumes fl: "free_list q xs" and x: "x \<notin> set xs"
  obtains h where
    "append_free (Blk x) q = Inr (q\<lparr>heap := h, num_free_blocks := num_free_blocks q + 1\<rparr>)"
    and "same_data (heap q) h"
    and "free_list (q\<lparr>heap := h, num_free_blocks := num_free_blocks q + 1\<rparr>) (xs @ [x])"
proof -
  obtain us p where up: "Head # map Blk xs = us @ [p]" and pin: "p \<in> insert Head (Blk ` set xs)"
    by (rule ring_split [of xs "[]"])
  have "ring xs = (Head # map Blk xs) @ [Tail]" by simp
  then have r: "ring xs = us @ p # [Tail]" by (simp only: up append.assoc append_Cons append_Nil)
  have "ring (xs @ [x]) = (Head # map Blk xs) @ [Blk x, Tail]" by simp
  then have r': "ring (xs @ [x]) = us @ p # Blk x # [Tail]"
    by (simp only: up append.assoc append_Cons append_Nil)
  have "distinct (xs @ [x])" using fl x free_list_distinct by auto
  then have d: "distinct (us @ p # Blk x # [Tail])" by (simp only: distinct_ring flip: r')
  have l: "linked (heap q) (us @ p # [Tail])"
    using fl r by (simp add: free_list_def)
  from iffD1 [OF linked_split, OF this] have tp: "prv (heap q) Tail = Some p" by simp
  define h where "h = set_prev Tail (Some (Blk x)) (set_next (Blk x) (Some Tail)
      (set_prev (Blk x) (Some p) (set_next p (Some (Blk x)) (heap q))))"
  have "linked h (ring (xs @ [x]))"
    unfolding r' h_def by (rule linked_insert [OF d l])
  moreover have "p \<noteq> Tail" using pin by auto
  moreover have "\<forall>i. i \<notin> set (xs @ [x]) \<longrightarrow> prv h (Blk i) = None \<and> nxt h (Blk i) = None"
    using fl pin by (auto simp: h_def free_list_def)
  moreover have "append_free (Blk x) q =
      Inr (q\<lparr>heap := h, num_free_blocks := num_free_blocks q + 1\<rparr>)"
    by (simp add: append_free_def tp h_def)
  ultimately show thesis
    using that [of h] fl x by (auto simp: free_list_def h_def same_data_def)
qed

subsection \<open>append_n: the batched append is the iterated one\<close>

lemma upd_order [simp]:
  "q\<lparr>num_free_blocks := n, heap := h\<rparr> = q\<lparr>heap := h, num_free_blocks := n\<rparr>"
  by simp

definition seal :: "node \<Rightarrow> 'k heap \<Rightarrow> 'k heap" where
  "seal l h = set_prev Tail (Some l) (set_next l (Some Tail) h)"

lemma append_free_seal:
  "append_free (Blk b) (q\<lparr>heap := seal l h\<rparr>) =
     Inr (q\<lparr>heap := seal (Blk b) (set_next l (Some (Blk b)) (set_prev (Blk b) (Some l) h)),
            num_free_blocks := num_free_blocks q + 1\<rparr>)"
proof -
  have "set_prev Tail (Some (Blk b)) (set_next (Blk b) (Some Tail)
          (set_prev (Blk b) (Some l) (set_next l (Some (Blk b)) (seal l h))))
      = seal (Blk b) (set_next l (Some (Blk b)) (set_prev (Blk b) (Some l) h))"
    by (rule heap_eqI) (auto simp: seal_def)
  then show ?thesis by (simp add: append_free_def seal_def)
qed

lemma append_n_loop_iterates:
  "append_n_loop (map Blk xs) l h = (l', h') \<Longrightarrow>
   fold_res append_free (map Blk xs) (q\<lparr>heap := seal l h\<rparr>) =
     Inr (q\<lparr>heap := seal l' h', num_free_blocks := num_free_blocks q + int (length xs)\<rparr>)"
proof (induction xs arbitrary: l h q)
  case (Cons x xs)
  have "append_n_loop (map Blk xs) (Blk x) (set_next l (Some (Blk x)) (set_prev (Blk x) (Some l) h))
      = (l', h')" using Cons.prems by simp
  from Cons.IH [OF this, of "q\<lparr>num_free_blocks := num_free_blocks q + 1\<rparr>"]
  show ?case by (simp add: append_free_seal ac_simps)
qed simp

lemma append_n_iterates:
  assumes "free_list q ys"
  shows "append_n (map Blk xs) q = fold_res append_free (map Blk xs) q"
proof (cases xs)
  case (Cons x xs')
  let ?l = "last (Head # map Blk ys)"
  have tp: "prv (heap q) Tail = Some ?l" by (rule free_list_ends [OF assms])
  have "nxt (heap q) ?l = Some Tail"
  proof -
    obtain us p where up: "Head # map Blk ys = us @ [p]" by (metis list.distinct(1) rev_exhaust)
    have "ring ys = (Head # map Blk ys) @ [Tail]" by simp
    then have "ring ys = us @ p # [Tail]" by (simp only: up append.assoc append_Cons append_Nil)
    with assms have "linked (heap q) (us @ p # [Tail])" by (simp add: free_list_def)
    from iffD1 [OF linked_split, OF this] show ?thesis using up by simp
  qed
  with tp have s: "seal ?l (heap q) = heap q"
    by (intro heap_eqI) (auto simp: seal_def)
  obtain l' h' where lh: "append_n_loop (map Blk xs) ?l (heap q) = (l', h')" by fastforce
  have "append_n (map Blk xs) q = Inr (q\<lparr>heap := seal l' h',
      num_free_blocks := num_free_blocks q + int (length xs)\<rparr>)"
    using Cons lh tp by (simp add: append_n_def seal_def)
  moreover have "q\<lparr>heap := seal ?l (heap q)\<rparr> = q" by (subst s) simp
  ultimately show ?thesis
    using append_n_loop_iterates [OF lh, of q] by simp
qed (simp add: append_n_def)

lemma append_iterated_refines:
  assumes "free_list q ys" and "distinct xs" and "set xs \<inter> set ys = {}"
  shows "\<exists>h. fold_res append_free (map Blk xs) q =
      Inr (q\<lparr>heap := h, num_free_blocks := num_free_blocks q + int (length xs)\<rparr>) \<and>
    same_data (heap q) h \<and>
    free_list (q\<lparr>heap := h, num_free_blocks := num_free_blocks q + int (length xs)\<rparr>) (ys @ xs)"
  using assms
proof (induction xs arbitrary: q ys)
  case Nil
  then show ?case by (intro exI [of _ "heap q"]) simp
next
  case (Cons x xs)
  from Cons.prems have "free_list q ys" "x \<notin> set ys" by auto
  then obtain h where h: "append_free (Blk x) q =
      Inr (q\<lparr>heap := h, num_free_blocks := num_free_blocks q + 1\<rparr>)" "same_data (heap q) h"
      "free_list (q\<lparr>heap := h, num_free_blocks := num_free_blocks q + 1\<rparr>) (ys @ [x])"
    by (rule append_refines)
  have "distinct xs" "set xs \<inter> set (ys @ [x]) = {}" using Cons.prems by auto
  from Cons.IH [OF h(3) this] obtain h' where h':
    "fold_res append_free (map Blk xs) (q\<lparr>heap := h, num_free_blocks := num_free_blocks q + 1\<rparr>) =
      Inr (q\<lparr>heap := h', num_free_blocks := num_free_blocks q + int (length (x # xs))\<rparr>)"
    "same_data h h'"
    "free_list (q\<lparr>heap := h', num_free_blocks := num_free_blocks q + int (length (x # xs))\<rparr>)
      (ys @ x # xs)"
    by (auto simp: ac_simps)
  then show ?case using h(1) same_data_trans [OF h(2) h'(2)] by (intro exI [of _ h']) simp
qed

lemma append_n_refines:
  assumes "free_list q ys" and "distinct xs" and "set xs \<inter> set ys = {}"
  obtains h where "append_n (map Blk xs) q =
      Inr (q\<lparr>heap := h, num_free_blocks := num_free_blocks q + int (length xs)\<rparr>)"
    and "same_data (heap q) h"
    and "free_list (q\<lparr>heap := h, num_free_blocks := num_free_blocks q + int (length xs)\<rparr>) (ys @ xs)"
  using append_iterated_refines [OF assms] append_n_iterates [OF assms(1), of xs] that by auto

subsection \<open>popleft_n: the batched pop is the iterated one\<close>

definition clear_links :: "node set \<Rightarrow> 'k heap \<Rightarrow> 'k heap" where
  "clear_links A h =
     (\<lambda>a. if a \<in> A then (h a)\<lparr>prev_free_block := None, next_free_block := None\<rparr> else h a)"

lemma clear_links_simps [simp]:
  "nxt (clear_links A h) x = (if x \<in> A then None else nxt h x)"
  "prv (clear_links A h) x = (if x \<in> A then None else prv h x)"
  "ref_cnt (clear_links A h x) = ref_cnt (h x)" "block_id (clear_links A h x) = block_id (h x)"
  "block_hash (clear_links A h x) = block_hash (h x)" "is_null (clear_links A h x) = is_null (h x)"
  by (simp_all add: clear_links_def)

definition cut_front :: "nat list \<Rightarrow> nat list \<Rightarrow> 'k heap \<Rightarrow> 'k heap" where
  "cut_front xs ys h =
     (let n = hd (map Blk ys @ [Tail])
      in set_prev n (Some Head) (set_next Head (Some n) (clear_links (Blk ` set xs) h)))"

lemma popleft_n_loop_clears:
  "linked h (map Blk xs @ [n]) \<Longrightarrow> distinct (map Blk xs @ [n]) \<Longrightarrow>
   popleft_n_loop (length xs) (Some (hd (map Blk xs @ [n]))) h =
     Inr (map Blk xs, Some n, clear_links (Blk ` set xs) h)"
proof (induction xs arbitrary: h)
  case Nil
  then show ?case by (simp add: clear_links_def)
next
  case (Cons x xs)
  let ?h = "set_next (Blk x) None (set_prev (Blk x) None h)"
  have n: "nxt h (Blk x) = Some (hd (map Blk xs @ [n]))"
    using Cons.prems by (simp add: linked_Cons)
  have "linked h (map Blk xs @ [n])"
    using Cons.prems(1) by (cases "map Blk xs @ [n]") auto
  then have "linked ?h (map Blk xs @ [n])"
    using Cons.prems(2) by (subst linked_cong [of _ _ h]) (auto dest: in_set_tlD)
  from Cons.IH [OF this] Cons.prems(2)
  have "popleft_n_loop (length xs) (Some (hd (map Blk xs @ [n]))) ?h =
      Inr (map Blk xs, Some n, clear_links (Blk ` set xs) ?h)" by simp
  moreover have "clear_links (Blk ` set xs) ?h = clear_links (Blk ` set (x # xs)) h"
    by (rule heap_eqI) auto
  ultimately show ?case using n by simp
qed

lemma popleft_n_explicit:
  assumes fl: "free_list q (xs @ ys)"
  shows "popleft_n (int (length xs)) q = Inr (map Blk xs,
    q\<lparr>heap := cut_front xs ys (heap q), num_free_blocks := num_free_blocks q - int (length xs)\<rparr>)"
proof -
  obtain n vs where nv: "map Blk ys @ [Tail] = n # vs" by (cases "map Blk ys @ [Tail]") auto
  have "ring (xs @ ys) = Head # map Blk xs @ n # vs" using nv by simp
  then have l: "linked (heap q) (Head # map Blk xs @ n # vs)" and d: "distinct (Head # map Blk xs @ n # vs)"
    using fl distinct_ring [of "xs @ ys"] by (simp_all add: free_list_def)
  have "nxt (heap q) Head = Some (hd (map Blk xs @ [n]))"
    using l by (cases xs) auto
  moreover have "linked (heap q) (map Blk xs @ [n])"
    using l iffD1 [OF linked_split, of "heap q" "Head # map Blk xs" n vs]
    by (auto simp: linked_Cons [of _ Head])
  ultimately have loop: "popleft_n_loop (length xs) (nxt (heap q) Head) (heap q) =
      Inr (map Blk xs, Some n, clear_links (Blk ` set xs) (heap q))"
    using d by (simp add: popleft_n_loop_clears)
  have hd: "hd (map Blk ys @ [Tail]) = n" using nv by simp
  show ?thesis
  proof (cases "xs = []")
    case True
    then have "nxt (heap q) Head = Some n" "prv (heap q) n = Some Head"
      using l by simp_all
    then have "cut_front [] ys (heap q) = heap q"
      by (intro heap_eqI) (auto simp: cut_front_def hd)
    then show ?thesis using True by (simp add: popleft_n_def)
  next
    case False
    then show ?thesis using fl loop hd
      by (simp add: popleft_n_def free_list_def cut_front_def)
  qed
qed

lemma same_data_cut_front [simp]: "same_data h (cut_front xs ys h)"
  by (simp add: cut_front_def Let_def) (simp add: same_data_def)

lemma free_list_cut_front:
  assumes fl: "free_list q (xs @ ys)"
  shows "free_list (q\<lparr>heap := cut_front xs ys (heap q),
    num_free_blocks := num_free_blocks q - int (length xs)\<rparr>) ys"
proof -
  obtain n vs where nv: "map Blk ys @ [Tail] = n # vs" by (cases "map Blk ys @ [Tail]") auto
  then have hd: "hd (map Blk ys @ [Tail]) = n" and r: "ring ys = Head # n # vs" by simp_all
  have d: "distinct (Head # map Blk xs @ n # vs)"
    using fl distinct_ring [of "xs @ ys"] nv by (simp add: free_list_def)
  have "linked (heap q) ((Head # map Blk xs) @ n # vs)" using fl nv by (simp add: free_list_def)
  from iffD1 [OF linked_split, OF this] have "linked (heap q) (n # vs)" ..
  then have "linked (cut_front xs ys (heap q)) (n # vs)"
    using d by (subst linked_cong [of _ _ "heap q"])
      (auto simp: cut_front_def hd dest: in_set_butlastD split: if_splits)
  then have "linked (cut_front xs ys (heap q)) (ring ys)"
    using d by (auto simp: r cut_front_def hd)
  moreover have "n \<noteq> Head" using d by auto
  moreover have "n \<in> insert Tail (Blk ` set ys)"
    using nv by (cases ys) auto
  ultimately show ?thesis
    using fl by (auto simp: free_list_def cut_front_def hd)
qed

lemma popleft_n_refines:
  assumes "free_list q (xs @ ys)"
  obtains h where "popleft_n (int (length xs)) q =
      Inr (map Blk xs, q\<lparr>heap := h, num_free_blocks := num_free_blocks q - int (length xs)\<rparr>)"
    and "same_data (heap q) h"
    and "free_list (q\<lparr>heap := h, num_free_blocks := num_free_blocks q - int (length xs)\<rparr>) ys"
  using that [OF popleft_n_explicit [OF assms] same_data_cut_front free_list_cut_front [OF assms]] .

fun pop_each :: "nat \<Rightarrow> ('k, 'z) free_queue_scheme \<Rightarrow>
    (node list \<times> ('k, 'z) free_queue_scheme) res" where
  "pop_each 0 q = Inr ([], q)"
| "pop_each (Suc n) q = and_then (popleft q)
     (\<lambda>(b, q'). and_then (pop_each n q') (\<lambda>(bs, q''). Inr (b # bs, q'')))"

lemma pop_each_explicit:
  "free_list q (xs @ ys) \<Longrightarrow> pop_each (length xs) q = Inr (map Blk xs,
    q\<lparr>heap := cut_front xs ys (heap q), num_free_blocks := num_free_blocks q - int (length xs)\<rparr>)"
proof (induction xs arbitrary: q)
  case Nil
  then show ?case using popleft_n_explicit [OF Nil] by (simp add: popleft_n_def)
next
  case (Cons x xs)
  let ?q1 = "q\<lparr>heap := cut_front [x] (xs @ ys) (heap q), num_free_blocks := num_free_blocks q - 1\<rparr>"
  have one: "free_list q ([x] @ xs @ ys)" using Cons.prems by simp
  have p: "popleft q = Inr (Blk x, ?q1)"
  proof -
    have "nxt (heap q) Head = Some (Blk x)"
      "nxt (heap q) (Blk x) = Some (hd (map Blk (xs @ ys) @ [Tail]))"
      using Cons.prems by (simp_all add: free_list_def linked_Cons)
    moreover have "Blk x \<noteq> hd (map Blk (xs @ ys) @ [Tail])"
      using Cons.prems by (cases "xs @ ys") (auto simp: free_list_def)
    then have "set_next (Blk x) None (set_prev (Blk x) None
        (set_prev (hd (map Blk (xs @ ys) @ [Tail])) (Some Head)
          (set_next Head (Some (hd (map Blk (xs @ ys) @ [Tail]))) (heap q))))
      = cut_front [x] (xs @ ys) (heap q)"
      by (intro heap_eqI) (auto simp: cut_front_def Let_def)
    ultimately show ?thesis by (simp add: popleft_def)
  qed
  have "free_list ?q1 (xs @ ys)" using free_list_cut_front [OF one] by simp
  from Cons.IH [OF this]
  have "pop_each (length xs) ?q1 = Inr (map Blk xs, ?q1\<lparr>heap := cut_front xs ys (heap ?q1),
      num_free_blocks := num_free_blocks ?q1 - int (length xs)\<rparr>)" .
  moreover have "cut_front xs ys (cut_front [x] (xs @ ys) (heap q)) = cut_front (x # xs) ys (heap q)"
    using Cons.prems by (intro heap_eqI; cases xs; cases ys)
      (auto simp: cut_front_def Let_def free_list_def)
  ultimately show ?case using p by (simp add: algebra_simps)
qed

subsection \<open>get_all_free_blocks\<close>

lemma walk_free_linked:
  "linked h (map Blk xs @ [Tail]) \<Longrightarrow> nxt h Tail = None \<Longrightarrow>
   walk_free h (hd (map Blk xs @ [Tail])) ret = Some (ret @ map Blk xs)"
proof (induction xs arbitrary: ret)
  case Nil
  then show ?case by (simp add: walk_free.simps)
next
  case (Cons x xs)
  then have "nxt h (Blk x) = Some (hd (map Blk xs @ [Tail]))" "linked h (map Blk xs @ [Tail])"
    by (simp_all add: linked_Cons)
  with Cons show ?case by (simp add: walk_free.simps [of h "Blk x"])
qed

lemma get_all_free_blocks_spells:
  assumes "free_list q xs"
  shows "get_all_free_blocks q = Some (Inr (map Blk xs))"
proof -
  have "linked (heap q) (map Blk xs @ [Tail])" "nxt (heap q) Tail = None"
    using assms by (simp_all add: free_list_def linked_Cons)
  then show ?thesis
    using walk_free_linked [of "heap q" xs "[]"] free_list_ends(1) [OF assms]
    by (simp add: get_all_free_blocks_def)
qed

subsection \<open>The constructor\<close>

lemma linked_nth:
  "linked h ns \<longleftrightarrow> (\<forall>i. Suc i < length ns \<longrightarrow>
     nxt h (ns ! i) = Some (ns ! Suc i) \<and> prv h (ns ! Suc i) = Some (ns ! i))"
proof (induction h ns rule: linked.induct)
  case (1 h a b ns)
  show ?case (is "?L \<longleftrightarrow> ?R")
  proof
    assume ?L
    then show ?R using "1.IH" by (auto simp: nth_Cons split: nat.splits)
  next
    assume r: ?R
    have "\<forall>i. Suc i < length (b # ns) \<longrightarrow> nxt h ((b # ns) ! i) = Some ((b # ns) ! Suc i) \<and>
        prv h ((b # ns) ! Suc i) = Some ((b # ns) ! i)"
      using r by (metis Suc_less_eq length_Cons nth_Cons_Suc)
    with r [rule_format, of 0] show ?L using "1.IH" by simp
  qed
qed simp_all

lemma link_consecutive_fold:
  assumes d: "distinct bs" and k: "k \<le> length bs"
  shows "(\<forall>j < length bs.
      nxt (fold (link_consecutive bs) [0..<k] h) (bs ! j) =
        (if j < k \<and> Suc j < length bs then Some (bs ! Suc j) else nxt h (bs ! j)) \<and>
      prv (fold (link_consecutive bs) [0..<k] h) (bs ! j) =
        (if j < k \<and> 0 < j then Some (bs ! (j - 1)) else prv h (bs ! j))) \<and>
    (\<forall>a. a \<notin> set bs \<longrightarrow> fold (link_consecutive bs) [0..<k] h a = h a)"
  using k
proof (induction k)
  case (Suc k)
  then have "k < length bs" and IH: "k \<le> length bs" by simp_all
  then have "a \<notin> set bs \<Longrightarrow> a \<noteq> bs ! k" for a by auto
  with Suc.IH [OF IH] \<open>k < length bs\<close> d show ?case
    by (auto simp: link_consecutive_def Let_def nth_eq_iff_index_eq less_Suc_eq
        set_next_def set_prev_def)
qed simp

lemma init_queue_free_list:
  assumes d: "distinct xs" and h: "\<And>i. prv h (Blk i) = None \<and> nxt h (Blk i) = None"
  shows "free_list (init_queue (map Blk xs) h) xs"
proof (cases "xs = []")
  case True
  then show ?thesis using h
    by (auto simp: init_queue_def free_list_def KVCacheBlock_def)
next
  case False
  let ?bs = "map Blk xs" and ?n = "length xs"
  let ?h1 = "fold (link_consecutive ?bs) [0..<?n] h"
  have db: "distinct ?bs" using d by (simp add: distinct_map inj_on_def)
  note f = link_consecutive_fold [OF db, of ?n h]
  have hq: "heap (init_queue ?bs h) =
      set_next (Blk (last xs)) (Some Tail) (set_prev Tail (Some (Blk (last xs)))
        (set_prev (Blk (hd xs)) (Some Head) (set_next Head (Some (Blk (hd xs)))
          (?h1(Head := KVCacheBlock (- 1), Tail := KVCacheBlock (- 1))))))"
    using False by (simp add: init_queue_def Let_def last_map hd_map)
  have ends: "hd xs = xs ! 0" "last xs = xs ! (?n - 1)"
    using False by (simp_all add: hd_conv_nth last_conv_nth)
  have "linked (heap (init_queue ?bs h)) (ring xs)"
    unfolding linked_nth
  proof (intro allI impI)
    fix i assume i: "Suc i < length (ring xs)"
    have a: "ring xs ! i = (if i = 0 then Head else Blk (xs ! (i - 1)))"
      using i by (cases i) (auto simp: nth_append)
    have b: "ring xs ! Suc i = (if i < ?n then Blk (xs ! i) else Tail)"
      using i by (auto simp: nth_append)
    have n: "nxt ?h1 (Blk (xs ! j)) = (if Suc j < ?n then Some (Blk (xs ! Suc j)) else None)"
      if "j < ?n" for j using f that h by auto
    have p: "prv ?h1 (Blk (xs ! j)) = (if 0 < j then Some (Blk (xs ! (j - 1))) else None)"
      if "j < ?n" for j using f that h by auto
    have ieq: "xs ! (i - 1) = xs ! (?n - 1) \<longleftrightarrow> i = ?n" if "0 < i"
      using that i d False nth_eq_iff_index_eq [OF d, of "i - 1" "?n - 1"] by auto
    have ieq0: "xs ! i = xs ! 0 \<longleftrightarrow> i = 0" if "i < ?n"
      using that False nth_eq_iff_index_eq [OF d, of i 0] by simp
    show "nxt (heap (init_queue ?bs h)) (ring xs ! i) = Some (ring xs ! Suc i) \<and>
        prv (heap (init_queue ?bs h)) (ring xs ! Suc i) = Some (ring xs ! i)"
      unfolding a b hq ends using i False n [of "i - 1"] p [of i] ieq ieq0
      by (cases "i = 0"; cases "i = ?n") (simp_all add: Suc_diff_Suc)
  qed
  moreover have same: "?h1 (Blk i) = h (Blk i)" if "i \<notin> set xs" for i using f that by auto
  have "\<forall>i. i \<notin> set xs \<longrightarrow> prv (heap (init_queue ?bs h)) (Blk i) = None \<and>
      nxt (heap (init_queue ?bs h)) (Blk i) = None"
    using h False same by (auto simp: hq)
  moreover have "num_free_blocks (init_queue ?bs h) = int ?n"
    by (simp add: init_queue_def Let_def)
  moreover have "nxt (heap (init_queue ?bs h)) Tail = None" "prv (heap (init_queue ?bs h)) Head = None"
    by (simp_all add: hq KVCacheBlock_def)
  ultimately show ?thesis using d by (simp add: free_list_def)
qed

lemma same_data_fold:
  "(\<And>x h. same_data h (f x h)) \<Longrightarrow> same_data h (fold f xs h)"
  by (induction xs arbitrary: h) (auto intro: same_data_trans)

lemma init_queue_data:
  assumes "xs \<noteq> []"
  shows "ref_cnt (heap (init_queue (map Blk xs) h) (Blk i)) = ref_cnt (h (Blk i))"
    and "block_hash (heap (init_queue (map Blk xs) h) (Blk i)) = block_hash (h (Blk i))"
    and "is_null (heap (init_queue (map Blk xs) h) (Blk i)) = is_null (h (Blk i))"
    and "block_id (heap (init_queue (map Blk xs) h) (Blk i)) = block_id (h (Blk i))"
proof -
  have sd: "same_data h (fold (link_consecutive (map Blk xs)) [0..<length xs] h)"
    by (rule same_data_fold) (simp add: link_consecutive_def Let_def)
  show "ref_cnt (heap (init_queue (map Blk xs) h) (Blk i)) = ref_cnt (h (Blk i))"
    "block_hash (heap (init_queue (map Blk xs) h) (Blk i)) = block_hash (h (Blk i))"
    "is_null (heap (init_queue (map Blk xs) h) (Blk i)) = is_null (h (Blk i))"
    "block_id (heap (init_queue (map Blk xs) h) (Blk i)) = block_id (h (Blk i))"
    using sd assms by (simp_all add: init_queue_def Let_def same_data_def)
qed

section \<open>The interface the block pool relies on\<close>

text \<open>
  A free store hands out the blocks at its front, takes blocks back at its end and lets go of a
  block in the middle. Its view is the list of the free blocks in eviction order.
\<close>

locale free_store =
  fixes view :: "'q \<Rightarrow> nat list \<Rightarrow> bool"
    and take_front :: "int \<Rightarrow> 'q \<Rightarrow> (node list \<times> 'q) res"
    and put_back :: "node list \<Rightarrow> 'q \<Rightarrow> 'q res"
    and take_out :: "node \<Rightarrow> 'q \<Rightarrow> 'q res"
  assumes view_unique: "view q xs \<Longrightarrow> view q ys \<Longrightarrow> xs = ys"
    and view_distinct: "view q xs \<Longrightarrow> distinct xs"
    and take_front_law: "view q (xs @ ys) \<Longrightarrow>
      \<exists>q'. take_front (int (length xs)) q = Inr (map Blk xs, q') \<and> view q' ys"
    and put_back_law: "view q ys \<Longrightarrow> distinct xs \<Longrightarrow> set xs \<inter> set ys = {} \<Longrightarrow>
      \<exists>q'. put_back (map Blk xs) q = Inr q' \<and> view q' (ys @ xs)"
    and take_out_law: "view q (as @ x # bs) \<Longrightarrow>
      \<exists>q'. take_out (Blk x) q = Inr q' \<and> view q' (as @ bs)"
begin

text \<open>Least recently freed first: what is put back comes out after everything already free.\<close>

lemma put_back_fifo:
  assumes "view q ys" and "distinct xs" and "set xs \<inter> set ys = {}"
  shows "\<exists>q1 q2 q3. put_back (map Blk xs) q = Inr q1 \<and>
    take_front (int (length ys)) q1 = Inr (map Blk ys, q2) \<and>
    take_front (int (length xs)) q2 = Inr (map Blk xs, q3) \<and> view q3 []"
proof -
  obtain q1 where 1: "put_back (map Blk xs) q = Inr q1" "view q1 (ys @ xs)"
    using put_back_law [OF assms] by blast
  obtain q2 where 2: "take_front (int (length ys)) q1 = Inr (map Blk ys, q2)" "view q2 xs"
    using take_front_law [OF 1(2)] by blast
  obtain q3 where "take_front (int (length xs)) q2 = Inr (map Blk xs, q3)" "view q3 []"
    using take_front_law [of q2 xs "[]"] 2(2) by auto
  with 1 2 show ?thesis by blast
qed

text \<open>A block taken out of the middle is not handed out by any later pop.\<close>

lemma taken_out_not_handed_out:
  assumes v: "view q (as @ x # bs)" and t: "take_out (Blk x) q = Inr q'"
    and n: "n \<le> length (as @ bs)" and f: "take_front (int n) q' = Inr (out, q'')"
  shows "Blk x \<notin> set out" and "out = map Blk (take n (as @ bs))"
proof -
  have "view q' (as @ bs)" using take_out_law [OF v] t by auto
  then have v': "view q' (take n (as @ bs) @ drop n (as @ bs))" by (simp only: append_take_drop_id)
  have "length (take n (as @ bs)) = n" using n by simp
  then show out: "out = map Blk (take n (as @ bs))"
    using take_front_law [OF v'] f by (simp del: take_append)
  have "x \<notin> set (as @ bs)" using view_distinct [OF v] by auto
  then show "Blk x \<notin> set out" using out by (auto dest: in_set_takeD)
qed

end

lemma free_list_unique:
  assumes "free_list q xs" and "free_list q ys"
  shows "xs = ys"
proof -
  have "map Blk xs = map Blk ys"
    using get_all_free_blocks_spells [OF assms(1)] get_all_free_blocks_spells [OF assms(2)] by simp
  then show ?thesis by (simp add: inj_map_eq_map [of Blk] inj_def)
qed

interpretation fq: free_store free_list popleft_n append_n remove
proof
  fix q :: "('k, 'z) free_queue_scheme" and xs ys as bs x
  show "free_list q xs \<Longrightarrow> free_list q ys \<Longrightarrow> xs = ys" by (rule free_list_unique)
  show "free_list q xs \<Longrightarrow> distinct xs" by (rule free_list_distinct)
  show "\<exists>q'. popleft_n (int (length xs)) q = Inr (map Blk xs, q') \<and> free_list q' ys"
    if "free_list q (xs @ ys)"
    using that by (rule popleft_n_refines) blast
  show "\<exists>q'. append_n (map Blk xs) q = Inr q' \<and> free_list q' (ys @ xs)"
    if "free_list q ys" "distinct xs" "set xs \<inter> set ys = {}"
    using that by (rule append_n_refines) blast
  show "\<exists>q'. remove (Blk x) q = Inr q' \<and> free_list q' (as @ bs)"
    if "free_list q (as @ x # bs)"
    using that by (rule remove_refines) blast
qed

section \<open>Simulation: the linked list implements a list\<close>

datatype queue_op = PopLeft | PopLeftN nat | Remove nat | Append nat | AppendN "nat list"

text \<open>The specification: what each operation does to the list of free block ids.\<close>

fun spec_op :: "queue_op \<Rightarrow> nat list \<Rightarrow> (nat list \<times> nat list) res" where
  "spec_op PopLeft xs = (case xs of [] \<Rightarrow> Inl ValueError | x # ys \<Rightarrow> Inr ([x], ys))"
| "spec_op (PopLeftN n) xs =
     (if n \<le> length xs then Inr (take n xs, drop n xs) else Inl AssertionError)"
| "spec_op (Remove x) xs = (if x \<in> set xs then Inr ([], remove1 x xs) else Inl RuntimeError)"
| "spec_op (Append x) xs = Inr ([], xs @ [x])"
| "spec_op (AppendN ys) xs = Inr ([], xs @ ys)"

text \<open>What the callers guarantee: only blocks that are not free, each once, are appended.\<close>

fun op_ok :: "queue_op \<Rightarrow> nat list \<Rightarrow> bool" where
  "op_ok (Append x) xs \<longleftrightarrow> x \<notin> set xs"
| "op_ok (AppendN ys) xs \<longleftrightarrow> distinct ys \<and> set ys \<inter> set xs = {}"
| "op_ok _ _ \<longleftrightarrow> True"

fun exec_op :: "queue_op \<Rightarrow> ('k, 'z) free_queue_scheme \<Rightarrow>
    (node list \<times> ('k, 'z) free_queue_scheme) res" where
  "exec_op PopLeft q = and_then (popleft q) (\<lambda>(b, q'). Inr ([b], q'))"
| "exec_op (PopLeftN n) q = popleft_n (int n) q"
| "exec_op (Remove x) q = and_then (remove (Blk x) q) (\<lambda>q'. Inr ([], q'))"
| "exec_op (Append x) q = and_then (append_free (Blk x) q) (\<lambda>q'. Inr ([], q'))"
| "exec_op (AppendN ys) q = and_then (append_n (map Blk ys) q) (\<lambda>q'. Inr ([], q'))"

fun spec_run :: "queue_op list \<Rightarrow> nat list \<Rightarrow> (nat list \<times> nat list) res" where
  "spec_run [] xs = Inr ([], xs)"
| "spec_run (p # ps) xs = and_then (spec_op p xs)
     (\<lambda>(out, ys). and_then (spec_run ps ys) (\<lambda>(outs, zs). Inr (out @ outs, zs)))"

fun ops_ok :: "queue_op list \<Rightarrow> nat list \<Rightarrow> bool" where
  "ops_ok [] xs \<longleftrightarrow> True"
| "ops_ok (p # ps) xs \<longleftrightarrow> op_ok p xs \<and>
     (case spec_op p xs of Inl e \<Rightarrow> True | Inr (out, ys) \<Rightarrow> ops_ok ps ys)"

fun exec_run :: "queue_op list \<Rightarrow> ('k, 'z) free_queue_scheme \<Rightarrow>
    (node list \<times> ('k, 'z) free_queue_scheme) res" where
  "exec_run [] q = Inr ([], q)"
| "exec_run (p # ps) q = and_then (exec_op p q)
     (\<lambda>(out, q'). and_then (exec_run ps q') (\<lambda>(outs, q''). Inr (out @ outs, q'')))"

lemma exec_op_simulates:
  assumes fl: "free_list q xs" and ok: "op_ok p xs"
  shows "case spec_op p xs of
      Inl e \<Rightarrow> exec_op p q = Inl e
    | Inr (out, ys) \<Rightarrow> \<exists>q'. exec_op p q = Inr (map Blk out, q') \<and> free_list q' ys"
proof (cases p)
  case PopLeft
  show ?thesis
  proof (cases xs)
    case Nil
    then show ?thesis using PopLeft popleft_empty [of q] fl by simp
  next
    case (Cons y ys)
    obtain h where "popleft q = Inr (Blk y, q\<lparr>heap := h, num_free_blocks := num_free_blocks q - 1\<rparr>)"
      "free_list (q\<lparr>heap := h, num_free_blocks := num_free_blocks q - 1\<rparr>) ys"
      using fl Cons by (auto elim: popleft_refines)
    then show ?thesis using PopLeft Cons by simp
  qed
next
  case (PopLeftN n)
  show ?thesis
  proof (cases "n \<le> length xs")
    case True
    then have "free_list q (take n xs @ drop n xs)" "length (take n xs) = n" using fl by simp_all
    with fq.take_front_law [of q "take n xs" "drop n xs"] show ?thesis
      using PopLeftN True by auto
  next
    case False
    then show ?thesis using PopLeftN free_list_length [OF fl] by (simp add: popleft_n_def)
  qed
next
  case (Remove x)
  show ?thesis
  proof (cases "x \<in> set xs")
    case True
    then obtain as bs where "xs = as @ x # bs" "x \<notin> set as" by (meson split_list_first)
    then show ?thesis using Remove fq.take_out_law [of q as x bs] fl by (auto simp: remove1_append)
  next
    case False
    then show ?thesis using Remove remove_not_free [OF fl] by simp
  qed
next
  case (Append x)
  with ok have "x \<notin> set xs" by simp
  then obtain h where
    "append_free (Blk x) q = Inr (q\<lparr>heap := h, num_free_blocks := num_free_blocks q + 1\<rparr>)"
    "free_list (q\<lparr>heap := h, num_free_blocks := num_free_blocks q + 1\<rparr>) (xs @ [x])"
    using append_refines [OF fl] by blast
  then show ?thesis using Append by simp
next
  case (AppendN ys)
  then show ?thesis using fq.put_back_law [OF fl, of ys] ok by auto
qed

lemma exec_run_simulates:
  "free_list q xs \<Longrightarrow> ops_ok ps xs \<Longrightarrow>
   (case spec_run ps xs of
      Inl e \<Rightarrow> exec_run ps q = Inl e
    | Inr (outs, ys) \<Rightarrow> \<exists>q'. exec_run ps q = Inr (map Blk outs, q') \<and> free_list q' ys)"
proof (induction ps arbitrary: q xs)
  case (Cons p ps)
  note step = exec_op_simulates [OF Cons.prems(1), of p]
  show ?case
  proof (cases "spec_op p xs")
    case (Inl e)
    then show ?thesis using step Cons.prems(2) by simp
  next
    case (Inr r)
    obtain out ys where r: "r = (out, ys)" by fastforce
    with Inr step Cons.prems(2) obtain q' where
      q': "exec_op p q = Inr (map Blk out, q')" "free_list q' ys" "ops_ok ps ys" by auto
    from Cons.IH [OF q'(2,3)] show ?thesis
      using Inr r q'(1) by (auto split: sum.splits)
  qed
qed simp

section \<open>Properties\<close>

text \<open>
  C17: every sequence of queue operations, run on the doubly linked list the constructor builds,
  returns the blocks (and raises the exceptions) that the same sequence does on a plain list, and
  leaves links that spell exactly that list, with the counter equal to its length. The callers'
  duty is only to append blocks that are not free, each once.
\<close>

theorem free_queue_refines_list:
  assumes "distinct xs" and "ops_ok ops xs"
    and "\<And>i. prv h (Blk i) = None \<and> nxt h (Blk i) = None"
  shows "case spec_run ops xs of
      Inl e \<Rightarrow> exec_run ops (init_queue (map Blk xs) h) = Inl e
    | Inr (outs, ys) \<Rightarrow> \<exists>q'. exec_run ops (init_queue (map Blk xs) h) = Inr (map Blk outs, q') \<and>
        get_all_free_blocks q' = Some (Inr (map Blk ys)) \<and> num_free_blocks q' = int (length ys)"
proof -
  have "free_list (init_queue (map Blk xs) h) xs"
    by (rule init_queue_free_list) (use assms(1,3) in auto)
  from exec_run_simulates [OF this assms(2)] show ?thesis
    by (auto split: sum.splits dest: get_all_free_blocks_spells free_list_length)
qed

theorem free_queue_refines_list_witness:
  "\<exists>q' :: nat free_queue. exec_run [PopLeftN 2, Append 0, Remove 2, AppendN [1, 2], PopLeft]
      (init_queue (map Blk [0, 1, 2]) (\<lambda>_. KVCacheBlock 0)) = Inr (map Blk [0, 1, 0], q') \<and>
    get_all_free_blocks q' = Some (Inr [Blk 1, Blk 2]) \<and> num_free_blocks q' = 2"
  using free_queue_refines_list [of "[0, 1, 2]"
      "[PopLeftN 2, Append 0, Remove 2, AppendN [1, 2], PopLeft]" "\<lambda>_. KVCacheBlock 0"]
  by (simp add: KVCacheBlock_def)

text \<open>
  The batched \<^verbatim>\<open>popleft_n\<close>, which cuts the whole prefix and relinks the head once, has the
  result and the final store of \<open>n\<close> single \<^verbatim>\<open>popleft\<close> calls, for every \<open>n\<close> up to the number of
  free blocks.
\<close>

lemma popleft_n_is_iterated_popleft:
  assumes "free_list q xs" and "n \<le> length xs"
  shows "popleft_n (int n) q = pop_each n q"
proof -
  have "free_list q (take n xs @ drop n xs)" "length (take n xs) = n" using assms by simp_all
  then show ?thesis using popleft_n_explicit pop_each_explicit by metis
qed

text \<open>
  The batched \<^verbatim>\<open>append_n\<close> has the final store of appending the blocks one by one, whatever
  the blocks are.
\<close>

lemma append_n_is_iterated_append:
  assumes "free_list q ys"
  shows "append_n (map Blk xs) q = fold_res append_free (map Blk xs) q"
  by (rule append_n_iterates [OF assms])

text \<open>
  C26: eviction is least recently freed first. After a batch of blocks is appended, popping first
  yields every block that was free before, in order, and only then the batch, in its order.
\<close>

theorem free_queue_lru_order:
  assumes "free_list q ys" and "distinct xs" and "set xs \<inter> set ys = {}"
  shows "\<exists>q1 q2 q3. append_n (map Blk xs) q = Inr q1 \<and>
    popleft_n (int (length ys)) q1 = Inr (map Blk ys, q2) \<and>
    popleft_n (int (length xs)) q2 = Inr (map Blk xs, q3) \<and> free_list q3 []"
  by (rule fq.put_back_fifo [OF assms])

theorem free_queue_lru_order_witness:
  "\<exists>q1 q2 q3. append_n (map Blk [4, 3]) (init_queue (map Blk [0, 1]) (\<lambda>_. KVCacheBlock 0) :: nat free_queue)
      = Inr q1 \<and>
    popleft_n (int (length [0, 1 :: nat])) q1 = Inr (map Blk [0, 1], q2) \<and>
    popleft_n (int (length [4, 3 :: nat])) q2 = Inr (map Blk [4, 3], q3) \<and> free_list q3 []"
  by (rule free_queue_lru_order [OF init_queue_free_list]) (simp_all add: KVCacheBlock_def)

end
