(* ===== verification/Block_Map.thy ===== *)
theory Block_Map
  imports Free_Queue
begin

text \<open>
  The hash table of cached blocks: \<^verbatim>\<open>BlockHashToBlockMap\<close> of \<^verbatim>\<open>vllm/v1/core/block_pool.py\<close>. An
  entry is a single block or, after a second block with the same hash, a dictionary from block ids
  to blocks. The class is a multimap: \<open>nodes_at c k\<close> is the set of blocks cached under \<open>k\<close>. The
  block ids are read off the block objects by \<open>ident\<close>.
\<close>

section \<open>The class\<close>

datatype cache_entry = One node | Many "(int \<times> node) list"

type_synonym 'k block_cache = "('k \<times> cache_entry) list"

definition get_one_block :: "'k block_cache \<Rightarrow> 'k \<Rightarrow> node option res" where
  "get_one_block c key =
     (case map_of c key of
        None \<Rightarrow> Inr None
      | Some (One b) \<Rightarrow> Inr (Some b)
      | Some (Many d) \<Rightarrow> (case d of [] \<Rightarrow> Inl StopIteration | (i, b) # _ \<Rightarrow> Inr (Some b)))"

definition insert_block :: "(node \<Rightarrow> int) \<Rightarrow> 'k \<Rightarrow> node \<Rightarrow> 'k block_cache \<Rightarrow> 'k block_cache" where
  "insert_block ident key b c =
     (case map_of c key of
        None \<Rightarrow> AList.update key (One b) c
      | Some (One b0) \<Rightarrow> AList.update key (Many (AList.update (ident b) b [(ident b0, b0)])) c
      | Some (Many d) \<Rightarrow> AList.update key (Many (AList.update (ident b) b d)) c)"

definition pop_block :: "(node \<Rightarrow> int) \<Rightarrow> 'k \<Rightarrow> int \<Rightarrow> 'k block_cache \<Rightarrow> node option \<times> 'k block_cache" where
  "pop_block ident key bid c =
     (let c' = AList.delete key c
      in case map_of c key of
           None \<Rightarrow> (None, c')
         | Some (One b) \<Rightarrow>
             if ident b = bid then (Some b, c') else (None, AList.update key (One b) c')
         | Some (Many d) \<Rightarrow>
             let d' = AList.delete bid d
             in (map_of d bid, if 0 < length d' then AList.update key (Many d') c' else c'))"

definition cache_len :: "'k block_cache \<Rightarrow> int" where
  "cache_len c = int (length c)"

section \<open>The multimap it stands for\<close>

definition nodes_at :: "'k block_cache \<Rightarrow> 'k \<Rightarrow> node set" where
  "nodes_at c k =
     (case map_of c k of None \<Rightarrow> {} | Some (One b) \<Rightarrow> {b} | Some (Many d) \<Rightarrow> ran (map_of d))"

definition entry_wf :: "(node \<Rightarrow> int) \<Rightarrow> cache_entry \<Rightarrow> bool" where
  "entry_wf ident e = (case e of One b \<Rightarrow> True
     | Many d \<Rightarrow> d \<noteq> [] \<and> distinct (map fst d) \<and> (\<forall>i b. map_of d i = Some b \<longrightarrow> i = ident b))"

definition cache_wf :: "(node \<Rightarrow> int) \<Rightarrow> 'k block_cache \<Rightarrow> bool" where
  "cache_wf ident c \<longleftrightarrow> distinct (map fst c) \<and> (\<forall>k e. map_of c k = Some e \<longrightarrow> entry_wf ident e)"

lemma cache_wf_empty [simp]: "cache_wf ident []"
  by (simp add: cache_wf_def)

lemma nodes_at_empty [simp]: "nodes_at [] k = {}"
  by (simp add: nodes_at_def)

lemma cache_wf_lookup: "cache_wf ident c \<Longrightarrow> map_of c k = Some e \<Longrightarrow> entry_wf ident e"
  by (simp add: cache_wf_def)

lemma cache_wf_update:
  "cache_wf ident c \<Longrightarrow> entry_wf ident e \<Longrightarrow> cache_wf ident (AList.update k e c)"
  by (simp add: cache_wf_def distinct_update update_conv')

lemma cache_wf_delete: "cache_wf ident c \<Longrightarrow> cache_wf ident (AList.delete k c)"
  by (simp add: cache_wf_def distinct_delete delete_conv')

lemma entry_wf_insert:
  "entry_wf ident (Many d) \<Longrightarrow> entry_wf ident (Many (AList.update (ident b) b d))"
  by (simp add: entry_wf_def distinct_update update_conv')

lemma entry_wf_One [simp]: "entry_wf ident (One b)"
  by (simp add: entry_wf_def)

lemma nodes_at_update:
  "nodes_at (AList.update k e c) k' = (if k' = k
     then (case e of One b \<Rightarrow> {b} | Many d \<Rightarrow> ran (map_of d)) else nodes_at c k')"
  by (simp add: nodes_at_def update_conv')

lemma nodes_at_delete: "nodes_at (AList.delete k c) k' = (if k' = k then {} else nodes_at c k')"
  by (simp add: nodes_at_def delete_conv')

lemma ran_update_dict:
  assumes "\<forall>i x. map_of d i = Some x \<longrightarrow> i = ident x"
    and "inj_on ident (insert b (ran (map_of d)))"
  shows "ran (map_of (AList.update (ident b) b d)) = insert b (ran (map_of d))"
proof -
  have "x = b" if "map_of d (ident b) = Some x" for x
    using assms that by (metis inj_on_def insertI1 insertI2 ranI)
  then show ?thesis by (auto simp: update_conv' ran_def) metis
qed

lemma insert_block_nodes:
  assumes wf: "cache_wf ident c" and inj: "inj_on ident (insert b (nodes_at c k))"
  shows "nodes_at (insert_block ident k b c) k' =
    (if k' = k then insert b (nodes_at c k) else nodes_at c k')"
proof (cases "map_of c k")
  case None
  then show ?thesis by (simp add: insert_block_def nodes_at_def update_conv')
next
  case (Some e)
  show ?thesis
  proof (cases e)
    case (One b0)
    with Some have n: "nodes_at c k = {b0}" by (simp add: nodes_at_def)
    have one: "ran (map_of [(ident b0, b0)]) = {b0}" by (auto simp: ran_def)
    have "\<forall>i x. map_of [(ident b0, b0)] i = Some x \<longrightarrow> i = ident x" by simp
    moreover have "inj_on ident (insert b (ran (map_of [(ident b0, b0)])))"
      using inj by (simp only: n one)
    ultimately have "ran (map_of (AList.update (ident b) b [(ident b0, b0)])) = insert b {b0}"
      unfolding one [symmetric] by (rule ran_update_dict)
    then show ?thesis using Some One n
      by (simp add: insert_block_def nodes_at_update del: AList.update.simps)
  next
    case (Many d)
    with Some have n: "nodes_at c k = ran (map_of d)" by (simp add: nodes_at_def)
    have "entry_wf ident (Many d)" using cache_wf_lookup [OF wf Some] Many by simp
    then have "ran (map_of (AList.update (ident b) b d)) = insert b (ran (map_of d))"
      using inj n by (intro ran_update_dict) (auto simp: entry_wf_def)
    then show ?thesis using Some Many n by (simp add: insert_block_def nodes_at_update)
  qed
qed

lemma insert_block_wf:
  assumes "cache_wf ident c"
  shows "cache_wf ident (insert_block ident k b c)"
proof -
  have "entry_wf ident (Many (AList.update (ident b) b [(ident b0, b0)]))" for b0
    by (rule entry_wf_insert) (simp add: entry_wf_def)
  then show ?thesis
    using assms cache_wf_lookup [OF assms, of k]
    by (cases "map_of c k"; cases "the (map_of c k)")
      (simp_all add: insert_block_def cache_wf_update entry_wf_insert del: AList.update.simps)
qed

lemma ran_delete_dict:
  assumes "\<forall>i x. map_of d i = Some x \<longrightarrow> i = ident x"
  shows "ran (map_of (AList.delete bid d)) = {b \<in> ran (map_of d). ident b \<noteq> bid}"
  using assms by (auto simp: delete_conv' ran_def split: if_splits)

lemma entry_wf_delete:
  "entry_wf ident (Many d) \<Longrightarrow> AList.delete bid d \<noteq> [] \<Longrightarrow> entry_wf ident (Many (AList.delete bid d))"
  by (simp add: entry_wf_def distinct_delete delete_conv')

lemma pop_block_cases:
  assumes wf: "cache_wf ident c" and p: "pop_block ident k bid c = (r, c')"
  shows "(\<forall>k'. nodes_at c' k' = (if k' = k then {b \<in> nodes_at c k. ident b \<noteq> bid} else nodes_at c k')) \<and>
    cache_wf ident c' \<and> (r = None \<longleftrightarrow> (\<forall>b \<in> nodes_at c k. ident b \<noteq> bid)) \<and>
    (\<forall>b. r = Some b \<longrightarrow> b \<in> nodes_at c k \<and> ident b = bid)"
proof (cases "map_of c k")
  case None
  then have "nodes_at c k = {}" by (simp add: nodes_at_def)
  then show ?thesis using None p wf
    by (auto simp: pop_block_def Let_def nodes_at_delete cache_wf_delete)
next
  case (Some e)
  show ?thesis
  proof (cases e)
    case (One b0)
    with Some have "nodes_at c k = {b0}" by (simp add: nodes_at_def)
    moreover have "(r, c') = (if ident b0 = bid then (Some b0, AList.delete k c)
        else (None, AList.update k (One b0) (AList.delete k c)))"
      using p Some One by (simp add: pop_block_def Let_def)
    ultimately show ?thesis using wf
      by (cases "ident b0 = bid")
        (auto simp: nodes_at_delete nodes_at_update cache_wf_delete cache_wf_update)
  next
    case (Many d)
    with Some have n: "nodes_at c k = ran (map_of d)" by (simp add: nodes_at_def)
    have e: "entry_wf ident (Many d)" using cache_wf_lookup [OF wf Some] Many by simp
    then have d: "\<forall>i x. map_of d i = Some x \<longrightarrow> i = ident x" by (simp add: entry_wf_def)
    note del = ran_delete_dict [OF d, of bid]
    have r: "r = map_of d bid" and c': "c' = (if AList.delete bid d = [] then AList.delete k c
        else AList.update k (Many (AList.delete bid d)) (AList.delete k c))"
      using p Some Many by (auto simp: pop_block_def Let_def)
    have "\<forall>k'. nodes_at c' k' = (if k' = k then {b \<in> nodes_at c k. ident b \<noteq> bid} else nodes_at c k')"
      using del by (auto simp: c' n nodes_at_delete nodes_at_update)
    moreover have "cache_wf ident c'"
      using wf entry_wf_delete [OF e] by (simp add: c' cache_wf_delete cache_wf_update)
    moreover have "r = None \<longleftrightarrow> (\<forall>b \<in> nodes_at c k. ident b \<noteq> bid)"
      using d by (auto simp: r n ran_def) (metis not_None_eq)
    ultimately show ?thesis using d by (auto simp: r n ran_def)
  qed
qed

lemmas pop_block_nodes = pop_block_cases [THEN conjunct1, rule_format]
lemmas pop_block_wf = pop_block_cases [THEN conjunct2, THEN conjunct1]
lemmas pop_block_None = pop_block_cases [THEN conjunct2, THEN conjunct2, THEN conjunct1]
lemmas pop_block_Some = pop_block_cases [THEN conjunct2, THEN conjunct2, THEN conjunct2, rule_format]

lemma get_one_block_nodes:
  assumes "cache_wf ident c"
  shows "\<exists>r. get_one_block c k = Inr r \<and> (r = None \<longleftrightarrow> nodes_at c k = {}) \<and>
    (\<forall>b. r = Some b \<longrightarrow> b \<in> nodes_at c k)"
  using cache_wf_lookup [OF assms, of k]
  by (auto simp: get_one_block_def nodes_at_def entry_wf_def ran_def
      split: option.splits cache_entry.splits list.splits)

section \<open>The interface\<close>

text \<open>
  What the pool relies on: a multimap from hashes to blocks in which a lookup finds a block
  exactly when one is stored, and a removal by block id takes out exactly that block.
\<close>

locale block_multimap =
  fixes ident :: "node \<Rightarrow> int"
    and holds :: "'c \<Rightarrow> 'k \<Rightarrow> node set"
    and ok :: "'c \<Rightarrow> bool"
    and lookup :: "'c \<Rightarrow> 'k \<Rightarrow> node option res"
    and ins :: "'k \<Rightarrow> node \<Rightarrow> 'c \<Rightarrow> 'c"
    and take_away :: "'k \<Rightarrow> int \<Rightarrow> 'c \<Rightarrow> node option \<times> 'c"
  assumes lookup_law: "ok c \<Longrightarrow> \<exists>r. lookup c k = Inr r \<and> (r = None \<longleftrightarrow> holds c k = {}) \<and>
      (\<forall>b. r = Some b \<longrightarrow> b \<in> holds c k)"
    and ins_ok: "ok c \<Longrightarrow> ok (ins k b c)"
    and ins_law: "ok c \<Longrightarrow> inj_on ident (insert b (holds c k)) \<Longrightarrow>
      holds (ins k b c) k' = (if k' = k then insert b (holds c k) else holds c k')"
    and take_ok: "ok c \<Longrightarrow> take_away k i c = (r, c') \<Longrightarrow> ok c'"
    and take_law: "ok c \<Longrightarrow> take_away k i c = (r, c') \<Longrightarrow>
      holds c' k' = (if k' = k then {b \<in> holds c k. ident b \<noteq> i} else holds c k')"
    and take_result: "ok c \<Longrightarrow> take_away k i c = (r, c') \<Longrightarrow>
      r = None \<longleftrightarrow> (\<forall>b \<in> holds c k. ident b \<noteq> i)"
begin

lemma lookup_after_ins:
  assumes "ok c" "inj_on ident (insert b (holds c k))"
  shows "\<exists>b'. lookup (ins k b c) k = Inr (Some b') \<and> b' \<in> insert b (holds c k)"
  using lookup_law [OF ins_ok [OF assms(1)], where k1 = k and b1 = b and k = k] ins_law [OF assms, of k]
  by auto

lemma ins_then_take:
  assumes "ok c" "inj_on ident (insert b (holds c k))" "b \<notin> holds c k"
    and t: "take_away k (ident b) (ins k b c) = (r, c')"
  shows "r \<noteq> None \<and> (\<forall>k'. holds c' k' = holds c k')"
proof -
  note ok' = ins_ok [OF assms(1), of k b]
  have "{x \<in> insert b (holds c k). ident x \<noteq> ident b} = holds c k"
    using assms(2,3) by (auto simp: inj_on_def)
  then show ?thesis
    using take_law [OF ok' t] take_result [OF ok' t] ins_law [OF assms(1,2)] by auto
qed

lemma taken_not_found:
  assumes "ok c" "take_away k (ident b) c = (r, c')"
  shows "lookup c' k \<noteq> Inr (Some b)"
  using lookup_law [OF take_ok [OF assms], of k] take_law [OF assms, of k] by auto

end

interpretation bm: block_multimap ident nodes_at "cache_wf ident" get_one_block
    "insert_block ident" "pop_block ident" for ident :: "node \<Rightarrow> int"
  by unfold_locales
    (simp_all add: get_one_block_nodes insert_block_wf insert_block_nodes pop_block_wf pop_block_nodes
      pop_block_None)

end
