(* ===== verification/Block_Hash.thy ===== *)
theory Block_Hash
  imports Request "HOL-Library.Countable"
begin

text \<open>
  Block hashes for prefix caching: the key packing, the extra keys, the hash chain and the
  granularity adapter of \<^verbatim>\<open>vllm/v1/core/kv_cache_utils.py\<close>, with the parts of
  \<^verbatim>\<open>vllm/v1/request.py\<close> that build and extend the hashes of a request. The hash function, the digest
  of prompt embeddings and the seed of the chain are parameters (\<open>hash_env\<close>): they come from
  \<^verbatim>\<open>hashlib\<close>, \<^verbatim>\<open>cbor2\<close>/\<^verbatim>\<open>pickle\<close> and \<^verbatim>\<open>os.urandom\<close>.
\<close>

unbundle bit_operations_syntax

section \<open>Keys with a group id\<close>

definition to_bytes4 :: "int \<Rightarrow> bytes res" where
  "to_bytes4 g =
     (if 0 \<le> g \<and> g < 2 ^ 32
      then Inr [word_of_int (g div 2 ^ 24), word_of_int (g div 2 ^ 16), word_of_int (g div 2 ^ 8),
                word_of_int g]
      else Inl OverflowError)"

definition from_bytes :: "bytes \<Rightarrow> int" where
  "from_bytes bs = foldl (\<lambda>a b. a * 256 + uint b) 0 bs"

definition make_block_hash_with_group_id :: "bytes \<Rightarrow> int \<Rightarrow> bytes res" where
  "make_block_hash_with_group_id block_hash group_id =
     and_then (to_bytes4 group_id) (\<lambda>b. Inr (block_hash @ b))"

definition get_block_hash :: "bytes \<Rightarrow> bytes" where
  "get_block_hash key = py_upto key (- 4)"

definition get_group_id :: "bytes \<Rightarrow> int" where
  "get_group_id key = from_bytes (py_from key (- 4))"

datatype external_block_hash = HBytes bytes | HInt int

text \<open>The flag is \<^verbatim>\<open>envs.VLLM_KV_EVENTS_USE_INT_BLOCK_HASHES\<close>.\<close>

definition maybe_convert_block_hash :: "bool \<Rightarrow> bytes \<Rightarrow> external_block_hash" where
  "maybe_convert_block_hash use_int_hashes hash_bytes =
     (if \<not> use_int_hashes then HBytes hash_bytes
      else HInt (from_bytes hash_bytes AND (push_bit 64 1 - 1)))"

section \<open>Extra keys\<close>

datatype extra_key = KStr string | KMM string int | KBytes bytes

record hash_env =
  hash_fn :: "bytes \<times> int list \<times> extra_key list option \<Rightarrow> bytes"
  NONE_HASH :: bytes
  embeds_digest :: "int list list \<Rightarrow> bytes"

text \<open>The seed is hashed when \<^verbatim>\<open>PYTHONHASHSEED\<close> is set, and random otherwise.\<close>

definition init_none_hash :: "(string \<Rightarrow> bytes) \<Rightarrow> bytes \<Rightarrow> string option \<Rightarrow> bytes" where
  "init_none_hash seed_hash urandom hash_seed =
     (case hash_seed of None \<Rightarrow> urandom | Some s \<Rightarrow> seed_hash s)"

definition need_extra_keys :: "request \<Rightarrow> bool" where
  "need_extra_keys r \<longleftrightarrow> mm_features r \<noteq> [] \<or> lora_request r \<noteq> None \<or> cache_salt r \<noteq> None"

text \<open>
  The loop of \<^verbatim>\<open>_gen_mm_extra_hash_keys\<close>, on the features from index \<open>i\<close> on: the keys of the
  inputs that overlap the block, and the index to start the next block with.
\<close>

fun mm_key_loop :: "mm_feature list \<Rightarrow> int \<Rightarrow> int \<Rightarrow> int \<Rightarrow> extra_key list \<times> int" where
  "mm_key_loop [] start_token_idx end_token_idx i = ([], i)"
| "mm_key_loop (f # fs) start_token_idx end_token_idx i =
     (if end_token_idx > mm_offset f
      then if start_token_idx \<ge> mm_offset f + mm_length f
           then mm_key_loop fs start_token_idx end_token_idx (i + 1)
           else if end_token_idx \<ge> mm_offset f + mm_length f
           then (let (ks, j) = mm_key_loop fs start_token_idx end_token_idx (i + 1)
                 in (KMM (mm_identifier f) (mm_offset f - start_token_idx) # ks, j))
           else ([KMM (mm_identifier f) (mm_offset f - start_token_idx)], i)
      else ([], i))"

definition gen_mm_extra_hash_keys ::
  "request \<Rightarrow> int \<Rightarrow> int \<Rightarrow> int \<Rightarrow> (extra_key list \<times> int) res" where
  "gen_mm_extra_hash_keys r start_token_idx end_token_idx start_mm_idx =
     (if mm_features r = [] then Inr ([], start_mm_idx)
      else let last_pos = last (mm_features r)
           in if mm_offset last_pos + mm_length last_pos \<le> start_token_idx
              then Inr ([], start_mm_idx)
              else and_then
                (if start_mm_idx < 0
                 then and_then (py_assert (- start_mm_idx \<le> int (length (mm_features r))))
                        (\<lambda>_. Inr (int (length (mm_features r)) + start_mm_idx))
                 else Inr start_mm_idx)
                (\<lambda>i. Inr (mm_key_loop (drop (nat i) (mm_features r)) start_token_idx end_token_idx i)))"

definition gen_lora_extra_hash_keys :: "request \<Rightarrow> extra_key list" where
  "gen_lora_extra_hash_keys r =
     (case lora_request r of None \<Rightarrow> [] | Some l \<Rightarrow> [KStr (lora_name l)])"

definition gen_prompt_embeds_extra_hash_keys ::
  "hash_env \<Rightarrow> request \<Rightarrow> int \<Rightarrow> int \<Rightarrow> extra_key list \<times> request" where
  "gen_prompt_embeds_extra_hash_keys env r start_token_idx end_token_idx =
     (case prompt_embeds r of
        None \<Rightarrow> ([], r)
      | Some embeds \<Rightarrow>
          (case map_of (prompt_embeds_per_block_hashes r) (start_token_idx, end_token_idx) of
             Some h \<Rightarrow> ([KBytes h], r)
           | None \<Rightarrow>
               let h = embeds_digest env (py_slice embeds start_token_idx end_token_idx)
               in ([KBytes h], r\<lparr>prompt_embeds_per_block_hashes :=
                     AList.update (start_token_idx, end_token_idx) h
                       (prompt_embeds_per_block_hashes r)\<rparr>)))"

definition generate_block_hash_extra_keys ::
  "hash_env \<Rightarrow> request \<Rightarrow> int \<Rightarrow> int \<Rightarrow> int \<Rightarrow> (extra_key list option \<times> int \<times> request) res" where
  "generate_block_hash_extra_keys env r start_token_idx end_token_idx start_mm_idx =
     and_then (gen_mm_extra_hash_keys r start_token_idx end_token_idx start_mm_idx)
       (\<lambda>(mm_extra_keys, new_start_mm_idx).
          let lora_extra_keys = gen_lora_extra_hash_keys r;
              cache_salt_keys = (if start_token_idx = 0
                 then (case cache_salt r of None \<Rightarrow> [] | Some s \<Rightarrow> if s = [] then [] else [KStr s])
                 else []);
              (prompt_embeds_keys, r') =
                gen_prompt_embeds_extra_hash_keys env r start_token_idx end_token_idx;
              extra_keys = lora_extra_keys @ mm_extra_keys @ cache_salt_keys @ prompt_embeds_keys
          in Inr (if extra_keys = [] then None else Some extra_keys, new_start_mm_idx, r'))"

section \<open>The hash chain of a request\<close>

definition hash_block_tokens ::
  "hash_env \<Rightarrow> bytes option \<Rightarrow> int list \<Rightarrow> extra_key list option \<Rightarrow> bytes" where
  "hash_block_tokens env parent_block_hash toks extra_keys =
     hash_fn env (case parent_block_hash of None \<Rightarrow> NONE_HASH env
                  | Some p \<Rightarrow> if p = [] then NONE_HASH env else p, toks, extra_keys)"

text \<open>
  The \<^verbatim>\<open>while True\<close> loop of the hasher. With a block size that is not positive it would not
  return, which is \<open>Diverges\<close> here.
\<close>

function hasher_loop ::
  "hash_env \<Rightarrow> int \<Rightarrow> int \<Rightarrow> request \<Rightarrow> int \<Rightarrow> int \<Rightarrow> bytes option \<Rightarrow> (bytes list \<times> request) res" where
  "hasher_loop env block_size nt r start_token_idx curr_mm_idx prev =
     (if block_size \<le> 0 then Inl Diverges
      else if start_token_idx + block_size > nt then Inr ([], r)
      else and_then (generate_block_hash_extra_keys env r start_token_idx
               (start_token_idx + block_size) curr_mm_idx)
        (\<lambda>(extra_keys, mm_idx, r').
           let block_tokens = py_slice (all_token_ids r') start_token_idx (start_token_idx + block_size);
               block_hash = hash_block_tokens env prev block_tokens extra_keys
           in and_then (hasher_loop env block_size nt r' (start_token_idx + block_size) mm_idx
                  (Some block_hash))
                (\<lambda>(hs, r''). Inr (block_hash # hs, r''))))"
  by auto
termination
  by (relation "measure (\<lambda>(env, bs, nt, r, s, i, p). nat (nt - s))") auto

definition request_block_hasher :: "hash_env \<Rightarrow> int \<Rightarrow> request \<Rightarrow> (bytes list \<times> request) res" where
  "request_block_hasher env block_size r =
     (let start_token_idx = int (length (block_hashes r)) * block_size
      in if start_token_idx + block_size > num_tokens r then Inr ([], r)
         else hasher_loop env block_size (num_tokens r) r start_token_idx
                (if start_token_idx > 0 then - 1 else 0)
                (if block_hashes r = [] then None else Some (last (block_hashes r))))"

text \<open>A request's \<^verbatim>\<open>_block_hasher\<close>: absent without prefix caching, else the closure's two captures.\<close>

type_synonym block_hasher = "(hash_env \<times> int) option"

definition update_block_hashes :: "block_hasher \<Rightarrow> request \<Rightarrow> request res" where
  "update_block_hashes hasher r =
     (case hasher of
        None \<Rightarrow> Inr r
      | Some (env, block_size) \<Rightarrow>
          and_then (request_block_hasher env block_size r)
            (\<lambda>(hs, r'). Inr (r'\<lparr>block_hashes := block_hashes r' @ hs\<rparr>)))"

definition append_output_token_ids :: "block_hasher \<Rightarrow> int list \<Rightarrow> request \<Rightarrow> request res" where
  "append_output_token_ids hasher token_ids r =
     update_block_hashes hasher
       (r\<lparr>output_token_ids := output_token_ids r @ token_ids,
          all_token_ids := all_token_ids r @ token_ids\<rparr>)"

section \<open>Building a request\<close>

record engine_request =
  er_request_id :: string
  er_client_index :: int
  er_prompt_token_ids :: "int list option"
  er_prompt_embeds :: "int list list option"
  er_mm_features :: "mm_feature list option"
  er_sampling_params :: "sampling_params option"
  er_pooling_params :: "pooling_params option"
  er_arrival_time :: rat
  er_lora_request :: "lora_request option"
  er_cache_salt :: "string option"
  er_priority :: int
  er_resumable :: bool
  er_reasoning_ended :: "bool option"

text \<open>
  \<^verbatim>\<open>Request.from_engine_core_request\<close> with the constructor it calls; \<open>oid\<close> is the identity of the
  new object.
\<close>

definition from_engine_core_request :: "block_hasher \<Rightarrow> nat \<Rightarrow> engine_request \<Rightarrow> request res" where
  "from_engine_core_request hasher oid er =
     (let so = map_option (\<lambda>s. s\<lparr>so_reasoning_ended := er_reasoning_ended er\<rparr>)
                 (from_sampling_params (er_sampling_params er))
      in and_then
        (case er_pooling_params er of
           Some pp \<Rightarrow> Inr (1, WAITING, None)
         | None \<Rightarrow>
             (case er_sampling_params er of
                None \<Rightarrow> Inl ValueError
              | Some sp \<Rightarrow>
                  and_then (of_option AssertionError (sp_max_tokens sp)) (\<lambda>mt.
                    Inr (mt, if so \<noteq> None then WAITING_FOR_STRUCTURED_OUTPUT_GRAMMAR else WAITING,
                         sp_kv_transfer_params sp))))
        (\<lambda>(mt, st, kvp).
          and_then (length_from_prompt_token_ids_or_embeds (er_prompt_token_ids er)
              (er_prompt_embeds er)) (\<lambda>npt.
            update_block_hashes hasher
              \<lparr>request_id = er_request_id er, obj_id = oid, client_index = er_client_index er,
               priority = er_priority er, arrival_time = er_arrival_time er,
               sampling_params = er_sampling_params er, pooling_params = er_pooling_params er,
               lora_request = er_lora_request er, structured_output_request = so, status = st,
               stop_reason = None, kv_transfer_params = kvp, max_tokens = mt,
               prompt_token_ids = er_prompt_token_ids er, prompt_embeds = er_prompt_embeds er,
               prompt_embeds_per_block_hashes = [], num_prompt_tokens = npt,
               output_token_ids = [],
               all_token_ids = (case er_prompt_token_ids er of
                   Some t \<Rightarrow> t | None \<Rightarrow> replicate (nat npt) 0),
               num_output_placeholders = 0, discard_latest_async_tokens = False,
               spec_token_ids = [], num_computed_tokens = 0, cache_salt = er_cache_salt er,
               mm_features = (case er_mm_features er of None \<Rightarrow> [] | Some fs \<Rightarrow> fs),
               num_cached_tokens = - 1, is_prefill_chunk = False, num_nans_in_logits = 0,
               num_preemptions = 0, num_external_computed_tokens = 0, block_hashes = [],
               skip_reading_prefix_cache = get_skip_reading_prefix_cache (er_sampling_params er)
                 (er_pooling_params er),
               resumable = er_resumable er, streaming_queue = None\<rparr>)))"

section \<open>Hashes at a coarser granularity\<close>

text \<open>
  \<^verbatim>\<open>BlockHashListWithBlockSize\<close>: the hashes computed per \<^verbatim>\<open>hash_block_size\<close> tokens, read in
  groups of \<open>scale\<close> by concatenation.
\<close>

definition scale_factor :: "int \<Rightarrow> int \<Rightarrow> int res" where
  "scale_factor hash_block_size target_block_size =
     and_then (py_assert (target_block_size mod hash_block_size = 0))
       (\<lambda>_. Inr (target_block_size div hash_block_size))"

definition scaled_len :: "bytes list \<Rightarrow> int \<Rightarrow> int" where
  "scaled_len hs scale = int (length hs) div scale"

fun merge_hashes :: "bytes list \<Rightarrow> bytes \<Rightarrow> int list \<Rightarrow> bytes res" where
  "merge_hashes hs merged [] = Inr merged"
| "merge_hashes hs merged (i # is) =
     and_then (py_index hs i) (\<lambda>h. merge_hashes hs (merged @ h) is)"

definition get_value_at :: "bytes list \<Rightarrow> int \<Rightarrow> int \<Rightarrow> bytes res" where
  "get_value_at hs scale idx =
     (let base = idx * scale; stop = base + scale
      in and_then (py_index hs base) (\<lambda>h. merge_hashes hs h [base + 1..stop - 1]))"

text \<open>The whole list, as iteration yields it.\<close>

definition scaled_hashes :: "bytes list \<Rightarrow> int \<Rightarrow> bytes list res" where
  "scaled_hashes hs scale = map_res (get_value_at hs scale) [0..scaled_len hs scale - 1]"

declare hasher_loop.simps [simp del]

section \<open>Packing and unpacking of keys\<close>

lemma base256_digits:
  fixes g :: int
  assumes "0 \<le> g" "g < 4294967296"
  shows "((g div 16777216 mod 256 * 256 + g div 65536 mod 256) * 256 + g div 256 mod 256) * 256
      + g mod 256 = g"
proof -
  have "g div 65536 = g div 256 div 256" "g div 16777216 = g div 65536 div 256"
    by (simp_all add: zdiv_zmult2_eq [symmetric])
  moreover have "g div 16777216 mod 256 = g div 16777216"
    using assms by (intro mod_pos_pos_trivial) auto
  moreover have "((c * 256 + z) * 256 + y) * 256 + x = g"
    if "a * 256 + x = g" "b * 256 + y = a" "c * 256 + z = b" for a b c x y z using that by simp
  ultimately show ?thesis
    using div_mult_mod_eq [of g 256] div_mult_mod_eq [of "g div 256" 256]
      div_mult_mod_eq [of "g div 65536" 256] by presburger
qed

lemma from_bytes4:
  fixes a b c d :: int
  shows "from_bytes [word_of_int a, word_of_int b, word_of_int c, word_of_int d] =
    ((a mod 256 * 256 + b mod 256) * 256 + c mod 256) * 256 + d mod 256"
  by (simp add: from_bytes_def uint_word_of_int_eq take_bit_eq_mod)

lemma to_bytes4_from:
  assumes "to_bytes4 g = Inr b"
  shows "from_bytes b = g" and "length b = 4"
proof -
  have g: "0 \<le> g" "g < 4294967296" using assms by (simp_all add: to_bytes4_def split: if_splits)
  have p: "(2 :: int) ^ 24 = 16777216" "(2 :: int) ^ 16 = 65536" "(2 :: int) ^ 8 = 256" by simp_all
  have b: "b = [word_of_int (g div 16777216), word_of_int (g div 65536), word_of_int (g div 256),
      word_of_int g]"
    using assms unfolding to_bytes4_def p by (metis Inl_Inr_False Inr_inject)
  show "from_bytes b = g" unfolding b from_bytes4 by (rule base256_digits [OF g])
  show "length b = 4" by (simp add: b)
qed

lemma to_bytes4_total: "0 \<le> g \<Longrightarrow> g < 2 ^ 32 \<Longrightarrow> \<exists>b. to_bytes4 g = Inr b"
  by (simp add: to_bytes4_def)

lemma unpack_pack:
  assumes "make_block_hash_with_group_id h g = Inr k"
  shows "get_block_hash k = h" and "get_group_id k = g"
proof -
  obtain b where b: "to_bytes4 g = Inr b" "k = h @ b"
    using assms by (auto simp: make_block_hash_with_group_id_def and_then_eq_Inr)
  then have "from_bytes b = g" "length b = 4" using to_bytes4_from [OF b(1)] by simp_all
  then show "get_block_hash k = h" "get_group_id k = g"
    using b by (simp_all add: get_block_hash_def get_group_id_def py_upto_def py_from_def py_clip_def)
qed

lemma pack_inj:
  assumes "make_block_hash_with_group_id h g = Inr k" "make_block_hash_with_group_id h' g' = Inr k"
  shows "h = h' \<and> g = g'"
  using unpack_pack [OF assms(1)] unpack_pack [OF assms(2)] by simp

section \<open>Multi-modal keys\<close>

text \<open>
  The features of a request come in order, without overlap. The keys of a block are those of the
  features that overlap it.
\<close>

definition mm_end :: "mm_feature \<Rightarrow> int" where
  "mm_end f = mm_offset f + mm_length f"

definition mm_wf :: "mm_feature list \<Rightarrow> bool" where
  "mm_wf fs \<longleftrightarrow> sorted_wrt (\<lambda>f g. mm_end f \<le> mm_offset g) fs \<and> (\<forall>f\<in>set fs. 0 < mm_length f)"

definition mm_overlaps :: "int \<Rightarrow> int \<Rightarrow> mm_feature \<Rightarrow> bool" where
  "mm_overlaps s e f \<longleftrightarrow> mm_offset f < e \<and> s < mm_end f"

definition mm_keys_in :: "mm_feature list \<Rightarrow> int \<Rightarrow> int \<Rightarrow> extra_key list" where
  "mm_keys_in fs s e = map (\<lambda>f. KMM (mm_identifier f) (mm_offset f - s)) (filter (mm_overlaps s e) fs)"

lemma mm_wf_Cons:
  "mm_wf (f # fs) \<longleftrightarrow> mm_wf fs \<and> 0 < mm_length f \<and> (\<forall>g\<in>set fs. mm_end f \<le> mm_offset g)"
  by (auto simp: mm_wf_def)

lemma mm_wf_drop: "mm_wf fs \<Longrightarrow> mm_wf (drop n fs)"
  by (auto simp: mm_wf_def sorted_wrt_drop dest: in_set_dropD)

lemma mm_key_loop_keys:
  "mm_wf fs \<Longrightarrow> s < e \<Longrightarrow> fst (mm_key_loop fs s e i) = mm_keys_in fs s e"
proof (induction fs arbitrary: i)
  case (Cons f fs)
  have later: "filter (mm_overlaps s e) fs = []" if "e \<le> mm_end f \<or> e \<le> mm_offset f"
    using that Cons.prems by (force simp: mm_wf_Cons mm_overlaps_def mm_end_def filter_empty_conv)
  show ?case
    using Cons later by (auto simp: mm_wf_Cons mm_keys_in_def mm_overlaps_def mm_end_def case_prod_beta)
qed (simp add: mm_keys_in_def)

lemma mm_key_loop_next:
  "snd (mm_key_loop fs s e i) = j \<Longrightarrow> s \<le> e \<Longrightarrow>
   i \<le> j \<and> j \<le> i + int (length fs) \<and> (\<forall>f\<in>set (take (nat (j - i)) fs). mm_end f \<le> e)"
proof (induction fs arbitrary: i j)
  case (Cons f fs)
  let ?j = "snd (mm_key_loop fs s e (i + 1))"
  have IH: "i + 1 \<le> ?j \<and> ?j \<le> i + 1 + int (length fs) \<and>
      (\<forall>f\<in>set (take (nat (?j - (i + 1))) fs). mm_end f \<le> e)"
    using Cons.IH [of "i + 1" ?j] Cons.prems by simp
  then have n: "nat (?j - i) = Suc (nat (?j - (i + 1)))" by linarith
  have "mm_end f \<le> e \<Longrightarrow> \<forall>f\<in>set (take (nat (?j - i)) (f # fs)). mm_end f \<le> e"
    using IH by (simp add: n)
  then show ?case
    using Cons.prems IH by (auto simp: mm_end_def split: if_splits prod.splits)
qed simp

text \<open>A start index that skips only features that end before position \<open>s\<close>.\<close>

definition valid_mm_idx :: "mm_feature list \<Rightarrow> int \<Rightarrow> int \<Rightarrow> bool" where
  "valid_mm_idx fs s i \<longleftrightarrow>
     (0 \<le> i \<and> i \<le> int (length fs) \<and> (\<forall>f\<in>set (take (nat i) fs). mm_end f \<le> s)) \<or>
     (i = - 1 \<and> (\<forall>f\<in>set (butlast fs). mm_end f \<le> s))"

lemma mm_keys_in_skip:
  "\<forall>f\<in>set (take n fs). mm_end f \<le> s \<Longrightarrow> mm_keys_in (drop n fs) s e = mm_keys_in fs s e"
proof -
  assume a: "\<forall>f\<in>set (take n fs). mm_end f \<le> s"
  have "filter (mm_overlaps s e) (take n fs @ drop n fs) = filter (mm_overlaps s e) (drop n fs)"
    unfolding filter_append using a by (simp add: filter_empty_conv mm_overlaps_def not_less)
  then show ?thesis by (simp add: mm_keys_in_def)
qed

lemma in_set_butlast_or_last: "x \<in> set xs \<Longrightarrow> x \<in> set (butlast xs) \<or> x = last xs"
  by (induction xs) auto

lemma mm_wf_last_max:
  assumes "mm_wf fs" "fs \<noteq> []" "f \<in> set fs"
  shows "mm_end f \<le> mm_end (last fs)"
proof -
  have split: "fs = butlast fs @ [last fs]" using assms(2) by simp
  have "sorted_wrt (\<lambda>f g. mm_end f \<le> mm_offset g) (butlast fs @ [last fs])"
    using assms(1) split by (simp add: mm_wf_def)
  then have "\<forall>f\<in>set (butlast fs). mm_end f \<le> mm_offset (last fs)"
    by (simp add: sorted_wrt_append del: append_butlast_last_id)
  moreover have "0 < mm_length (last fs)" using assms unfolding mm_wf_def by simp
  moreover have "f \<in> set (butlast fs) \<or> f = last fs"
    using assms(2,3) in_set_butlast_or_last [of f fs] by blast
  ultimately show ?thesis by (auto simp: mm_end_def)
qed

lemma gen_mm_extra_hash_keys_spec:
  assumes wf: "mm_wf (mm_features r)" and v: "valid_mm_idx (mm_features r) s i" and se: "s < e"
  shows "\<exists>j. gen_mm_extra_hash_keys r s e i = Inr (mm_keys_in (mm_features r) s e, j) \<and>
    valid_mm_idx (mm_features r) e j"
proof (cases "mm_features r = [] \<or> mm_end (last (mm_features r)) \<le> s")
  case True
  then have "gen_mm_extra_hash_keys r s e i = Inr ([], i)"
    by (auto simp: gen_mm_extra_hash_keys_def mm_end_def)
  moreover have "mm_keys_in (mm_features r) s e = []"
    using True mm_wf_last_max [OF wf] by (force simp: mm_keys_in_def filter_empty_conv mm_overlaps_def)
  moreover have "valid_mm_idx (mm_features r) e i" using v se by (auto simp: valid_mm_idx_def)
  ultimately show ?thesis by simp
next
  case False
  let ?fs = "mm_features r"
  let ?i = "if i < 0 then int (length ?fs) + i else i"
  have i: "0 \<le> ?i" "?i \<le> int (length ?fs)" "\<forall>f\<in>set (take (nat ?i) ?fs). mm_end f \<le> s"
    using v False by (auto simp: valid_mm_idx_def butlast_conv_take nat_diff_distrib Suc_le_eq)
  let ?l = "mm_key_loop (drop (nat ?i) ?fs) s e ?i"
  have "gen_mm_extra_hash_keys r s e i = Inr ?l"
    using False v by (auto simp: gen_mm_extra_hash_keys_def mm_end_def Let_def valid_mm_idx_def Suc_le_eq)
  moreover have "fst ?l = mm_keys_in ?fs s e"
    using mm_key_loop_keys [OF mm_wf_drop [OF wf] se] mm_keys_in_skip [OF i(3)] by simp
  moreover have "valid_mm_idx ?fs e (snd ?l)"
  proof -
    have nx: "?i \<le> snd ?l" "snd ?l \<le> ?i + int (length (drop (nat ?i) ?fs))"
      "\<forall>f\<in>set (take (nat (snd ?l - ?i)) (drop (nat ?i) ?fs)). mm_end f \<le> e"
      using mm_key_loop_next [OF refl, where fs = "drop (nat ?i) ?fs" and s = s and e = e and i = ?i] se by auto
    have "nat (snd ?l) = nat ?i + nat (snd ?l - ?i)" using nx(1) i(1) by linarith
    then have "take (nat (snd ?l)) ?fs = take (nat ?i) ?fs @ take (nat (snd ?l - ?i)) (drop (nat ?i) ?fs)"
      by (simp only: take_add)
    then have "\<forall>f\<in>set (take (nat (snd ?l)) ?fs). mm_end f \<le> e" using nx(3) i(3) se by force
    then show ?thesis using nx(1,2) i by (auto simp: valid_mm_idx_def)
  qed
  ultimately show ?thesis
    by (intro exI [of _ "snd ?l"]) (simp add: prod_eq_iff del: mm_key_loop.simps)
qed

section \<open>The extra keys of a block\<close>

definition salt_keys :: "request \<Rightarrow> int \<Rightarrow> extra_key list" where
  "salt_keys r s = (if s = 0
     then (case cache_salt r of None \<Rightarrow> [] | Some v \<Rightarrow> if v = [] then [] else [KStr v]) else [])"

definition embed_keys :: "hash_env \<Rightarrow> request \<Rightarrow> int \<Rightarrow> int \<Rightarrow> extra_key list" where
  "embed_keys env r s e =
     (case prompt_embeds r of None \<Rightarrow> [] | Some m \<Rightarrow> [KBytes (embeds_digest env (py_slice m s e))])"

definition block_extra_keys :: "hash_env \<Rightarrow> request \<Rightarrow> int \<Rightarrow> int \<Rightarrow> extra_key list option" where
  "block_extra_keys env r s e =
     (let ks = gen_lora_extra_hash_keys r @ mm_keys_in (mm_features r) s e @ salt_keys r s @
            embed_keys env r s e
      in if ks = [] then None else Some ks)"

text \<open>The per-block digests cached on the request are the digests of those blocks.\<close>

definition memo_ok :: "hash_env \<Rightarrow> request \<Rightarrow> bool" where
  "memo_ok env r \<longleftrightarrow> (\<forall>m s e h. prompt_embeds r = Some m \<longrightarrow>
     map_of (prompt_embeds_per_block_hashes r) (s, e) = Some h \<longrightarrow> h = embeds_digest env (py_slice m s e))"

lemma memo_ok_empty [simp]: "prompt_embeds_per_block_hashes r = [] \<Longrightarrow> memo_ok env r"
  by (simp add: memo_ok_def)

lemma memo_ok_cong:
  "prompt_embeds r = prompt_embeds r' \<Longrightarrow>
   prompt_embeds_per_block_hashes r = prompt_embeds_per_block_hashes r' \<Longrightarrow> memo_ok env r = memo_ok env r'"
  by (simp add: memo_ok_def)

lemma gen_prompt_embeds_extra_hash_keys_spec:
  assumes "memo_ok env r"
  shows "\<exists>m. gen_prompt_embeds_extra_hash_keys env r s e =
    (embed_keys env r s e, r\<lparr>prompt_embeds_per_block_hashes := m\<rparr>) \<and>
    memo_ok env (r\<lparr>prompt_embeds_per_block_hashes := m\<rparr>)"
proof (cases "prompt_embeds r")
  case None
  have "r = r\<lparr>prompt_embeds_per_block_hashes := prompt_embeds_per_block_hashes r\<rparr>" by simp
  then show ?thesis using None assms
    by (intro exI [of _ "prompt_embeds_per_block_hashes r"])
      (simp add: gen_prompt_embeds_extra_hash_keys_def embed_keys_def)
next
  case (Some emb)
  show ?thesis
  proof (cases "map_of (prompt_embeds_per_block_hashes r) (s, e)")
    case None
    then show ?thesis using Some assms
      by (intro exI [of _ "AList.update (s, e) (embeds_digest env (py_slice emb s e))
              (prompt_embeds_per_block_hashes r)"])
        (auto simp: gen_prompt_embeds_extra_hash_keys_def embed_keys_def memo_ok_def update_conv
          Let_def split: if_splits)
  next
    case (Some h)
    then show ?thesis using assms \<open>prompt_embeds r = Some emb\<close>
      by (intro exI [of _ "prompt_embeds_per_block_hashes r"])
        (simp add: gen_prompt_embeds_extra_hash_keys_def embed_keys_def memo_ok_def)
  qed
qed

lemma generate_block_hash_extra_keys_spec:
  assumes "memo_ok env r" "mm_wf (mm_features r)" "valid_mm_idx (mm_features r) s i" "s < e"
  shows "\<exists>j m. generate_block_hash_extra_keys env r s e i =
      Inr (block_extra_keys env r s e, j, r\<lparr>prompt_embeds_per_block_hashes := m\<rparr>) \<and>
    valid_mm_idx (mm_features r) e j \<and> memo_ok env (r\<lparr>prompt_embeds_per_block_hashes := m\<rparr>)"
proof -
  obtain j where j: "gen_mm_extra_hash_keys r s e i = Inr (mm_keys_in (mm_features r) s e, j)"
    "valid_mm_idx (mm_features r) e j"
    using gen_mm_extra_hash_keys_spec [OF assms(2-4)] by blast
  obtain m where m: "gen_prompt_embeds_extra_hash_keys env r s e =
      (embed_keys env r s e, r\<lparr>prompt_embeds_per_block_hashes := m\<rparr>)"
    "memo_ok env (r\<lparr>prompt_embeds_per_block_hashes := m\<rparr>)"
    using gen_prompt_embeds_extra_hash_keys_spec [OF assms(1)] by blast
  have "generate_block_hash_extra_keys env r s e i =
      Inr (block_extra_keys env r s e, j, r\<lparr>prompt_embeds_per_block_hashes := m\<rparr>)"
    by (simp add: generate_block_hash_extra_keys_def block_extra_keys_def salt_keys_def Let_def j(1) m(1))
  with j(2) m(2) show ?thesis by blast
qed

section \<open>The chain\<close>

definition block_tokens_at :: "request \<Rightarrow> int \<Rightarrow> nat \<Rightarrow> int list" where
  "block_tokens_at r bs k = py_slice (all_token_ids r) (int k * bs) (int k * bs + bs)"

definition block_keys_at :: "hash_env \<Rightarrow> request \<Rightarrow> int \<Rightarrow> nat \<Rightarrow> extra_key list option" where
  "block_keys_at env r bs k = block_extra_keys env r (int k * bs) (int k * bs + bs)"

text \<open>The specification: the hash of block \<open>k\<close> covers the hash of its parent, its tokens and its keys.\<close>

fun block_chain :: "hash_env \<Rightarrow> int \<Rightarrow> request \<Rightarrow> nat \<Rightarrow> bytes" where
  "block_chain env bs r 0 =
     hash_block_tokens env None (block_tokens_at r bs 0) (block_keys_at env r bs 0)"
| "block_chain env bs r (Suc k) =
     hash_block_tokens env (Some (block_chain env bs r k)) (block_tokens_at r bs (Suc k))
       (block_keys_at env r bs (Suc k))"

lemma block_keys_cong:
  "lora_request r = lora_request r' \<Longrightarrow> mm_features r = mm_features r' \<Longrightarrow>
   cache_salt r = cache_salt r' \<Longrightarrow> prompt_embeds r = prompt_embeds r' \<Longrightarrow>
   block_extra_keys env r s e = block_extra_keys env r' s e"
  by (simp add: block_extra_keys_def gen_lora_extra_hash_keys_def salt_keys_def embed_keys_def)

lemma block_chain_cong:
  assumes "lora_request r = lora_request r'" "mm_features r = mm_features r'"
    "cache_salt r = cache_salt r'" "prompt_embeds r = prompt_embeds r'"
    "\<And>k. k \<le> n \<Longrightarrow> block_tokens_at r bs k = block_tokens_at r' bs k"
  shows "block_chain env bs r n = block_chain env bs r' n"
  using assms(5)
proof (induction n)
  case 0
  then show ?case using block_keys_cong [OF assms(1-4)] by (simp add: block_keys_at_def)
next
  case (Suc n)
  then show ?case using block_keys_cong [OF assms(1-4)] by (simp add: block_keys_at_def)
qed

lemma block_chain_memo [simp]:
  "block_chain env bs (r\<lparr>prompt_embeds_per_block_hashes := m\<rparr>) = block_chain env bs r"
  "block_chain env bs (r\<lparr>block_hashes := hs\<rparr>) = block_chain env bs r"
  by (rule ext, rule block_chain_cong; simp add: block_tokens_at_def)+

lemma hasher_loop_spec:
  assumes "0 < bs" "memo_ok env r" "mm_wf (mm_features r)"
    "valid_mm_idx (mm_features r) (int k * bs) i" "k \<le> n" "n = nat (num_tokens r div bs)"
    "prev = (if k = 0 then None else Some (block_chain env bs r (k - 1)))"
  shows "\<exists>m. hasher_loop env bs (num_tokens r) r (int k * bs) i prev =
      Inr (map (block_chain env bs r) [k..<n], r\<lparr>prompt_embeds_per_block_hashes := m\<rparr>) \<and>
    memo_ok env (r\<lparr>prompt_embeds_per_block_hashes := m\<rparr>)"
  using assms
proof (induction "n - k" arbitrary: k i r prev)
  case 0
  then have "k = n" by simp
  have "int n = num_tokens r div bs" using 0 by (simp add: num_tokens_def pos_imp_zdiv_nonneg_iff)
  then have "num_tokens r < int k * bs + bs"
    using \<open>k = n\<close> 0(2) by (metis div_mult_mod_eq add_strict_left_mono pos_mod_bound)
  then show ?case using 0 \<open>k = n\<close>
    by (intro exI [of _ "prompt_embeds_per_block_hashes r"]) (simp add: hasher_loop.simps)
next
  case (Suc d)
  then have kn: "k < n" by simp
  have "int n = num_tokens r div bs" using Suc by (simp add: num_tokens_def pos_imp_zdiv_nonneg_iff)
  then have "int (Suc k) \<le> num_tokens r div bs" using kn by linarith
  then have fits: "int k * bs + bs \<le> num_tokens r"
    using le_div_iff_mult_le [OF Suc.prems(1)] by (simp add: algebra_simps)
  obtain j m where g: "generate_block_hash_extra_keys env r (int k * bs) (int k * bs + bs) i =
      Inr (block_keys_at env r bs k, j, r\<lparr>prompt_embeds_per_block_hashes := m\<rparr>)"
    "valid_mm_idx (mm_features r) (int k * bs + bs) j"
    "memo_ok env (r\<lparr>prompt_embeds_per_block_hashes := m\<rparr>)"
    using generate_block_hash_extra_keys_spec [OF Suc.prems(2-4), of "int k * bs + bs"] Suc.prems(1)
    unfolding block_keys_at_def by auto
  let ?r = "r\<lparr>prompt_embeds_per_block_hashes := m\<rparr>"
  have h: "hash_block_tokens env prev (block_tokens_at r bs k) (block_keys_at env r bs k) =
      block_chain env bs r k"
    using Suc.prems(7) by (cases k) simp_all
  have nt: "num_tokens ?r = num_tokens r" by (simp add: num_tokens_def)
  obtain m' where IH: "hasher_loop env bs (num_tokens r) ?r (int (Suc k) * bs) j
      (Some (block_chain env bs r k)) = Inr (map (block_chain env bs r) [Suc k..<n],
        r\<lparr>prompt_embeds_per_block_hashes := m'\<rparr>)"
    "memo_ok env (r\<lparr>prompt_embeds_per_block_hashes := m'\<rparr>)"
  proof -
    have "d = n - Suc k" using Suc.hyps(2) kn by simp
    from Suc.hyps(1) [OF this, of ?r j "Some (block_chain env bs r k)"] that show ?thesis
      using Suc.prems(1,3,6) g(2,3) kn nt by (auto simp: algebra_simps)
  qed
  have e: "int k * bs + bs = int (Suc k) * bs" by (simp add: algebra_simps)
  have "hasher_loop env bs (num_tokens r) r (int k * bs) i prev =
      Inr (block_chain env bs r k # map (block_chain env bs r) [Suc k..<n],
        r\<lparr>prompt_embeds_per_block_hashes := m'\<rparr>)"
    using fits Suc.prems(1) IH(1) [folded e] h
    by (simp add: hasher_loop.simps [of env bs "num_tokens r" r] g(1) Let_def block_tokens_at_def)
  moreover have "[k..<n] = k # [Suc k..<n]" using kn by (rule upt_conv_Cons)
  ultimately show ?case using IH(2) by (intro exI [of _ m']) simp
qed

text \<open>What a hashed request looks like: its hashes are a prefix of the chain.\<close>

definition hashes_ok :: "hash_env \<Rightarrow> int \<Rightarrow> request \<Rightarrow> bool" where
  "hashes_ok env bs r \<longleftrightarrow> memo_ok env r \<and> mm_wf (mm_features r) \<and>
     int (length (block_hashes r)) * bs \<le> num_tokens r \<and>
     block_hashes r = map (block_chain env bs r) [0..<length (block_hashes r)]"

text \<open>
  Features other than the last end before the blocks that are still to be hashed; the hasher
  relies on it when it resumes.
\<close>

definition mm_tail_hashed :: "int \<Rightarrow> request \<Rightarrow> bool" where
  "mm_tail_hashed bs r \<longleftrightarrow> block_hashes r = [] \<or>
     (\<forall>f\<in>set (butlast (mm_features r)). mm_end f \<le> int (length (block_hashes r)) * bs)"

lemma update_block_hashes_spec:
  assumes bs: "0 < bs" and ok: "hashes_ok env bs r" and tail: "mm_tail_hashed bs r"
  shows "\<exists>m. update_block_hashes (Some (env, bs)) r =
      Inr (r\<lparr>prompt_embeds_per_block_hashes := m,
             block_hashes := map (block_chain env bs r) [0..<nat (num_tokens r div bs)]\<rparr>) \<and>
    memo_ok env (r\<lparr>prompt_embeds_per_block_hashes := m\<rparr>)"
proof -
  let ?k = "length (block_hashes r)" and ?n = "nat (num_tokens r div bs)"
  have n: "int ?n = num_tokens r div bs" using bs by (simp add: num_tokens_def pos_imp_zdiv_nonneg_iff)
  have "int ?k \<le> num_tokens r div bs"
    using ok bs zdiv_mono1 [of "int ?k * bs" "num_tokens r" bs] by (simp add: hashes_ok_def)
  then have kn: "?k \<le> ?n" using n by linarith
  have hs: "map (block_chain env bs r) [0..<?n] =
      block_hashes r @ map (block_chain env bs r) [?k..<?n]"
  proof -
    have "[0..<?n] = [0..<?k] @ [?k..<?n]" using kn by (metis le0 le_add_diff_inverse upt_add_eq_append)
    then show ?thesis using ok unfolding hashes_ok_def by (metis map_append)
  qed
  have "\<exists>m. request_block_hasher env bs r =
      Inr (map (block_chain env bs r) [?k..<?n], r\<lparr>prompt_embeds_per_block_hashes := m\<rparr>) \<and>
    memo_ok env (r\<lparr>prompt_embeds_per_block_hashes := m\<rparr>)"
  proof (cases "int ?k * bs + bs > num_tokens r")
    case True
    then have "\<not> int ?k + 1 \<le> num_tokens r div bs"
      using le_div_iff_mult_le [OF bs, of "int ?k + 1" "num_tokens r"] by (simp add: algebra_simps)
    then have "?n \<le> ?k" using n by linarith
    then show ?thesis using True ok
      by (intro exI [of _ "prompt_embeds_per_block_hashes r"])
        (simp add: request_block_hasher_def Let_def hashes_ok_def)
  next
    case False
    have pos: "0 < int ?k * bs \<longleftrightarrow> block_hashes r \<noteq> []"
      using bs by (cases "block_hashes r") (auto simp: zero_less_mult_iff)
    have v: "valid_mm_idx (mm_features r) (int ?k * bs) (if 0 < int ?k * bs then - 1 else 0)"
      using tail unfolding pos by (auto simp: valid_mm_idx_def mm_tail_hashed_def)
    have last: "(if block_hashes r = [] then None else Some (last (block_hashes r))) =
        (if ?k = 0 then None else Some (block_chain env bs r (?k - 1)))"
    proof (cases "block_hashes r = []")
      case False
      then have "last (block_hashes r) = map (block_chain env bs r) [0..<?k] ! (?k - 1)"
        using ok by (simp add: last_conv_nth hashes_ok_def)
      then show ?thesis using False by simp
    qed simp
    have "request_block_hasher env bs r = hasher_loop env bs (num_tokens r) r (int ?k * bs)
        (if 0 < int ?k * bs then - 1 else 0)
        (if ?k = 0 then None else Some (block_chain env bs r (?k - 1)))"
      using False unfolding request_block_hasher_def Let_def last by simp
    with hasher_loop_spec [OF bs _ _ v kn refl refl] ok show ?thesis
      by (simp add: hashes_ok_def)
  qed
  then show ?thesis using hs by (auto simp: update_block_hashes_def)
qed

subsection \<open>Extending a hashed request\<close>

lemma py_slice_append1:
  "0 \<le> a \<Longrightarrow> a \<le> b \<Longrightarrow> b \<le> int (length xs) \<Longrightarrow> py_slice (xs @ ys) a b = py_slice xs a b"
  by (simp add: py_slice_def py_clip_def nat_le_iff)

abbreviation with_tokens :: "request \<Rightarrow> int list \<Rightarrow> request" where
  "with_tokens r ts \<equiv> r\<lparr>output_token_ids := output_token_ids r @ ts,
     all_token_ids := all_token_ids r @ ts\<rparr>"

lemma block_chain_extend:
  assumes "0 \<le> bs" "int k * bs + bs \<le> num_tokens r"
  shows "block_chain env bs (with_tokens r ts) k = block_chain env bs r k"
proof (rule block_chain_cong)
  fix l assume "l \<le> k"
  then have "int l * bs \<le> int k * bs" using assms(1) by (intro mult_right_mono) auto
  then show "block_tokens_at (with_tokens r ts) bs l = block_tokens_at r bs l"
    using assms by (simp add: block_tokens_at_def num_tokens_def py_slice_append1)
qed simp_all

lemma hashes_ok_extend:
  assumes "0 < bs" "hashes_ok env bs r"
  shows "hashes_ok env bs (with_tokens r ts)"
proof -
  let ?k = "length (block_hashes r)"
  have "block_chain env bs (with_tokens r ts) l = block_chain env bs r l" if "l < ?k" for l
  proof (rule block_chain_extend)
    have "int l + 1 \<le> int ?k" using that by linarith
    then have "(int l + 1) * bs \<le> int ?k * bs" using assms(1) by (intro mult_right_mono) auto
    then show "int l * bs + bs \<le> num_tokens r"
      using assms(2) by (simp add: hashes_ok_def algebra_simps)
  qed (use assms(1) in simp)
  then have "map (block_chain env bs (with_tokens r ts)) [0..<?k] = map (block_chain env bs r) [0..<?k]"
    by simp
  moreover have "num_tokens r \<le> num_tokens (with_tokens r ts)" by (simp add: num_tokens_def)
  ultimately show ?thesis
    using assms(2) memo_ok_cong [of "with_tokens r ts" r env]
    unfolding hashes_ok_def by fastforce
qed

text \<open>Fully hashed: every full block of tokens has its hash.\<close>

definition hashed :: "hash_env \<Rightarrow> int \<Rightarrow> request \<Rightarrow> bool" where
  "hashed env bs r \<longleftrightarrow> hashes_ok env bs r \<and> length (block_hashes r) = nat (num_tokens r div bs)"

lemma update_block_hashes_hashed:
  assumes bs: "0 < bs" and ok: "hashes_ok env bs r" and tail: "mm_tail_hashed bs r"
  obtains m r' where "update_block_hashes (Some (env, bs)) r = Inr r'"
    and "r' = r\<lparr>prompt_embeds_per_block_hashes := m, block_hashes := block_hashes r'\<rparr>"
    and "hashed env bs r'"
proof -
  obtain m where m: "update_block_hashes (Some (env, bs)) r =
      Inr (r\<lparr>prompt_embeds_per_block_hashes := m,
             block_hashes := map (block_chain env bs r) [0..<nat (num_tokens r div bs)]\<rparr>)"
    "memo_ok env (r\<lparr>prompt_embeds_per_block_hashes := m\<rparr>)"
    using update_block_hashes_spec [OF assms] by blast
  let ?r = "r\<lparr>prompt_embeds_per_block_hashes := m,
             block_hashes := map (block_chain env bs r) [0..<nat (num_tokens r div bs)]\<rparr>"
  have nt: "num_tokens ?r = num_tokens r" "0 \<le> num_tokens r div bs"
    using bs by (simp_all add: num_tokens_def pos_imp_zdiv_nonneg_iff)
  have "num_tokens r div bs * bs \<le> num_tokens r" using le_div_iff_mult_le [OF bs] by blast
  then have "hashed env bs ?r"
    using ok m(2) nt memo_ok_cong [of ?r "r\<lparr>prompt_embeds_per_block_hashes := m\<rparr>" env]
    by (simp add: hashed_def hashes_ok_def)
  then show thesis using that [OF m(1), of m] by simp
qed

lemma append_output_hashed:
  assumes "0 < bs" "hashed env bs r" "mm_tail_hashed bs r"
  obtains m r' where "append_output_token_ids (Some (env, bs)) ts r = Inr r'"
    and "r' = (with_tokens r ts)\<lparr>prompt_embeds_per_block_hashes := m, block_hashes := block_hashes r'\<rparr>"
    and "hashed env bs r'"
proof -
  have "hashes_ok env bs (with_tokens r ts)" "mm_tail_hashed bs (with_tokens r ts)"
    using assms hashes_ok_extend by (simp_all add: hashed_def mm_tail_hashed_def)
  then show thesis
    using update_block_hashes_hashed [OF assms(1)] that unfolding append_output_token_ids_def by blast
qed

text \<open>The tail condition survives extension: the hashed region only grows.\<close>

lemma mm_tail_hashed_grows:
  assumes "0 < bs" "length (block_hashes r) \<le> length (block_hashes r')" "block_hashes r \<noteq> []"
    "mm_features r' = mm_features r" "mm_tail_hashed bs r"
  shows "mm_tail_hashed bs r'"
proof -
  have "int (length (block_hashes r)) * bs \<le> int (length (block_hashes r')) * bs"
    using assms(1,2) by (intro mult_right_mono) auto
  then show ?thesis using assms(3-5) by (auto simp: mm_tail_hashed_def)
qed

text \<open>Features other than the last lie in the full blocks of the prompt.\<close>

definition mm_in_full_blocks :: "int \<Rightarrow> request \<Rightarrow> bool" where
  "mm_in_full_blocks bs r \<longleftrightarrow> (\<forall>f\<in>set (butlast (mm_features r)). mm_end f \<le> num_tokens r div bs * bs)"

lemma mm_in_full_blocks_tail:
  assumes "0 < bs" "hashed env bs r" "mm_in_full_blocks bs r"
  shows "mm_tail_hashed bs r"
proof -
  have "0 \<le> num_tokens r div bs" using assms(1) by (simp add: num_tokens_def pos_imp_zdiv_nonneg_iff)
  then show ?thesis using assms(2,3) by (simp add: hashed_def mm_tail_hashed_def mm_in_full_blocks_def)
qed

lemma mm_in_full_blocks_extend:
  assumes "0 < bs" "mm_in_full_blocks bs r" "mm_features r' = mm_features r"
    "num_tokens r \<le> num_tokens r'"
  shows "mm_in_full_blocks bs r'"
proof -
  have "num_tokens r div bs * bs \<le> num_tokens r' div bs * bs"
    using assms(1,4) by (intro mult_right_mono zdiv_mono1) auto
  then show ?thesis using assms(2,3) unfolding mm_in_full_blocks_def by force
qed

lemma append_outputs_hashed:
  assumes "0 < bs" "hashed env bs r" "mm_in_full_blocks bs r"
  shows "\<exists>m r'. fold_res (append_output_token_ids (Some (env, bs))) chunks r = Inr r' \<and>
    r' = (with_tokens r (concat chunks))\<lparr>prompt_embeds_per_block_hashes := m, block_hashes := block_hashes r'\<rparr> \<and>
    hashed env bs r'"
  using assms(2,3)
proof (induction chunks arbitrary: r)
  case Nil
  then show ?case by (intro exI [of _ "prompt_embeds_per_block_hashes r"]) simp
next
  case (Cons ts chunks)
  obtain m r1 where r1: "append_output_token_ids (Some (env, bs)) ts r = Inr r1"
    "r1 = (with_tokens r ts)\<lparr>prompt_embeds_per_block_hashes := m, block_hashes := block_hashes r1\<rparr>"
    "hashed env bs r1"
    using append_output_hashed [OF assms(1) Cons.prems(1)
        mm_in_full_blocks_tail [OF assms(1) Cons.prems]] by blast
  have f: "mm_features r1 = mm_features r" "num_tokens r \<le> num_tokens r1"
    by (subst r1(2), simp add: num_tokens_def)+
  then have "mm_in_full_blocks bs r1" using mm_in_full_blocks_extend [OF assms(1) Cons.prems(2)] by blast
  from Cons.IH [OF r1(3) this] obtain m' r2 where r2:
    "fold_res (append_output_token_ids (Some (env, bs))) chunks r1 = Inr r2"
    "r2 = (with_tokens r1 (concat chunks))\<lparr>prompt_embeds_per_block_hashes := m', block_hashes := block_hashes r2\<rparr>"
    "hashed env bs r2" by blast
  have "r2 = (with_tokens r (concat (ts # chunks)))\<lparr>prompt_embeds_per_block_hashes := m', block_hashes := block_hashes r2\<rparr>"
    by (subst r2(2), subst (1 2 3) r1(2)) simp
  with r1(1) r2(1,3) show ?case by auto
qed

section \<open>Collision freedom\<close>

text \<open>
  What a good hash function gives: no collisions on its inputs, never the empty string (the code
  takes an empty parent for no parent), and never the seed of the chain.
\<close>

definition good_hash :: "hash_env \<Rightarrow> bool" where
  "good_hash env \<longleftrightarrow> inj (hash_fn env) \<and> (\<forall>x. hash_fn env x \<noteq> []) \<and> NONE_HASH env \<notin> range (hash_fn env)"

instance extra_key :: countable
  by countable_datatype

text \<open>A function that meets it: count the inputs and write the number in unary.\<close>

definition unary_env :: hash_env where
  "unary_env = \<lparr>hash_fn = (\<lambda>x. replicate (Suc (to_nat x)) 1), NONE_HASH = [0],
     embeds_digest = (\<lambda>m. replicate (to_nat m) 0)\<rparr>"

lemma good_hash_unary: "good_hash unary_env"
proof -
  have "inj (hash_fn unary_env)"
    by (rule injI) (simp add: unary_env_def replicate_eq_replicate)
  then show ?thesis by (auto simp: good_hash_def unary_env_def)
qed

lemma hash_block_tokens_inj:
  assumes "good_hash env"
    and "hash_block_tokens env p ts ks = hash_block_tokens env p' ts' ks'"
    and "p \<in> insert None (Some ` range (hash_fn env))" "p' \<in> insert None (Some ` range (hash_fn env))"
  shows "p = p' \<and> ts = ts' \<and> ks = ks'"
proof -
  have nr: "hash_fn env x \<noteq> NONE_HASH env" for x using assms(1) unfolding good_hash_def by (metis rangeI)
  then have rn: "NONE_HASH env \<noteq> hash_fn env x" for x by metis
  show ?thesis
    using assms nr rn by (auto simp: hash_block_tokens_def good_hash_def inj_eq split: if_splits)
qed

lemma block_chain_range: "block_chain env bs r k \<in> range (hash_fn env)"
  by (cases k) (auto simp: hash_block_tokens_def)

lemma block_chain_inj:
  assumes "good_hash env"
  shows "block_chain env bs r i = block_chain env bs r' j \<Longrightarrow> i = j \<and>
    (\<forall>k\<le>i. block_tokens_at r bs k = block_tokens_at r' bs k \<and>
            block_keys_at env r bs k = block_keys_at env r' bs k)"
proof (induction i arbitrary: j)
  case 0
  then show ?case using hash_block_tokens_inj [OF assms] block_chain_range
    by (cases j) (fastforce dest!: hash_block_tokens_inj [OF assms])+
next
  case (Suc i)
  show ?case
  proof (cases j)
    case 0
    with Suc.prems show ?thesis using block_chain_range
      by (fastforce dest!: hash_block_tokens_inj [OF assms])
  next
    case (Suc l)
    with Suc.prems have "block_chain env bs r i = block_chain env bs r' l \<and>
        block_tokens_at r bs (Suc i) = block_tokens_at r' bs (Suc l) \<and>
        block_keys_at env r bs (Suc i) = block_keys_at env r' bs (Suc l)"
      using block_chain_range by (auto dest!: hash_block_tokens_inj [OF assms])
    with Suc.IH [of l] Suc show ?thesis by (auto simp: le_Suc_eq)
  qed
qed

lemma take_by_blocks:
  assumes "0 < bs" "\<forall>k\<le>i. block_tokens_at r bs k = block_tokens_at r' bs k"
    "(int i + 1) * bs \<le> num_tokens r" "(int i + 1) * bs \<le> num_tokens r'"
  shows "take (nat ((int i + 1) * bs)) (all_token_ids r) = take (nat ((int i + 1) * bs)) (all_token_ids r')"
  using assms(2-4)
proof (induction i)
  have blk: "block_tokens_at q bs k = take (nat bs) (drop (nat (int k * bs)) (all_token_ids q))"
    if "(int k + 1) * bs \<le> num_tokens q" for q k
  proof -
    have "0 \<le> int k * bs" "\<not> int k * bs < 0" using assms(1) by (simp_all add: mult_less_0_iff)
    moreover have "int k * bs + bs \<le> num_tokens q" using that by (simp add: algebra_simps)
    ultimately show ?thesis using assms(1)
      by (simp add: block_tokens_at_def py_slice_def py_clip_def num_tokens_def nat_le_iff
          nat_add_distrib min_def del: mult_less_0_iff)
  qed
  {
    case 0
    then show ?case using blk [of 0 r] blk [of 0 r'] by simp
  next
    case (Suc i)
    have e: "nat ((int (Suc i) + 1) * bs) = nat ((int i + 1) * bs) + nat bs"
      using assms(1) by (simp add: nat_add_distrib [symmetric] algebra_simps)
    have "(int i + 1) * bs \<le> (int (Suc i) + 1) * bs" using assms(1) by (intro mult_right_mono) auto
    with Suc have IH: "take (nat ((int i + 1) * bs)) (all_token_ids r) =
        take (nat ((int i + 1) * bs)) (all_token_ids r')" by simp
    have "int (Suc i) * bs = (int i + 1) * bs" by (simp add: algebra_simps)
    then have "take (nat bs) (drop (nat ((int i + 1) * bs)) (all_token_ids r)) =
        take (nat bs) (drop (nat ((int i + 1) * bs)) (all_token_ids r'))"
      using Suc.prems blk [of "Suc i" r] blk [of "Suc i" r'] by (simp add: add.commute)
    with IH show ?case unfolding e take_add by simp
  }
qed

lemma hashes_nth:
  assumes "hashes_ok env bs r" "i < length (block_hashes r)" "0 < bs"
  shows "block_hashes r ! i = block_chain env bs r i" and "(int i + 1) * bs \<le> num_tokens r"
proof -
  have "block_hashes r ! i = map (block_chain env bs r) [0..<length (block_hashes r)] ! i"
    using assms(1) by (simp add: hashes_ok_def)
  then show "block_hashes r ! i = block_chain env bs r i" using assms(2) by simp
  have "int i + 1 \<le> int (length (block_hashes r))" using assms(2) by linarith
  then have "(int i + 1) * bs \<le> int (length (block_hashes r)) * bs"
    using assms(3) by (intro mult_right_mono) auto
  then show "(int i + 1) * bs \<le> num_tokens r" using assms(1) by (simp add: hashes_ok_def)
qed

section \<open>Coarser granularity\<close>

lemma merge_hashes_spec:
  assumes "\<forall>i\<in>set is. 0 \<le> i \<and> i < int (length hs)"
  shows "merge_hashes hs acc is = Inr (acc @ concat (map (\<lambda>i. hs ! nat i) is))"
  using assms
proof (induction "is" arbitrary: acc)
  case (Cons i "is")
  then have "py_index hs i = Inr (hs ! nat i)" by (auto simp: py_index_def)
  with Cons show ?case by simp
qed simp

lemma map_nth_upto:
  "0 \<le> a \<Longrightarrow> b \<le> int (length xs) \<Longrightarrow>
   map (\<lambda>i. xs ! nat i) [a..b - 1] = take (nat (b - a)) (drop (nat a) xs)"
proof (rule nth_equalityI)
  fix i assume "0 \<le> a" "b \<le> int (length xs)" "i < length (map (\<lambda>i. xs ! nat i) [a..b - 1])"
  then show "map (\<lambda>i. xs ! nat i) [a..b - 1] ! i = take (nat (b - a)) (drop (nat a) xs) ! i"
    by (simp add: nat_add_distrib)
qed simp

lemma get_value_at_spec:
  assumes "0 < scale" "0 \<le> idx" "idx < scaled_len hs scale"
  shows "get_value_at hs scale idx =
    Inr (concat (take (nat scale) (drop (nat (idx * scale)) hs)))"
proof -
  have len: "(idx + 1) * scale \<le> int (length hs)"
    using assms(3) le_div_iff_mult_le [OF assms(1), of "idx + 1" "int (length hs)"]
    by (simp add: scaled_len_def)
  then have b: "0 \<le> idx * scale" "idx * scale + scale \<le> int (length hs)"
    using assms by (auto simp: algebra_simps)
  then have i: "py_index hs (idx * scale) = Inr (hs ! nat (idx * scale))"
    using assms(1) by (auto simp: py_index_def)
  have up: "[idx * scale..idx * scale + scale - 1] = idx * scale # [idx * scale + 1..idx * scale + scale - 1]"
    using assms(1) by (simp add: upto_rec1)
  have "get_value_at hs scale idx =
      Inr (concat (map (\<lambda>i. hs ! nat i) [idx * scale..idx * scale + scale - 1]))"
    using b by (simp add: get_value_at_def Let_def i merge_hashes_spec up)
  also have "map (\<lambda>i. hs ! nat i) [idx * scale..idx * scale + scale - 1] =
      take (nat scale) (drop (nat (idx * scale)) hs)"
    using map_nth_upto [of "idx * scale" "idx * scale + scale" hs] b by simp
  finally show ?thesis .
qed

lemma group_length:
  assumes "0 < scale" "0 \<le> i" "i < int (length hs) div scale"
  shows "length (take (nat scale) (drop (nat (i * scale)) hs)) = nat scale"
proof -
  have "(i + 1) * scale \<le> int (length hs)"
    using le_div_iff_mult_le [OF assms(1), of "i + 1" "int (length hs)"] assms(3) by simp
  then have "i * scale + scale \<le> int (length hs)" "0 \<le> i * scale"
    using assms(1,2) by (auto simp: algebra_simps)
  then show ?thesis by (simp add: nat_le_iff)
qed

lemma map_res_Inr: "(\<And>x. x \<in> set xs \<Longrightarrow> f x = Inr (g x)) \<Longrightarrow> map_res f xs = Inr (map g xs)"
  by (induction xs) auto

section \<open>Concrete requests\<close>

definition image :: "string \<Rightarrow> int \<Rightarrow> mm_feature" where
  "image h off = \<lparr>modality = ''image'', mm_identifier = h, mm_offset = off, mm_length = 1, is_embed = None\<rparr>"

definition two_images :: "string \<Rightarrow> request" where
  "two_images h = (base_request ''r'' [1, 1, 1, 1, 9, 9])\<lparr>mm_features := [image h 4, image ''B'' 5]\<rparr>"

lemmas hash_eval = update_block_hashes_def append_output_token_ids_def request_block_hasher_def
  hasher_loop.simps generate_block_hash_extra_keys_def gen_mm_extra_hash_keys_def
  gen_lora_extra_hash_keys_def gen_prompt_embeds_extra_hash_keys_def num_tokens_def
  block_keys_at_def block_extra_keys_def mm_keys_in_def mm_overlaps_def mm_end_def salt_keys_def
  embed_keys_def

section \<open>Properties\<close>


text \<open>
  C22: hashing a request as its tokens arrive gives the hashes of hashing all its tokens at once,
  for every way the output is cut into steps, provided that every multi-modal input but the last
  lies in the full blocks of the prompt. The calls never fail.
\<close>

theorem incremental_hashing_matches_scratch:
  assumes "0 < bs" and "mm_wf (mm_features r)" and "prompt_embeds_per_block_hashes r = []"
    and "block_hashes r = []" and "mm_in_full_blocks bs r"
  shows "\<exists>r1 r2 r3. update_block_hashes (Some (env, bs)) r = Inr r1 \<and>
    fold_res (append_output_token_ids (Some (env, bs))) chunks r1 = Inr r2 \<and>
    update_block_hashes (Some (env, bs)) (with_tokens r (concat chunks)) = Inr r3 \<and>
    block_hashes r2 = block_hashes r3 \<and>
    int (length (block_hashes r2)) = num_tokens r2 div bs"
proof -
  have ok: "hashes_ok env bs (with_tokens r ts)" "mm_tail_hashed bs (with_tokens r ts)" for ts
    using assms by (simp_all add: hashes_ok_def num_tokens_def mm_tail_hashed_def)
  have ok0: "hashes_ok env bs r" "mm_tail_hashed bs r"
    using assms by (simp_all add: hashes_ok_def num_tokens_def mm_tail_hashed_def)
  obtain m r1 where r1: "update_block_hashes (Some (env, bs)) r = Inr r1"
    "r1 = r\<lparr>prompt_embeds_per_block_hashes := m, block_hashes := block_hashes r1\<rparr>" "hashed env bs r1"
    by (rule update_block_hashes_hashed [OF assms(1) ok0])
  have "mm_in_full_blocks bs r1"
    using assms(5) by (subst r1(2)) (simp add: mm_in_full_blocks_def num_tokens_def)
  from append_outputs_hashed [OF assms(1) r1(3) this, of chunks] obtain m2 r2 where
    r2: "fold_res (append_output_token_ids (Some (env, bs))) chunks r1 = Inr r2"
    "r2 = (with_tokens r1 (concat chunks))\<lparr>prompt_embeds_per_block_hashes := m2, block_hashes := block_hashes r2\<rparr>"
    "hashed env bs r2" by blast
  obtain m3 r3 where r3: "update_block_hashes (Some (env, bs)) (with_tokens r (concat chunks)) = Inr r3"
    "r3 = (with_tokens r (concat chunks))\<lparr>prompt_embeds_per_block_hashes := m3, block_hashes := block_hashes r3\<rparr>"
    "hashed env bs r3"
    by (rule update_block_hashes_hashed [OF assms(1) ok])
  have same: "r3 = r2\<lparr>prompt_embeds_per_block_hashes := m3, block_hashes := block_hashes r3\<rparr>"
    by (subst r3(2), subst r2(2), subst (1 2 3) r1(2)) simp
  have nt: "num_tokens r3 = num_tokens r2" by (subst same) (simp add: num_tokens_def)
  have ch: "block_chain env bs r3 = block_chain env bs r2" by (subst same) simp
  have "block_hashes r2 = block_hashes r3"
    using r2(3) r3(3) nt ch unfolding hashed_def hashes_ok_def by metis
  moreover have "int (length (block_hashes r2)) = num_tokens r2 div bs"
    using r2(3) assms(1) by (simp add: hashed_def num_tokens_def pos_imp_zdiv_nonneg_iff)
  ultimately show ?thesis using r1(1) r2(1) r3(1) by blast
qed


theorem incremental_hashing_matches_scratch_witness:
  "\<exists>r1 r2 r3. update_block_hashes (Some (unary_env, 2)) (base_request ''a'' [1, 2, 3]) = Inr r1 \<and>
    fold_res (append_output_token_ids (Some (unary_env, 2))) [[4], [5, 6, 7]] r1 = Inr r2 \<and>
    update_block_hashes (Some (unary_env, 2)) (with_tokens (base_request ''a'' [1, 2, 3]) [4, 5, 6, 7]) = Inr r3 \<and>
    block_hashes r2 = block_hashes r3 \<and> int (length (block_hashes r2)) = num_tokens r2 div 2"
  using incremental_hashing_matches_scratch [of 2 "base_request ''a'' [1, 2, 3]" unary_env
      "[[4], [5, 6, 7]]"]
  by (simp add: mm_wf_def mm_in_full_blocks_def)




text \<open>
  C25: a block hash and a group id are recovered from the packed key, packing succeeds exactly for
  the group ids that fit four bytes, and distinct pairs get distinct keys.
\<close>

theorem key_packing_roundtrip:
  "((\<exists>k. make_block_hash_with_group_id h g = Inr k) \<longleftrightarrow> 0 \<le> g \<and> g < 2 ^ 32) \<and>
   (\<forall>k. make_block_hash_with_group_id h g = Inr k \<longrightarrow>
      get_block_hash k = h \<and> get_group_id k = g \<and>
      (\<forall>h' g'. make_block_hash_with_group_id h' g' = Inr k \<longrightarrow> h' = h \<and> g' = g))"
proof (intro conjI allI impI)
  show "(\<exists>k. make_block_hash_with_group_id h g = Inr k) \<longleftrightarrow> 0 \<le> g \<and> g < 2 ^ 32"
    by (auto simp: make_block_hash_with_group_id_def to_bytes4_def)
next
  fix k assume k: "make_block_hash_with_group_id h g = Inr k"
  show "get_block_hash k = h" "get_group_id k = g" by (rule unpack_pack [OF k])+
  fix h' g' assume k': "make_block_hash_with_group_id h' g' = Inr k"
  show "h' = h" "g' = g" using pack_inj [OF k' k] by simp_all
qed

theorem key_packing_roundtrip_witness:
  "get_block_hash [1, 2, 3, 0, 0, 1, 4] = [1, 2, 3] \<and> get_group_id [1, 2, 3, 0, 0, 1, 4] = 260"
proof -
  have "make_block_hash_with_group_id [1, 2, 3] 260 = Inr [1, 2, 3, 0, 0, 1, 4]"
    by (simp add: make_block_hash_with_group_id_def to_bytes4_def)
  with key_packing_roundtrip [of "[1, 2, 3]" 260] show ?thesis by blast
qed

text \<open>
  At a coarser block size that is \<open>scale\<close> times the hashing block size, the hash of block
  \<open>i\<close> is the concatenation of its \<open>scale\<close> fine hashes, for every block that is full; when all fine
  hashes have one length, equal coarse hashes have equal fine hashes.
\<close>

lemma coarse_hashes_are_groups:
  assumes "0 < scale"
  shows "scaled_hashes hs scale = Inr (map (\<lambda>i. concat (take (nat scale) (drop (nat (i * scale)) hs)))
      [0..int (length hs) div scale - 1]) \<and>
    (\<forall>hs' n i j. (\<forall>h\<in>set hs \<union> set hs'. length h = n) \<and> 0 \<le> i \<and> i < int (length hs) div scale \<and>
      0 \<le> j \<and> j < int (length hs') div scale \<and> get_value_at hs scale i = get_value_at hs' scale j \<longrightarrow>
      take (nat scale) (drop (nat (i * scale)) hs) = take (nat scale) (drop (nat (j * scale)) hs'))"
proof (intro conjI allI impI)
  show "scaled_hashes hs scale = Inr (map (\<lambda>i. concat (take (nat scale) (drop (nat (i * scale)) hs)))
      [0..int (length hs) div scale - 1])"
    unfolding scaled_hashes_def scaled_len_def
    by (rule map_res_Inr) (rule get_value_at_spec [OF assms], auto simp: scaled_len_def)
next
  fix hs' n i j
  assume a: "(\<forall>h\<in>set hs \<union> set hs'. length h = n) \<and> 0 \<le> i \<and> i < int (length hs) div scale \<and>
      0 \<le> j \<and> j < int (length hs') div scale \<and> get_value_at hs scale i = get_value_at hs' scale j"
  let ?x = "take (nat scale) (drop (nat (i * scale)) hs)" and ?y = "take (nat scale) (drop (nat (j * scale)) hs')"
  have "concat ?x = concat ?y"
    using a get_value_at_spec [OF assms, of i hs] get_value_at_spec [OF assms, of j hs']
    by (simp add: scaled_len_def)
  moreover have "length ?x = length ?y" using a group_length [OF assms] by metis
  moreover have "\<forall>(u, v) \<in> set (zip ?x ?y). length u = length v"
  proof (rule ballI)
    fix p assume "p \<in> set (zip ?x ?y)"
    then have "fst p \<in> set ?x" "snd p \<in> set ?y"
      by (metis prod.collapse set_zip_leftD, metis prod.collapse set_zip_rightD)
    then have "fst p \<in> set hs" "snd p \<in> set hs'" by (meson in_set_takeD in_set_dropD)+
    then show "case p of (u, v) \<Rightarrow> length u = length v" using a by (auto simp: case_prod_beta)
  qed
  ultimately show "?x = ?y" by (rule concat_injective)
qed

end
