(* ===== verification/Block_Pool.thy ===== *)
theory Block_Pool
  imports Block_Map Block_Hash
begin

text \<open>
  The pool of KV-cache blocks: \<^verbatim>\<open>BlockPool\<close> of \<^verbatim>\<open>vllm/v1/core/block_pool.py\<close>. The record extends
  the free queue, whose store holds the block objects, by the hash table, the configuration and the
  event queue. Block \<open>i\<close> of \<^verbatim>\<open>self.blocks\<close> is \<open>Blk i\<close>. The metrics collector, which only observes,
  is left out.
\<close>

section \<open>State\<close>

datatype kv_event =
    BlockStored "external_block_hash list" "external_block_hash option" "int list" int
      "int option" "string option" "extra_key list option list option"
  | BlockRemoved "external_block_hash list"
  | AllBlocksCleared

record block_pool = "bytes free_queue" +
  num_gpu_blocks :: int
  enable_caching :: bool
  hash_block_size :: int
  cached_block_hash_to_block :: "bytes block_cache"
  null_block :: node
  enable_kv_cache_events :: bool
  use_int_hashes :: bool
  kv_event_queue :: "kv_event list"

abbreviation ident_in :: "block_pool \<Rightarrow> node \<Rightarrow> int" where
  "ident_in p b \<equiv> block_id (heap p b)"

definition fresh_heap :: "bytes heap" where
  "fresh_heap b = (case b of Blk i \<Rightarrow> KVCacheBlock (int i) | _ \<Rightarrow> KVCacheBlock (- 1))"

definition upd_block :: "node \<Rightarrow> (bytes kv_block \<Rightarrow> bytes kv_block) \<Rightarrow> block_pool \<Rightarrow> block_pool" where
  "upd_block b f p = p\<lparr>heap := (heap p)(b := f (heap p b))\<rparr>"

section \<open>Operations\<close>

definition BlockPool :: "int \<Rightarrow> bool \<Rightarrow> int \<Rightarrow> bool \<Rightarrow> bool \<Rightarrow> block_pool res" where
  "BlockPool n caching hbs events int_hashes =
     and_then (py_assert (n > 0)) (\<lambda>_.
       let q = init_queue (map Blk [0..<nat n]) fresh_heap;
           p = \<lparr>heap = heap q, num_free_blocks = num_free_blocks q, num_gpu_blocks = n,
                enable_caching = caching, hash_block_size = hbs, cached_block_hash_to_block = [],
                null_block = Head, enable_kv_cache_events = events, use_int_hashes = int_hashes,
                kv_event_queue = []\<rparr>
       in and_then (popleft p) (\<lambda>(b, p').
            Inr (upd_block b (\<lambda>k. k\<lparr>is_null := True\<rparr>) (p'\<lparr>null_block := b\<rparr>))))"

fun get_cached_block :: "block_pool \<Rightarrow> bytes \<Rightarrow> int list \<Rightarrow> node list option res" where
  "get_cached_block p h [] = Inr (Some [])"
| "get_cached_block p h (g # gs) =
     and_then (make_block_hash_with_group_id h g) (\<lambda>k.
     and_then (get_one_block (cached_block_hash_to_block p) k) (\<lambda>r.
       case r of
         None \<Rightarrow> Inr None
       | Some b \<Rightarrow> and_then (get_cached_block p h gs) (\<lambda>rest. Inr (map_option (Cons b) rest))))"

text \<open>
  The hashes of a request at the granularity of a group, as the list \<^verbatim>\<open>block_hashes\<close> of
  \<^verbatim>\<open>cache_full_blocks\<close>; both slices \<^verbatim>\<open>[n:]\<close> and single accesses go through it.
\<close>

datatype hash_list = Fine "bytes list" | Coarse "bytes list" int

definition hash_list_at :: "hash_list \<Rightarrow> int \<Rightarrow> bytes res" where
  "hash_list_at hl i = (case hl of Fine hs \<Rightarrow> py_index hs i | Coarse hs scale \<Rightarrow> get_value_at hs scale i)"

definition hash_list_from :: "hash_list \<Rightarrow> int \<Rightarrow> bytes list res" where
  "hash_list_from hl n =
     (case hl of
        Fine hs \<Rightarrow> Inr (py_from hs n)
      | Coarse hs scale \<Rightarrow>
          let len = scaled_len hs scale;
              start = (if n < 0 then max 0 (len + n) else min n len)
          in map_res (get_value_at hs scale) [start..len - 1])"

definition hash_list_len :: "hash_list \<Rightarrow> int" where
  "hash_list_len hl = (case hl of Fine hs \<Rightarrow> int (length hs) | Coarse hs scale \<Rightarrow> scaled_len hs scale)"

definition group_hashes :: "int \<Rightarrow> int \<Rightarrow> bytes list \<Rightarrow> hash_list res" where
  "group_hashes hash_bs bs hs =
     (if bs = hash_bs then Inr (Fine hs)
      else and_then (scale_factor hash_bs bs) (\<lambda>scale. Inr (Coarse hs scale)))"

text \<open>The loop that hashes and registers the new full blocks, from position \<open>i\<close> on.\<close>

fun cache_loop :: "int \<Rightarrow> bytes list \<Rightarrow> nat \<Rightarrow> node list \<Rightarrow> block_pool \<Rightarrow> (bytes list \<times> block_pool) res" where
  "cache_loop g new_block_hashes i [] p = Inr ([], p)"
| "cache_loop g new_block_hashes i (b # bs) p =
     (if is_null (heap p b) then cache_loop g new_block_hashes (Suc i) bs p
      else and_then (py_assert (block_hash (heap p b) = None)) (\<lambda>_.
        and_then (py_index new_block_hashes (int i)) (\<lambda>h.
        and_then (make_block_hash_with_group_id h g) (\<lambda>k.
        and_then (set_block_hash k (heap p b)) (\<lambda>blk.
          let p' = p\<lparr>heap := (heap p)(b := blk),
                     cached_block_hash_to_block :=
                       insert_block (ident_in p) k b (cached_block_hash_to_block p)\<rparr>
          in and_then (cache_loop g new_block_hashes (Suc i) bs p')
               (\<lambda>(hs, p''). Inr (h # hs, p'')))))))"

text \<open>The extra keys reported with the event, one entry per block that is not null.\<close>

fun event_keys ::
  "hash_env \<Rightarrow> int \<Rightarrow> node list \<Rightarrow> block_pool \<Rightarrow> nat list \<Rightarrow> int \<Rightarrow> request \<Rightarrow>
   (extra_key list option list \<times> request) res" where
  "event_keys env bs blocks p [] mm_idx r = Inr ([], r)"
| "event_keys env bs blocks p (i # is) mm_idx r =
     and_then (py_index blocks (int i)) (\<lambda>b.
       if is_null (heap p b) then event_keys env bs blocks p is mm_idx r
       else and_then (generate_block_hash_extra_keys env r (int i * bs) (int i * bs + bs) mm_idx)
         (\<lambda>(ek, mm_idx', r'). and_then (event_keys env bs blocks p is mm_idx' r')
            (\<lambda>(eks, r''). Inr (ek # eks, r''))))"

definition cache_full_blocks ::
  "hash_env \<Rightarrow> request \<Rightarrow> node list \<Rightarrow> int \<Rightarrow> int \<Rightarrow> int \<Rightarrow> int \<Rightarrow> block_pool \<Rightarrow>
   (block_pool \<times> request) res" where
  "cache_full_blocks env r blocks num_cached_blocks num_full_blocks bs g p =
     (if num_cached_blocks \<ge> num_full_blocks then Inr (p, r)
      else let new_full_blocks = py_slice blocks num_cached_blocks num_full_blocks
      in and_then (py_assert (int (length (block_hashes r)) \<ge> num_full_blocks)) (\<lambda>_.
         and_then (group_hashes (hash_block_size p) bs (block_hashes r)) (\<lambda>hl.
         and_then (hash_list_from hl num_cached_blocks) (\<lambda>new_block_hashes.
         and_then (cache_loop g new_block_hashes 0 new_full_blocks p) (\<lambda>(new_hashes, p').
           if \<not> enable_kv_cache_events p then Inr (p', r)
           else and_then
             (if num_cached_blocks = 0 then Inr None
              else and_then (hash_list_at hl (num_cached_blocks - 1))
                (\<lambda>h. Inr (Some (maybe_convert_block_hash (use_int_hashes p) h)))) (\<lambda>parent.
             and_then (event_keys env bs blocks p' [nat num_cached_blocks..<nat num_full_blocks] 0 r)
               (\<lambda>(eks, r').
                 Inr (p'\<lparr>kv_event_queue := kv_event_queue p' @
                   [BlockStored (map (maybe_convert_block_hash (use_int_hashes p)) new_hashes) parent
                     (py_slice (all_token_ids r) (num_cached_blocks * bs) (num_full_blocks * bs)) bs
                     (map_option lora_int_id (lora_request r)) (map_option lora_name (lora_request r))
                     (if eks = [] then None else Some eks)]\<rparr>, r')))))))) "

definition maybe_evict_cached_block :: "node \<Rightarrow> block_pool \<Rightarrow> bool \<times> block_pool" where
  "maybe_evict_cached_block b p =
     (case block_hash (heap p b) of
        None \<Rightarrow> (False, p)
      | Some k \<Rightarrow>
          (case pop_block (ident_in p) k (ident_in p b) (cached_block_hash_to_block p) of
             (None, c') \<Rightarrow> (False, p\<lparr>cached_block_hash_to_block := c'\<rparr>)
           | (Some _, c') \<Rightarrow>
               let p' = upd_block b reset_hash (p\<lparr>cached_block_hash_to_block := c'\<rparr>)
               in (True,
                   if enable_kv_cache_events p
                   then p'\<lparr>kv_event_queue := kv_event_queue p' @
                     [BlockRemoved [maybe_convert_block_hash (use_int_hashes p) (get_block_hash k)]]\<rparr>
                   else p')))"

definition take_block :: "node \<Rightarrow> block_pool \<Rightarrow> block_pool res" where
  "take_block b p =
     (let p1 = (if enable_caching p then snd (maybe_evict_cached_block b p) else p)
      in and_then (py_assert (ref_cnt (heap p1 b) = 0))
           (\<lambda>_. Inr (upd_block b (\<lambda>k. k\<lparr>ref_cnt := ref_cnt k + 1\<rparr>) p1)))"

definition get_num_free_blocks :: "block_pool \<Rightarrow> int" where
  "get_num_free_blocks p = num_free_blocks p"

definition get_new_blocks :: "int \<Rightarrow> block_pool \<Rightarrow> (node list \<times> block_pool) res" where
  "get_new_blocks num_blocks p =
     (if num_blocks > get_num_free_blocks p then Inl ValueError
      else and_then (popleft_n num_blocks p) (\<lambda>(ret, p').
             and_then (fold_res take_block ret p') (\<lambda>p''. Inr (ret, p''))))"

definition touch_block :: "node \<Rightarrow> block_pool \<Rightarrow> block_pool res" where
  "touch_block b p =
     and_then (if ref_cnt (heap p b) = 0 \<and> \<not> is_null (heap p b) then remove b p else Inr p)
       (\<lambda>p'. Inr (upd_block b (\<lambda>k. k\<lparr>ref_cnt := ref_cnt k + 1\<rparr>) p'))"

definition touch :: "node list \<Rightarrow> block_pool \<Rightarrow> block_pool res" where
  "touch blocks p = fold_res touch_block blocks p"

definition free_blocks :: "node list \<Rightarrow> block_pool \<Rightarrow> block_pool res" where
  "free_blocks ordered_blocks p =
     (let p' = fold (\<lambda>b. upd_block b (\<lambda>k. k\<lparr>ref_cnt := ref_cnt k - 1\<rparr>)) ordered_blocks p
      in append_n (filter (\<lambda>b. ref_cnt (heap p' b) = 0 \<and> \<not> is_null (heap p' b)) ordered_blocks) p')"

definition evict_block_id :: "int \<Rightarrow> block_pool \<Rightarrow> block_pool res" where
  "evict_block_id bid p =
     and_then (py_assert (bid < num_gpu_blocks p)) (\<lambda>_.
     and_then (py_index (map Blk [0..<nat (num_gpu_blocks p)]) bid) (\<lambda>b.
       Inr (snd (maybe_evict_cached_block b p))))"

text \<open>The set of ids is iterated in some order, given here as a list.\<close>

definition evict_blocks :: "int list \<Rightarrow> block_pool \<Rightarrow> block_pool res" where
  "evict_blocks block_ids p = fold_res evict_block_id block_ids p"

definition reset_prefix_cache :: "block_pool \<Rightarrow> bool \<times> block_pool" where
  "reset_prefix_cache p =
     (let num_used_blocks = num_gpu_blocks p - get_num_free_blocks p
      in if num_used_blocks \<noteq> 1 then (False, p)
         else let p1 = p\<lparr>cached_block_hash_to_block := []\<rparr>;
                  p2 = fold (\<lambda>i. upd_block (Blk i) reset_hash) [0..<nat (num_gpu_blocks p)] p1
              in (True, if enable_kv_cache_events p
                        then p2\<lparr>kv_event_queue := kv_event_queue p2 @ [AllBlocksCleared]\<rparr> else p2))"

definition get_usage :: "block_pool \<Rightarrow> rat" where
  "get_usage p =
     (let total_gpu_blocks = num_gpu_blocks p - 1
      in if total_gpu_blocks = 0 then 0
         else 1 - of_int (get_num_free_blocks p) / of_int total_gpu_blocks)"

definition take_events :: "block_pool \<Rightarrow> kv_event list \<times> block_pool" where
  "take_events p =
     (if \<not> enable_kv_cache_events p then ([], p) else (kv_event_queue p, p\<lparr>kv_event_queue := []\<rparr>))"

end
