(* ===== verification/Managers.thy ===== *)
theory Managers
  imports Block_Pool
begin

text \<open>
  The managers of one KV-cache group each: \<^verbatim>\<open>vllm/v1/core/single_type_kv_cache_manager.py\<close>. One
  record holds the attributes of the base class and of the subclasses; the class of a manager is
  read off its specification, and the methods that subclasses override dispatch on it. Managers
  share the block pool, which every operation threads explicitly.
\<close>

section \<open>Specifications and state\<close>

datatype kv_cache_spec =
    FullAttentionSpec int
  | MLAAttentionSpec int
  | SlidingWindowSpec int int
  | ChunkedLocalAttentionSpec int int
  | MambaSpec int string int
  | CrossAttentionSpec int
  | SinkFullAttentionSpec int "int option"

fun spec_block_size :: "kv_cache_spec \<Rightarrow> int" where
  "spec_block_size (FullAttentionSpec b) = b"
| "spec_block_size (MLAAttentionSpec b) = b"
| "spec_block_size (SlidingWindowSpec b w) = b"
| "spec_block_size (ChunkedLocalAttentionSpec b c) = b"
| "spec_block_size (MambaSpec b mode n) = b"
| "spec_block_size (CrossAttentionSpec b) = b"
| "spec_block_size (SinkFullAttentionSpec b s) = b"

record manager =
  m_spec :: kv_cache_spec
  m_block_size :: int
  m_enable_caching :: bool
  m_group_id :: int
  new_block_ids :: "int list"
  req_to_blocks :: "(string \<times> node list) list"
  num_cached_block :: "(string \<times> int) list"
  cached_blocks_this_step :: "bytes set"
  last_state_block_idx :: "(string \<times> int) list"
  allocated_block_reqs :: "string set"
  sink_blocks :: "node list"

abbreviation blocks_of :: "manager \<Rightarrow> string \<Rightarrow> node list" where
  "blocks_of m rid \<equiv> dict_get (req_to_blocks m) rid []"

abbreviation set_blocks :: "string \<Rightarrow> node list \<Rightarrow> manager \<Rightarrow> manager" where
  "set_blocks rid bs m \<equiv> m\<lparr>req_to_blocks := AList.update rid bs (req_to_blocks m)\<rparr>"

text \<open>Reading \<^verbatim>\<open>self.req_to_blocks[rid]\<close>, a \<^verbatim>\<open>defaultdict\<close>, creates the entry.\<close>

definition default_entry :: "string \<Rightarrow> manager \<Rightarrow> manager" where
  "default_entry rid m =
     (if rid \<in> fst ` set (req_to_blocks m) then m else m\<lparr>req_to_blocks := req_to_blocks m @ [(rid, [])]\<rparr>)"

definition is_mamba :: "manager \<Rightarrow> bool" where
  "is_mamba m = (case m_spec m of MambaSpec b mode n \<Rightarrow> True | _ \<Rightarrow> False)"

definition mamba_cache_mode :: "manager \<Rightarrow> string" where
  "mamba_cache_mode m = (case m_spec m of MambaSpec b mode n \<Rightarrow> mode | _ \<Rightarrow> [])"

definition num_speculative_blocks :: "manager \<Rightarrow> int" where
  "num_speculative_blocks m = (case m_spec m of MambaSpec b mode n \<Rightarrow> n | _ \<Rightarrow> 0)"

definition is_cross :: "manager \<Rightarrow> bool" where
  "is_cross m = (case m_spec m of CrossAttentionSpec b \<Rightarrow> True | _ \<Rightarrow> False)"

definition is_full_spec :: "manager \<Rightarrow> bool" where
  "is_full_spec m = (case m_spec m of FullAttentionSpec b \<Rightarrow> True | _ \<Rightarrow> False)"

definition SingleTypeKVCacheManager ::
  "kv_cache_spec \<Rightarrow> bool \<Rightarrow> int \<Rightarrow> int \<Rightarrow> int \<Rightarrow> manager" where
  "SingleTypeKVCacheManager spec caching gid dcp pcp =
     \<lparr>m_spec = spec,
      m_block_size = (if dcp * pcp > 1 then spec_block_size spec * (dcp * pcp) else spec_block_size spec),
      m_enable_caching = caching, m_group_id = gid, new_block_ids = [], req_to_blocks = [],
      num_cached_block = [], cached_blocks_this_step = {}, last_state_block_idx = [],
      allocated_block_reqs = {}, sink_blocks = []\<rparr>"

text \<open>The factory; the constructor of the sink manager takes its blocks off the free queue.\<close>

definition get_manager_for_kv_cache_spec ::
  "kv_cache_spec \<Rightarrow> bool \<Rightarrow> int \<Rightarrow> int \<Rightarrow> int \<Rightarrow> block_pool \<Rightarrow> (manager \<times> block_pool) res" where
  "get_manager_for_kv_cache_spec spec caching gid dcp pcp p =
     (let m = SingleTypeKVCacheManager spec caching gid dcp pcp
      in case spec of
           SinkFullAttentionSpec b sink_len \<Rightarrow>
             and_then (of_option AssertionError sink_len) (\<lambda>sl.
             and_then (py_assert (sl > 0 \<and> sl mod m_block_size m = 0)) (\<lambda>_.
             and_then (popleft_n (sl div m_block_size m) p) (\<lambda>(bs, p').
               Inr (m\<lparr>sink_blocks := bs\<rparr>, p'))))
         | _ \<Rightarrow> Inr (m, p))"

definition get_num_evictable_blocks :: "block_pool \<Rightarrow> node list \<Rightarrow> int" where
  "get_num_evictable_blocks p blocks =
     int (length (filter (\<lambda>b. ref_cnt (heap p b) = 0 \<and> \<not> is_null (heap p b)) blocks))"

definition get_num_skipped_tokens :: "manager \<Rightarrow> int \<Rightarrow> int" where
  "get_num_skipped_tokens m ncomp =
     (case m_spec m of
        SlidingWindowSpec b w \<Rightarrow> max 0 (ncomp - w + 1)
      | ChunkedLocalAttentionSpec b c \<Rightarrow> ncomp div c * c
      | MambaSpec b mode n \<Rightarrow> ncomp - 1
      | _ \<Rightarrow> 0)"

section \<open>Counting the blocks to allocate\<close>

definition base_get_num_blocks_to_allocate ::
  "block_pool \<Rightarrow> manager \<Rightarrow> string \<Rightarrow> int \<Rightarrow> node list \<Rightarrow> int \<Rightarrow> int res" where
  "base_get_num_blocks_to_allocate p m rid ntok new_computed_blocks total_computed_tokens =
     (let num_required_blocks = cdiv ntok (m_block_size m);
          num_req_blocks = int (length (blocks_of m rid))
      in if rid \<in> fst ` set (num_cached_block m)
         then and_then (py_assert (new_computed_blocks = []))
                (\<lambda>_. Inr (max (num_required_blocks - num_req_blocks) 0))
         else let num_skipped_tokens = get_num_skipped_tokens m total_computed_tokens;
                  num_local_computed_blocks = int (length new_computed_blocks) + num_req_blocks;
                  num_skipped_blocks = num_skipped_tokens div m_block_size m;
                  num_new_blocks =
                    max (num_required_blocks - max num_skipped_blocks num_local_computed_blocks) 0;
                  num_skipped_new_computed_blocks = max 0 (num_skipped_blocks - num_req_blocks);
                  num_evictable_blocks =
                    get_num_evictable_blocks p (py_from new_computed_blocks num_skipped_new_computed_blocks)
              in Inr (num_new_blocks + num_evictable_blocks))"

definition mamba_get_num_blocks_to_allocate ::
  "block_pool \<Rightarrow> manager \<Rightarrow> string \<Rightarrow> int \<Rightarrow> node list \<Rightarrow> int \<Rightarrow> int \<Rightarrow> (int \<times> manager) res" where
  "mamba_get_num_blocks_to_allocate p m rid ntok new_computed_blocks total_computed_tokens
       num_tokens_main_model =
     (if new_computed_blocks \<noteq> [] \<and>
         block_hash (heap p (last new_computed_blocks)) \<in> Some ` cached_blocks_this_step m
      then Inr (num_gpu_blocks p + 1, m)
      else if mamba_cache_mode m \<noteq> ''align''
      then and_then (base_get_num_blocks_to_allocate p m rid
               (if num_speculative_blocks m > 0
                then ntok + spec_block_size (m_spec m) * num_speculative_blocks m else ntok)
               new_computed_blocks total_computed_tokens)
             (\<lambda>n. Inr (n, m))
      else let num_required_blocks =
                 cdiv num_tokens_main_model (m_block_size m) + num_speculative_blocks m;
               m' = default_entry rid m;
               num_new_blocks = num_required_blocks - int (length new_computed_blocks) -
                 int (length (blocks_of m' rid));
               num_new_blocks' =
                 (if num_new_blocks > 0
                  then if rid \<in> allocated_block_reqs m then 1 else 1 + num_speculative_blocks m
                  else num_new_blocks)
           in Inr (num_new_blocks' + get_num_evictable_blocks p new_computed_blocks, m'))"

definition get_num_blocks_to_allocate ::
  "block_pool \<Rightarrow> manager \<Rightarrow> string \<Rightarrow> int \<Rightarrow> node list \<Rightarrow> int \<Rightarrow> int \<Rightarrow> (int \<times> manager) res" where
  "get_num_blocks_to_allocate p m rid ntok new_computed_blocks total_computed_tokens
       num_tokens_main_model =
     (if is_mamba m
      then mamba_get_num_blocks_to_allocate p m rid ntok new_computed_blocks
             total_computed_tokens num_tokens_main_model
      else and_then (base_get_num_blocks_to_allocate p m rid ntok new_computed_blocks
               total_computed_tokens) (\<lambda>n. Inr (n, m)))"

section \<open>Allocation\<close>

definition base_allocate_new_computed_blocks ::
  "string \<Rightarrow> node list \<Rightarrow> int \<Rightarrow> int \<Rightarrow> manager \<Rightarrow> block_pool \<Rightarrow> (manager \<times> block_pool) res" where
  "base_allocate_new_computed_blocks rid new_computed_blocks num_local
       num_external m p =
     (if rid \<in> fst ` set (num_cached_block m)
      then and_then (py_assert (new_computed_blocks = [])) (\<lambda>_. Inr (m, p))
      else let m0 = default_entry rid m in
        and_then (py_assert (blocks_of m0 rid = [])) (\<lambda>_.
          let total = num_local + num_external;
              num_skipped_tokens = get_num_skipped_tokens m total;
              num_skipped_blocks = num_skipped_tokens div m_block_size m;
              computed = (if num_skipped_blocks > 0 then py_from new_computed_blocks num_skipped_blocks
                          else new_computed_blocks);
              ext = (if num_skipped_blocks > 0
                     then min (total - num_skipped_tokens) num_external
                     else num_external)
          in and_then (if m_enable_caching m then touch computed p
                       else and_then (py_assert (computed = [])) (\<lambda>_. Inr p)) (\<lambda>p1.
             let req_blocks = replicate (nat num_skipped_blocks) (null_block p) @ computed;
                 m1 = (set_blocks rid req_blocks m0)
                   \<lparr>num_cached_block := AList.update rid (int (length req_blocks)) (num_cached_block m)\<rparr>
             in if ext > 0
                then and_then (get_new_blocks (cdiv total (m_block_size m) - int (length req_blocks)) p1)
                  (\<lambda>(allocated, p2).
                     let m2 = set_blocks rid (req_blocks @ allocated) m1
                     in Inr (if is_full_spec m
                             then m2\<lparr>new_block_ids := new_block_ids m2 @ map (ident_in p2) allocated\<rparr>
                             else m2, p2))
                else Inr (m1, p1))))"

definition allocate_new_computed_blocks ::
  "string \<Rightarrow> node list \<Rightarrow> int \<Rightarrow> int \<Rightarrow> manager \<Rightarrow> block_pool \<Rightarrow> (manager \<times> block_pool) res" where
  "allocate_new_computed_blocks rid new_computed_blocks num_local num_external m p =
     (if is_cross m then and_then (py_assert (new_computed_blocks = [])) (\<lambda>_. Inr (m, p))
      else base_allocate_new_computed_blocks rid new_computed_blocks num_local num_external m p)"

definition base_allocate_new_blocks ::
  "string \<Rightarrow> int \<Rightarrow> manager \<Rightarrow> block_pool \<Rightarrow> (node list \<times> manager \<times> block_pool) res" where
  "base_allocate_new_blocks rid ntok m p =
     (let m0 = default_entry rid m;
          req_blocks = blocks_of m0 rid;
          num_required_blocks = cdiv ntok (m_block_size m);
          num_new_blocks = num_required_blocks - int (length req_blocks)
      in if num_new_blocks \<le> 0 then Inr ([], m0, p)
         else and_then (get_new_blocks num_new_blocks p) (\<lambda>(new_blocks, p').
           let m1 = set_blocks rid (req_blocks @ new_blocks) m0
           in Inr (new_blocks,
                   if is_full_spec m
                   then m1\<lparr>new_block_ids := new_block_ids m1 @ map (ident_in p') new_blocks\<rparr> else m1,
                   p')))"

text \<open>The loop that moves the speculative blocks of the previous step to the end.\<close>

fun reuse_speculative :: "node \<Rightarrow> int \<Rightarrow> int list \<Rightarrow> node list \<Rightarrow> node list res" where
  "reuse_speculative nb num_skipped [] blocks = Inr blocks"
| "reuse_speculative nb num_skipped (i # rest) blocks =
     (if i < num_skipped
      then and_then (py_index blocks i) (\<lambda>b.
             let blocks1 = blocks @ [b];
                 j = (if i < 0 then nat (int (length blocks1) + i) else nat i)
             in reuse_speculative nb num_skipped rest (blocks1[j := nb]))
      else Inr blocks)"

definition mamba_allocate_new_blocks ::
  "string \<Rightarrow> int \<Rightarrow> int \<Rightarrow> manager \<Rightarrow> block_pool \<Rightarrow> (node list \<times> manager \<times> block_pool) res" where
  "mamba_allocate_new_blocks rid ntok num_tokens_main_model m p =
     (if mamba_cache_mode m \<noteq> ''align''
      then base_allocate_new_blocks rid
             (if num_speculative_blocks m > 0
              then ntok + m_block_size m * num_speculative_blocks m else ntok) m p
      else let m0 = default_entry rid m;
               req_blocks = blocks_of m0 rid;
               prev_block_len = int (length req_blocks);
               nspec = num_speculative_blocks m;
               num_required_blocks = cdiv num_tokens_main_model (m_block_size m) + nspec
           in if num_required_blocks = prev_block_len then Inr ([], m0, p)
              else and_then (py_assert (num_required_blocks > prev_block_len)) (\<lambda>_.
                let blocks_allocated = rid \<in> allocated_block_reqs m;
                    m1 = (if blocks_allocated
                          then m0\<lparr>last_state_block_idx :=
                            AList.update rid (prev_block_len - 1 - nspec) (last_state_block_idx m)\<rparr>
                          else if prev_block_len > 0
                          then m0\<lparr>last_state_block_idx :=
                            AList.update rid (prev_block_len - 1) (last_state_block_idx m)\<rparr>
                          else m0);
                    num_skipped_blocks = num_required_blocks - nspec - 1;
                    blocks1 = (if prev_block_len < num_skipped_blocks
                               then req_blocks @ replicate (nat (num_skipped_blocks - prev_block_len)) (null_block p)
                               else req_blocks)
                in and_then (if blocks_allocated
                             then reuse_speculative (null_block p) num_skipped_blocks
                                    [prev_block_len - nspec..prev_block_len - 1] blocks1
                             else Inr blocks1) (\<lambda>blocks2.
                   let num_new_blocks = num_required_blocks - int (length blocks2)
                   in and_then (py_assert (num_new_blocks \<le> (if blocks_allocated then 1 else nspec + 1))) (\<lambda>_.
                      and_then (get_new_blocks num_new_blocks p) (\<lambda>(new_blocks, p').
                        let blocks3 = blocks2 @ new_blocks
                        in Inr (py_from blocks3 prev_block_len,
                                (set_blocks rid blocks3 m1)
                                  \<lparr>allocated_block_reqs := insert rid (allocated_block_reqs m)\<rparr>,
                                p'))))))"

definition allocate_new_blocks ::
  "string \<Rightarrow> int \<Rightarrow> int \<Rightarrow> manager \<Rightarrow> block_pool \<Rightarrow> (node list \<times> manager \<times> block_pool) res" where
  "allocate_new_blocks rid ntok num_tokens_main_model m p =
     (if is_mamba m then mamba_allocate_new_blocks rid ntok num_tokens_main_model m p
      else base_allocate_new_blocks rid ntok m p)"

definition take_new_block_ids :: "manager \<Rightarrow> int list \<times> manager" where
  "take_new_block_ids m = (new_block_ids m, m\<lparr>new_block_ids := []\<rparr>)"

section \<open>Caching and freeing\<close>

definition base_cache_blocks ::
  "hash_env \<Rightarrow> request \<Rightarrow> int \<Rightarrow> manager \<Rightarrow> block_pool \<Rightarrow> (manager \<times> block_pool \<times> request) res" where
  "base_cache_blocks env r ntok m p =
     (let num_cached_blocks = dict_get (num_cached_block m) (request_id r) 0;
          num_full_blocks = ntok div m_block_size m
      in if num_cached_blocks \<ge> num_full_blocks then Inr (m, p, r)
         else let m0 = default_entry (request_id r) m in
           and_then (cache_full_blocks env r (blocks_of m0 (request_id r)) num_cached_blocks
               num_full_blocks (m_block_size m) (m_group_id m) p) (\<lambda>(p', r').
             Inr (m0\<lparr>num_cached_block := AList.update (request_id r) num_full_blocks (num_cached_block m)\<rparr>,
                  p', r')))"

fun record_cached :: "block_pool \<Rightarrow> node list \<Rightarrow> bytes set \<Rightarrow> bytes set res" where
  "record_cached p [] S = Inr S"
| "record_cached p (b # bs) S =
     (if is_null (heap p b) then record_cached p bs S
      else and_then (of_option AssertionError (block_hash (heap p b)))
             (\<lambda>h. record_cached p bs (insert h S)))"

definition mamba_cache_blocks ::
  "hash_env \<Rightarrow> request \<Rightarrow> int \<Rightarrow> manager \<Rightarrow> block_pool \<Rightarrow> (manager \<times> block_pool \<times> request) res" where
  "mamba_cache_blocks env r ntok m p =
     (let before = dict_get (num_cached_block m) (request_id r) 0
      in and_then (base_cache_blocks env r ntok m p) (\<lambda>(m1, p1, r1).
         let after = dict_get (num_cached_block m1) (request_id r) 0
         in if after > before
            then and_then (record_cached p1 (py_slice (blocks_of m1 (request_id r)) before after)
                     (cached_blocks_this_step m1))
                   (\<lambda>S. Inr (m1\<lparr>cached_blocks_this_step := S\<rparr>, p1, r1))
            else Inr (m1, p1, r1)))"

definition cache_blocks ::
  "hash_env \<Rightarrow> request \<Rightarrow> int \<Rightarrow> manager \<Rightarrow> block_pool \<Rightarrow> (manager \<times> block_pool \<times> request) res" where
  "cache_blocks env r ntok m p =
     (if is_cross m then Inl ValueError
      else if is_mamba m then mamba_cache_blocks env r ntok m p
      else base_cache_blocks env r ntok m p)"

definition base_free :: "string \<Rightarrow> manager \<Rightarrow> block_pool \<Rightarrow> (manager \<times> block_pool) res" where
  "base_free rid m p =
     and_then (free_blocks (rev (blocks_of m rid)) p) (\<lambda>p'.
       Inr (m\<lparr>req_to_blocks := AList.delete rid (req_to_blocks m),
              num_cached_block := AList.delete rid (num_cached_block m)\<rparr>, p'))"

definition free :: "string \<Rightarrow> manager \<Rightarrow> block_pool \<Rightarrow> (manager \<times> block_pool) res" where
  "free rid m p =
     base_free rid
       (if is_mamba m \<and> mamba_cache_mode m = ''align''
        then m\<lparr>allocated_block_reqs := allocated_block_reqs m - {rid},
               last_state_block_idx := AList.delete rid (last_state_block_idx m)\<rparr>
        else m) p"

text \<open>
  The loop of \<^verbatim>\<open>remove_skipped_blocks\<close>, from index \<open>k - 1\<close> down, stopping at a null block: the
  blocks to free, and the list with null blocks in their place.
\<close>

fun skip_loop :: "node \<Rightarrow> nat \<Rightarrow> node list \<Rightarrow> node list \<times> node list" where
  "skip_loop nb 0 blocks = ([], blocks)"
| "skip_loop nb (Suc i) blocks =
     (if blocks ! i = nb then ([], blocks)
      else let (removed, blocks') = skip_loop nb i (blocks[i := nb]) in (blocks ! i # removed, blocks'))"

definition base_remove_skipped_blocks ::
  "string \<Rightarrow> int \<Rightarrow> manager \<Rightarrow> block_pool \<Rightarrow> (manager \<times> block_pool) res" where
  "base_remove_skipped_blocks rid total_computed_tokens m p =
     (let num_skipped_tokens = get_num_skipped_tokens m total_computed_tokens
      in if num_skipped_tokens \<le> 0 then Inr (m, p)
         else let m0 = default_entry rid m;
                  blocks = blocks_of m0 rid;
                  num_skipped_blocks = min (num_skipped_tokens div m_block_size m) (int (length blocks));
                  (removed_blocks, blocks') = skip_loop (null_block p) (nat num_skipped_blocks) blocks
              in and_then (free_blocks removed_blocks p) (\<lambda>p'. Inr (set_blocks rid blocks' m0, p')))"

definition mamba_remove_skipped_blocks ::
  "string \<Rightarrow> int \<Rightarrow> manager \<Rightarrow> block_pool \<Rightarrow> (manager \<times> block_pool) res" where
  "mamba_remove_skipped_blocks rid ncomp m p =
     (let n = max 0 (ncomp - num_speculative_blocks m)
      in and_then (base_remove_skipped_blocks rid n m p) (\<lambda>(m1, p1).
         if mamba_cache_mode m = ''align''
         then case map_of (last_state_block_idx m1) rid of
                None \<Rightarrow> Inr (m1, p1)
              | Some idx \<Rightarrow>
                  if idx < cdiv n (m_block_size m) - 1
                  then let m2 = default_entry rid m1 in
                    and_then (py_index (blocks_of m2 rid) idx) (\<lambda>b.
                      if b \<noteq> null_block p
                      then and_then (free_blocks [b] p1) (\<lambda>p2.
                        let bs = blocks_of m2 rid;
                            j = (if idx < 0 then nat (int (length bs) + idx) else nat idx)
                        in Inr (set_blocks rid (bs[j := null_block p]) m2, p2))
                      else Inr (m2, p1))
                  else Inr (m1, p1)
         else Inr (m1, p1)))"

definition remove_skipped_blocks ::
  "string \<Rightarrow> int \<Rightarrow> manager \<Rightarrow> block_pool \<Rightarrow> (manager \<times> block_pool) res" where
  "remove_skipped_blocks rid total_computed_tokens m p =
     (if is_mamba m then mamba_remove_skipped_blocks rid total_computed_tokens m p
      else base_remove_skipped_blocks rid total_computed_tokens m p)"

definition new_step_starts :: "manager \<Rightarrow> manager" where
  "new_step_starts m = (if is_mamba m then m\<lparr>cached_blocks_this_step := {}\<rparr> else m)"

text \<open>The leading blocks of a running request that every request with blocks shares.\<close>

definition get_num_common_prefix_blocks :: "block_pool \<Rightarrow> manager \<Rightarrow> string \<Rightarrow> int \<times> manager" where
  "get_num_common_prefix_blocks p m rid =
     (case m_spec m of
        FullAttentionSpec b \<Rightarrow>
          let m0 = default_entry rid m
          in (int (length (takeWhile (\<lambda>b. ref_cnt (heap p b) = int (length (req_to_blocks m0))) (blocks_of m0 rid))), m0)
      | MLAAttentionSpec b \<Rightarrow>
          let m0 = default_entry rid m
          in (int (length (takeWhile (\<lambda>b. ref_cnt (heap p b) = int (length (req_to_blocks m0))) (blocks_of m0 rid))), m0)
      | SinkFullAttentionSpec b s \<Rightarrow>
          let m0 = default_entry rid m
          in (int (length (takeWhile (\<lambda>b. ref_cnt (heap p b) = int (length (req_to_blocks m0))) (blocks_of m0 rid))), m0)
      | _ \<Rightarrow> (0, m))"

end
