(* ===== verification/Pool_Invariant.thy ===== *)
theory Pool_Invariant
  imports Block_Pool
begin

text \<open>
  Correctness of the block pool: the invariant that ties the free list, the reference counts, the
  block hashes and the hash table together, and what each operation of \<open>Block_Pool\<close> does under it.
\<close>

section \<open>The invariant\<close>

abbreviation ref :: "block_pool \<Rightarrow> nat \<Rightarrow> int" where
  "ref p i \<equiv> ref_cnt (heap p (Blk i))"

abbreviation hash_of :: "block_pool \<Rightarrow> nat \<Rightarrow> bytes option" where
  "hash_of p i \<equiv> block_hash (heap p (Blk i))"

abbreviation pool_size :: "block_pool \<Rightarrow> nat" where
  "pool_size p \<equiv> nat (num_gpu_blocks p)"

text \<open>Block 0 is the null block; the others are free exactly when nobody refers to them.\<close>

definition blocks_ok :: "block_pool \<Rightarrow> nat list \<Rightarrow> bool" where
  "blocks_ok p xs \<longleftrightarrow> 0 < num_gpu_blocks p \<and> null_block p = Blk 0 \<and>
     (\<forall>i. block_id (heap p (Blk i)) = int i) \<and> (\<forall>i. is_null (heap p (Blk i)) \<longleftrightarrow> i = 0) \<and>
     set xs \<subseteq> {0<..<pool_size p} \<and>
     (\<forall>i\<in>{0<..<pool_size p}. 0 \<le> ref p i \<and> (ref p i = 0 \<longleftrightarrow> i \<in> set xs))"

text \<open>The hash table holds exactly the blocks that carry a hash, under that hash.\<close>

definition cache_ok :: "block_pool \<Rightarrow> bool" where
  "cache_ok p \<longleftrightarrow> cache_wf (ident_in p) (cached_block_hash_to_block p) \<and>
     (\<forall>k. nodes_at (cached_block_hash_to_block p) k = {Blk i | i. hash_of p i = Some k}) \<and>
     (\<forall>i k. hash_of p i = Some k \<longrightarrow> i \<in> {0<..<pool_size p})"

definition pool_inv :: "block_pool \<Rightarrow> nat list \<Rightarrow> bool" where
  "pool_inv p xs \<longleftrightarrow> free_list p xs \<and> blocks_ok p xs \<and> cache_ok p"

definition same_config :: "block_pool \<Rightarrow> block_pool \<Rightarrow> bool" where
  "same_config p p' \<longleftrightarrow> num_gpu_blocks p' = num_gpu_blocks p \<and> enable_caching p' = enable_caching p \<and>
     hash_block_size p' = hash_block_size p \<and> null_block p' = null_block p \<and>
     enable_kv_cache_events p' = enable_kv_cache_events p \<and> use_int_hashes p' = use_int_hashes p"

lemma same_config_refl [simp]: "same_config p p"
  by (simp add: same_config_def)

lemma same_config_trans: "same_config p p' \<Longrightarrow> same_config p' p'' \<Longrightarrow> same_config p p''"
  by (simp add: same_config_def)

section \<open>Frame lemmas\<close>

lemma free_list_cong:
  assumes "\<And>b. nxt (heap q') b = nxt (heap q) b" "\<And>b. prv (heap q') b = prv (heap q) b"
    "num_free_blocks q' = num_free_blocks q"
  shows "free_list q' xs \<longleftrightarrow> free_list q xs"
  using assms linked_cong [of "ring xs" "heap q'" "heap q"] by (simp add: free_list_def)

lemma upd_block_sel [simp]:
  "heap (upd_block b f p) = (heap p)(b := f (heap p b))"
  "num_free_blocks (upd_block b f p) = num_free_blocks p"
  "num_gpu_blocks (upd_block b f p) = num_gpu_blocks p"
  "enable_caching (upd_block b f p) = enable_caching p"
  "hash_block_size (upd_block b f p) = hash_block_size p"
  "cached_block_hash_to_block (upd_block b f p) = cached_block_hash_to_block p"
  "null_block (upd_block b f p) = null_block p"
  "enable_kv_cache_events (upd_block b f p) = enable_kv_cache_events p"
  "use_int_hashes (upd_block b f p) = use_int_hashes p"
  "kv_event_queue (upd_block b f p) = kv_event_queue p"
  by (simp_all add: upd_block_def)

lemma free_list_ref_upd [simp]:
  "free_list (upd_block b (\<lambda>k. k\<lparr>ref_cnt := f k\<rparr>) p) xs \<longleftrightarrow> free_list p xs"
  "free_list (upd_block b reset_hash p) xs \<longleftrightarrow> free_list p xs"
  "free_list (p\<lparr>cached_block_hash_to_block := c\<rparr>) xs \<longleftrightarrow> free_list p xs"
  "free_list (p\<lparr>kv_event_queue := e\<rparr>) xs \<longleftrightarrow> free_list p xs"
  "free_list (p\<lparr>null_block := nb\<rparr>) xs \<longleftrightarrow> free_list p xs"
  by (rule free_list_cong; simp add: reset_hash_def)+

lemma ident_in_simps [simp]:
  "ident_in (upd_block b (\<lambda>k. k\<lparr>ref_cnt := f k\<rparr>) p) = ident_in p"
  "ident_in (upd_block b reset_hash p) = ident_in p"
  by (auto simp: reset_hash_def)

lemma cache_ok_cong:
  assumes "\<And>i. hash_of p' i = hash_of p i" "\<And>b. ident_in p' b = ident_in p b"
    "cached_block_hash_to_block p' = cached_block_hash_to_block p" "num_gpu_blocks p' = num_gpu_blocks p"
  shows "cache_ok p' \<longleftrightarrow> cache_ok p"
proof -
  have "ident_in p' = ident_in p" using assms(2) by auto
  then show ?thesis using assms by (simp add: cache_ok_def)
qed

text \<open>The queue operations only touch links and the counter.\<close>

abbreviation relinked :: "block_pool \<Rightarrow> bytes heap \<Rightarrow> int \<Rightarrow> block_pool" where
  "relinked p h m \<equiv> p\<lparr>heap := h, num_free_blocks := m\<rparr>"

lemma same_dataD:
  "same_data h h' \<Longrightarrow> block_id (h' x) = block_id (h x)"
  "same_data h h' \<Longrightarrow> ref_cnt (h' x) = ref_cnt (h x)"
  "same_data h h' \<Longrightarrow> block_hash (h' x) = block_hash (h x)"
  "same_data h h' \<Longrightarrow> is_null (h' x) = is_null (h x)"
  by (simp_all add: same_data_def)

lemma cache_ok_relinked: "same_data (heap p) h \<Longrightarrow> cache_ok (relinked p h m) \<longleftrightarrow> cache_ok p"
  by (rule cache_ok_cong) (simp_all add: same_dataD)

lemma pool_invD:
  assumes "pool_inv p xs"
  shows "free_list p xs" "blocks_ok p xs" "cache_ok p" "distinct xs" "set xs \<subseteq> {0<..<pool_size p}"
    "num_free_blocks p = int (length xs)" "0 < num_gpu_blocks p" "null_block p = Blk 0"
    "block_id (heap p (Blk i)) = int i" "is_null (heap p (Blk i)) \<longleftrightarrow> i = 0"
    "i \<in> {0<..<pool_size p} \<Longrightarrow> 0 \<le> ref p i"
    "i \<in> {0<..<pool_size p} \<Longrightarrow> ref p i = 0 \<longleftrightarrow> i \<in> set xs"
  using assms free_list_length free_list_distinct by (auto simp: pool_inv_def blocks_ok_def)

lemma pool_inv_unique: "pool_inv p xs \<Longrightarrow> pool_inv p ys \<Longrightarrow> xs = ys"
  by (auto simp: pool_inv_def intro: free_list_unique)

section \<open>Construction\<close>

lemma fresh_heap_links [simp]:
  "prv fresh_heap b = None" "nxt fresh_heap b = None"
  "ref_cnt (fresh_heap b) = 0" "block_hash (fresh_heap b) = None" "is_null (fresh_heap b) = False"
  "block_id (fresh_heap (Blk i)) = int i"
  by (cases b; simp add: fresh_heap_def KVCacheBlock_def)+

lemma BlockPool_inv:
  assumes "0 < n"
  obtains p where "BlockPool n caching hbs events ih = Inr p" and "pool_inv p [1..<nat n]"
    and "num_gpu_blocks p = n" and "enable_caching p = caching" and "hash_block_size p = hbs"
    and "\<And>i. ref p i = 0" and "\<And>i. hash_of p i = None"
    and "enable_kv_cache_events p = events" and "kv_event_queue p = []"
proof -
  let ?q = "init_queue (map Blk [0..<nat n]) fresh_heap :: bytes free_queue"
  let ?p = "\<lparr>heap = heap ?q, num_free_blocks = num_free_blocks ?q, num_gpu_blocks = n,
                enable_caching = caching, hash_block_size = hbs, cached_block_hash_to_block = [],
                null_block = Head, enable_kv_cache_events = events, use_int_hashes = ih,
                kv_event_queue = []\<rparr>"
  have up: "[0..<nat n] = 0 # [1..<nat n]" using assms by (simp add: upt_conv_Cons)
  have "free_list ?q [0..<nat n]" by (rule init_queue_free_list) simp_all
  then have "free_list ?p (0 # [1..<nat n])" unfolding up [symmetric] by (subst free_list_cong [of _ ?q]) simp_all
  then obtain h where h: "popleft ?p = Inr (Blk 0, ?p\<lparr>heap := h, num_free_blocks := num_free_blocks ?p - 1\<rparr>)"
    "same_data (heap ?p) h"
    "free_list (?p\<lparr>heap := h, num_free_blocks := num_free_blocks ?p - 1\<rparr>) [1..<nat n]"
    by (rule popleft_refines)
  let ?p' = "upd_block (Blk 0) (\<lambda>k. k\<lparr>is_null := True\<rparr>)
      (?p\<lparr>heap := h, num_free_blocks := num_free_blocks ?p - 1, null_block := Blk 0\<rparr>)"
  have "[0..<nat n] \<noteq> []" using assms by simp
  note data = init_queue_data [OF this, where h = "fresh_heap :: bytes heap"]
  have d: "ref_cnt (h (Blk i)) = 0" "block_hash (h (Blk i)) = None" "\<not> is_null (h (Blk i))"
    "block_id (h (Blk i)) = int i" for i
    using same_dataD [OF h(2), of "Blk i"] data [of i] by simp_all
  have "free_list ?p' [1..<nat n]"
    using h(3) by (subst free_list_cong [of _ "?p\<lparr>heap := h, num_free_blocks := num_free_blocks ?p - 1\<rparr>"]) auto
  moreover have "blocks_ok ?p' [1..<nat n]" using assms d by (auto simp: blocks_ok_def)
  moreover have "cache_ok ?p'" using d by (auto simp: cache_ok_def)
  moreover have "BlockPool n caching hbs events ih = Inr ?p'"
    using assms h(1) by (simp add: BlockPool_def Let_def)
  ultimately show thesis using that [of ?p'] d by (simp add: pool_inv_def)
qed

section \<open>Eviction\<close>

lemma maybe_evict_spec:
  assumes ok: "cache_ok p" and ids: "\<And>j. block_id (heap p (Blk j)) = int j"
    and ev: "maybe_evict_cached_block (Blk i) p = (e, p')"
  shows "e \<longleftrightarrow> hash_of p i \<noteq> None" and "cache_ok p'" and "same_config p p'"
    and "hash_of p' j = (if j = i then None else hash_of p j)" and "ref p' j = ref p j"
    and "is_null (heap p' b) = is_null (heap p b)" and "ident_in p' b = ident_in p b"
    and "free_list p' xs \<longleftrightarrow> free_list p xs" and "num_free_blocks p' = num_free_blocks p"
proof -
  have "(e \<longleftrightarrow> hash_of p i \<noteq> None) \<and> cache_ok p' \<and> same_config p p' \<and>
    (\<forall>j. hash_of p' j = (if j = i then None else hash_of p j)) \<and> (\<forall>j. ref p' j = ref p j) \<and>
    (\<forall>b. is_null (heap p' b) = is_null (heap p b) \<and> ident_in p' b = ident_in p b) \<and>
    (\<forall>xs. free_list p' xs \<longleftrightarrow> free_list p xs) \<and> num_free_blocks p' = num_free_blocks p"
  proof (cases "hash_of p i")
    case None
    then show ?thesis using ev ok by (simp add: maybe_evict_cached_block_def)
  next
    case (Some k)
    obtain r c' where pop: "pop_block (ident_in p) k (int i) (cached_block_hash_to_block p) = (r, c')"
      by fastforce
    have wf: "cache_wf (ident_in p) (cached_block_hash_to_block p)" using ok by (simp add: cache_ok_def)
    have n: "nodes_at (cached_block_hash_to_block p) k' = {Blk j | j. hash_of p j = Some k'}" for k'
      using ok by (simp add: cache_ok_def)
    have "Blk i \<in> nodes_at (cached_block_hash_to_block p) k" using Some n by simp
    then have "r \<noteq> None" using pop_block_None [OF wf pop] ids by auto
    then obtain b where r: "r = Some b" by auto
    have nodes: "nodes_at c' k' = {Blk j | j. j \<noteq> i \<and> hash_of p j = Some k'}" for k'
      using pop_block_nodes [OF wf pop, of k'] Some n ids by auto
    let ?p1 = "upd_block (Blk i) reset_hash (p\<lparr>cached_block_hash_to_block := c'\<rparr>)"
    have p': "e \<and> (p' = ?p1 \<or> (\<exists>q. p' = ?p1\<lparr>kv_event_queue := q\<rparr>))"
      using ev Some pop r ids by (auto simp: maybe_evict_cached_block_def Let_def split: if_splits)
    have same: "ident_in p' = ident_in p" using p' by (auto simp: reset_hash_def)
    have "cache_wf (ident_in p') c'" unfolding same by (rule pop_block_wf [OF wf pop])
    moreover have "cached_block_hash_to_block p' = c'" using p' by auto
    moreover have h: "hash_of p' j = (if j = i then None else hash_of p j)" for j
      using p' by (auto simp: reset_hash_def)
    moreover have "num_gpu_blocks p' = num_gpu_blocks p" using p' by auto
    ultimately have "cache_ok p'" using ok nodes by (auto simp: cache_ok_def split: if_splits)
    then show ?thesis using p' Some h same
      by (auto simp: same_config_def reset_hash_def split: if_splits)
  qed
  then show "e \<longleftrightarrow> hash_of p i \<noteq> None" and "cache_ok p'" and "same_config p p'"
    and "hash_of p' j = (if j = i then None else hash_of p j)" and "ref p' j = ref p j"
    and "is_null (heap p' b) = is_null (heap p b)" and "ident_in p' b = ident_in p b"
    and "free_list p' xs \<longleftrightarrow> free_list p xs" and "num_free_blocks p' = num_free_blocks p"
    by blast+
qed

section \<open>Allocation\<close>

text \<open>
  What the loop of \<^verbatim>\<open>get_new_blocks\<close> needs and does: the blocks have left the free list, they are
  distinct, and nobody refers to them.
\<close>

lemma take_block_spec:
  assumes ok: "cache_ok p" and ids: "\<And>j. block_id (heap p (Blk j)) = int j" and r: "ref p i = 0"
  shows "\<exists>p'. take_block (Blk i) p = Inr p' \<and> cache_ok p' \<and> same_config p p' \<and>
    (\<forall>j. hash_of p' j = (if j = i \<and> enable_caching p then None else hash_of p j)) \<and>
    (\<forall>j. ref p' j = (if j = i then 1 else ref p j)) \<and>
    (\<forall>b. is_null (heap p' b) = is_null (heap p b) \<and> ident_in p' b = ident_in p b) \<and>
    (\<forall>xs. free_list p' xs \<longleftrightarrow> free_list p xs) \<and> num_free_blocks p' = num_free_blocks p"
proof -
  obtain e p1 where ev: "maybe_evict_cached_block (Blk i) p = (e, p1)" by fastforce
  note s = maybe_evict_spec [OF ok ids ev]
  let ?p = "if enable_caching p then p1 else p"
  have p: "cache_ok ?p" "same_config p ?p" "\<forall>j. ref ?p j = ref p j"
    "\<forall>j. hash_of ?p j = (if j = i \<and> enable_caching p then None else hash_of p j)"
    "\<forall>b. is_null (heap ?p b) = is_null (heap p b) \<and> ident_in ?p b = ident_in p b"
    "\<forall>xs. free_list ?p xs \<longleftrightarrow> free_list p xs" "num_free_blocks ?p = num_free_blocks p"
    using s ok by simp_all
  let ?p' = "upd_block (Blk i) (\<lambda>k. k\<lparr>ref_cnt := ref_cnt k + 1\<rparr>) ?p"
  have "take_block (Blk i) p = Inr ?p'" using p(3) r ev by (auto simp: take_block_def Let_def)
  moreover have "cache_ok ?p' \<longleftrightarrow> cache_ok ?p" by (rule cache_ok_cong) simp_all
  ultimately show ?thesis using p r by (intro exI [of _ ?p']) (auto simp: same_config_def)
qed

lemma take_blocks_spec:
  assumes "cache_ok p" "\<And>j. block_id (heap p (Blk j)) = int j" "distinct js" "\<And>i. i \<in> set js \<Longrightarrow> ref p i = 0"
  shows "\<exists>p'. fold_res take_block (map Blk js) p = Inr p' \<and> cache_ok p' \<and> same_config p p' \<and>
    (\<forall>j. hash_of p' j = (if j \<in> set js \<and> enable_caching p then None else hash_of p j)) \<and>
    (\<forall>j. ref p' j = (if j \<in> set js then 1 else ref p j)) \<and>
    (\<forall>b. is_null (heap p' b) = is_null (heap p b) \<and> ident_in p' b = ident_in p b) \<and>
    (\<forall>xs. free_list p' xs \<longleftrightarrow> free_list p xs) \<and> num_free_blocks p' = num_free_blocks p"
  using assms
proof (induction js arbitrary: p)
  case (Cons i js)
  have "ref p i = 0" using Cons.prems(4) by simp
  from take_block_spec [OF Cons.prems(1,2) this] obtain p1 where p1:
    "take_block (Blk i) p = Inr p1" "cache_ok p1" "same_config p p1"
    "\<forall>j. hash_of p1 j = (if j = i \<and> enable_caching p then None else hash_of p j)"
    "\<forall>j. ref p1 j = (if j = i then 1 else ref p j)"
    "\<forall>b. is_null (heap p1 b) = is_null (heap p b) \<and> ident_in p1 b = ident_in p b"
    "\<forall>xs. free_list p1 xs \<longleftrightarrow> free_list p xs" "num_free_blocks p1 = num_free_blocks p" by blast
  have "\<And>j. block_id (heap p1 (Blk j)) = int j" using p1(6) Cons.prems(2) by simp
  moreover have "\<And>j. j \<in> set js \<Longrightarrow> ref p1 j = 0" using p1(5) Cons.prems(3,4) by auto
  ultimately obtain p2 where p2:
    "fold_res take_block (map Blk js) p1 = Inr p2" "cache_ok p2" "same_config p1 p2"
    "\<forall>j. hash_of p2 j = (if j \<in> set js \<and> enable_caching p1 then None else hash_of p1 j)"
    "\<forall>j. ref p2 j = (if j \<in> set js then 1 else ref p1 j)"
    "\<forall>b. is_null (heap p2 b) = is_null (heap p1 b) \<and> ident_in p2 b = ident_in p1 b"
    "\<forall>xs. free_list p2 xs \<longleftrightarrow> free_list p1 xs" "num_free_blocks p2 = num_free_blocks p1"
    using Cons.IH [of p1] p1(2) Cons.prems(3) by auto
  have "enable_caching p1 = enable_caching p" using p1(3) by (simp add: same_config_def)
  then show ?case using p1 p2 same_config_trans [OF p1(3) p2(3)]
    by (intro exI [of _ p2]) auto
qed simp

lemma get_new_blocks_spec:
  assumes inv: "pool_inv p (ys @ zs)"
  shows "\<exists>p'. get_new_blocks (int (length ys)) p = Inr (map Blk ys, p') \<and> pool_inv p' zs \<and>
    same_config p p' \<and> (\<forall>j. ref p' j = (if j \<in> set ys then 1 else ref p j)) \<and>
    (\<forall>j. hash_of p' j = (if j \<in> set ys \<and> enable_caching p then None else hash_of p j))"
proof -
  note P = pool_invD [OF inv]
  obtain h where h: "popleft_n (int (length ys)) p =
      Inr (map Blk ys, relinked p h (num_free_blocks p - int (length ys)))"
    "same_data (heap p) h" "free_list (relinked p h (num_free_blocks p - int (length ys))) zs"
    by (rule popleft_n_refines [OF P(1)])
  let ?p1 = "relinked p h (num_free_blocks p - int (length ys))"
  have ok: "cache_ok ?p1" using P(3) cache_ok_relinked [OF h(2)] by simp
  have ids: "\<And>j. block_id (heap ?p1 (Blk j)) = int j" using P(9) same_dataD [OF h(2)] by simp
  have "ref p i = 0" if "i \<in> set ys" for i using P(5) P(12) [of i] that by auto
  then have r0: "\<And>i. i \<in> set ys \<Longrightarrow> ref ?p1 i = 0" using same_dataD [OF h(2)] by simp
  have "distinct ys" using P(4) by simp
  from take_blocks_spec [OF ok ids this r0] obtain p2 where p2:
    "fold_res take_block (map Blk ys) ?p1 = Inr p2" "cache_ok p2" "same_config ?p1 p2"
    "\<forall>j. hash_of p2 j = (if j \<in> set ys \<and> enable_caching ?p1 then None else hash_of ?p1 j)"
    "\<forall>j. ref p2 j = (if j \<in> set ys then 1 else ref ?p1 j)"
    "\<forall>b. is_null (heap p2 b) = is_null (heap ?p1 b) \<and> ident_in p2 b = ident_in ?p1 b"
    "\<forall>xs. free_list p2 xs \<longleftrightarrow> free_list ?p1 xs" "num_free_blocks p2 = num_free_blocks ?p1" by blast
  have cfg: "same_config p p2" using p2(3) by (simp add: same_config_def)
  have rf: "ref p2 j = (if j \<in> set ys then 1 else ref p j)" for j
    using p2(5) same_dataD [OF h(2)] by simp
  have "blocks_ok p2 zs"
    using P p2(6) cfg rf same_dataD [OF h(2)] unfolding blocks_ok_def same_config_def by auto
  then have "pool_inv p2 zs" using p2(2,7) h(3) by (simp add: pool_inv_def)
  moreover have "get_new_blocks (int (length ys)) p = Inr (map Blk ys, p2)"
    using h(1) p2(1) P(6) by (simp add: get_new_blocks_def get_num_free_blocks_def)
  ultimately show ?thesis using cfg rf p2(4) same_dataD [OF h(2)] by auto
qed

lemma get_new_blocks_too_many:
  "num_free_blocks p < n \<Longrightarrow> get_new_blocks n p = Inl ValueError"
  by (simp add: get_new_blocks_def get_num_free_blocks_def)

section \<open>Touching\<close>

lemma touch_block_spec:
  assumes inv: "pool_inv p xs" and i: "i < pool_size p"
  shows "\<exists>p'. touch_block (Blk i) p = Inr p' \<and> pool_inv p' (remove1 i xs) \<and> same_config p p' \<and>
    (\<forall>j. ref p' j = ref p j + (if j = i then 1 else 0)) \<and> (\<forall>j. hash_of p' j = hash_of p j)"
proof -
  note P = pool_invD [OF inv]
  have zero: "0 \<notin> set xs" using P(5) by auto
  let ?free = "ref p i = 0 \<and> i \<noteq> 0"
  have "\<exists>h m. (if ref p i = 0 \<and> \<not> is_null (heap p (Blk i)) then remove (Blk i) p else Inr p) =
      Inr (relinked p h m) \<and> same_data (heap p) h \<and> free_list (relinked p h m) (remove1 i xs)"
  proof (cases ?free)
    case True
    then have "i \<in> set xs" using P(12) [of i] i by auto
    then obtain as bs where xs: "xs = as @ i # bs" "i \<notin> set as" by (meson split_list_first)
    obtain h where "remove (Blk i) p = Inr (relinked p h (num_free_blocks p - 1))"
      "same_data (heap p) h" "free_list (relinked p h (num_free_blocks p - 1)) (as @ bs)"
      using P(1) xs(1) remove_refines [of p as i bs] by blast
    then show ?thesis using True P(10) xs by (auto simp: remove1_append)
  next
    case False
    then have "i \<notin> set xs" using P(12) [of i] zero i by auto
    then show ?thesis using False P(1,10)
      by (intro exI [of _ "heap p"] exI [of _ "num_free_blocks p"]) (auto simp: remove1_idem)
  qed
  then obtain h m where h: "(if ref p i = 0 \<and> \<not> is_null (heap p (Blk i)) then remove (Blk i) p else Inr p) =
      Inr (relinked p h m)" "same_data (heap p) h" "free_list (relinked p h m) (remove1 i xs)" by blast
  let ?p' = "upd_block (Blk i) (\<lambda>k. k\<lparr>ref_cnt := ref_cnt k + 1\<rparr>) (relinked p h m)"
  note d = same_dataD [OF h(2)]
  have rf: "ref ?p' j = ref p j + (if j = i then 1 else 0)" for j using d by simp
  have "cache_ok ?p' \<longleftrightarrow> cache_ok p" by (rule cache_ok_cong) (simp_all add: d)
  moreover have "blocks_ok ?p' (remove1 i xs)"
    unfolding blocks_ok_def
  proof (intro conjI ballI)
    fix j assume j: "j \<in> {0<..<pool_size ?p'}"
    then have "j \<in> {0<..<pool_size p}" by simp
    note J = P(11,12) [OF this]
    show "0 \<le> ref ?p' j" using J unfolding rf by simp
    show "ref ?p' j = 0 \<longleftrightarrow> j \<in> set (remove1 i xs)" using J P(4) unfolding rf by auto
  qed (use P d in \<open>auto dest: notin_set_remove1\<close>)
  ultimately have "pool_inv ?p' (remove1 i xs)" using h(3) P(3) by (simp add: pool_inv_def)
  moreover have "touch_block (Blk i) p = Inr ?p'" using h(1) unfolding touch_block_def by simp
  ultimately show ?thesis using d rf by (intro exI [of _ ?p']) (simp add: same_config_def)
qed

lemma touch_spec:
  assumes "pool_inv p xs" "\<forall>i\<in>set js. i < pool_size p"
  shows "\<exists>p'. touch (map Blk js) p = Inr p' \<and> pool_inv p' (filter (\<lambda>x. x \<notin> set js) xs) \<and>
    same_config p p' \<and> (\<forall>j. ref p' j = ref p j + int (count_list js j)) \<and>
    (\<forall>j. hash_of p' j = hash_of p j)"
  unfolding touch_def using assms
proof (induction js arbitrary: p xs)
  case (Cons i js)
  then obtain p1 where p1: "touch_block (Blk i) p = Inr p1" "pool_inv p1 (remove1 i xs)"
    "same_config p p1" "\<forall>j. ref p1 j = ref p j + (if j = i then 1 else 0)" "\<forall>j. hash_of p1 j = hash_of p j"
    using touch_block_spec [OF Cons.prems(1), of i] by auto
  have "\<forall>i\<in>set js. i < pool_size p1" using Cons.prems(2) p1(3) by (simp add: same_config_def)
  from Cons.IH [OF p1(2) this] obtain p2 where p2: "fold_res touch_block (map Blk js) p1 = Inr p2"
    "pool_inv p2 (filter (\<lambda>x. x \<notin> set js) (remove1 i xs))" "same_config p1 p2"
    "\<forall>j. ref p2 j = ref p1 j + int (count_list js j)" "\<forall>j. hash_of p2 j = hash_of p1 j" by blast
  have "filter (\<lambda>x. x \<notin> set js) (remove1 i xs) = filter (\<lambda>x. x \<notin> set (i # js)) xs"
    using pool_invD(4) [OF Cons.prems(1)]
    by (simp add: distinct_remove1_removeAll removeAll_filter_not_eq) (metis (lifting))
  then show ?case using p1 p2 same_config_trans [OF p1(3) p2(3)] by (intro exI [of _ p2]) auto
qed (simp)

section \<open>Freeing\<close>

lemma dec_refs:
  "ref (fold (\<lambda>b. upd_block b (\<lambda>k. k\<lparr>ref_cnt := ref_cnt k - 1\<rparr>)) (map Blk js) p) j =
     ref p j - int (count_list js j)"
  "hash_of (fold (\<lambda>b. upd_block b (\<lambda>k. k\<lparr>ref_cnt := ref_cnt k - 1\<rparr>)) (map Blk js) p) j = hash_of p j"
  "is_null (heap (fold (\<lambda>b. upd_block b (\<lambda>k. k\<lparr>ref_cnt := ref_cnt k - 1\<rparr>)) (map Blk js) p) b) =
     is_null (heap p b)"
  "ident_in (fold (\<lambda>b. upd_block b (\<lambda>k. k\<lparr>ref_cnt := ref_cnt k - 1\<rparr>)) (map Blk js) p) b = ident_in p b"
  "same_config p (fold (\<lambda>b. upd_block b (\<lambda>k. k\<lparr>ref_cnt := ref_cnt k - 1\<rparr>)) (map Blk js) p)"
  "cached_block_hash_to_block (fold (\<lambda>b. upd_block b (\<lambda>k. k\<lparr>ref_cnt := ref_cnt k - 1\<rparr>)) (map Blk js) p) =
     cached_block_hash_to_block p"
  "free_list (fold (\<lambda>b. upd_block b (\<lambda>k. k\<lparr>ref_cnt := ref_cnt k - 1\<rparr>)) (map Blk js) p) xs \<longleftrightarrow> free_list p xs"
  by (induction js arbitrary: p) (auto simp: same_config_def)

text \<open>
  The callers' duty: they give back references they hold, and a block that is not null at most
  once per call.
\<close>

lemma free_blocks_spec:
  assumes inv: "pool_inv p xs" and bd: "\<forall>i\<in>set js. i < pool_size p"
    and held: "\<forall>i\<in>set js. i \<noteq> 0 \<longrightarrow> 0 < ref p i" and d: "distinct (filter (\<lambda>i. i \<noteq> 0) js)"
  shows "\<exists>p'. free_blocks (map Blk js) p = Inr p' \<and>
    pool_inv p' (xs @ filter (\<lambda>i. i \<noteq> 0 \<and> ref p i = 1) js) \<and> same_config p p' \<and>
    (\<forall>j. ref p' j = ref p j - int (count_list js j)) \<and> (\<forall>j. hash_of p' j = hash_of p j)"
proof -
  note P = pool_invD [OF inv]
  let ?q = "fold (\<lambda>b. upd_block b (\<lambda>k. k\<lparr>ref_cnt := ref_cnt k - 1\<rparr>)) (map Blk js) p"
  let ?fs = "filter (\<lambda>i. i \<noteq> 0 \<and> ref p i = 1) js"
  note D = dec_refs [where p = p and js = js]
  have one: "count_list js i = 1" if "i \<in> set js" "i \<noteq> 0" for i
  proof -
    have "count_list js i = count_list (filter (\<lambda>i. i \<noteq> 0) js) i"
      using that(2) by (induction js) auto
    also have "\<dots> = 1" using that d by (simp add: distinct_count_list)
    finally show ?thesis .
  qed
  have fs: "filter (\<lambda>b. ref_cnt (heap ?q b) = 0 \<and> \<not> is_null (heap ?q b)) (map Blk js) = map Blk ?fs"
    unfolding filter_map o_def using one P(10) by (intro arg_cong [of _ _ "map Blk"] filter_cong) (auto simp: D)
  have ds: "distinct ?fs" using d by (metis (no_types, lifting) distinct_filter filter_filter filter_cong conj_commute)
  have disj: "set ?fs \<inter> set xs = {}" using P(12) bd by (force simp: greaterThanLessThan_iff)
  have fl: "free_list ?q xs" using P(1) by (simp add: D)
  obtain h where h: "append_n (map Blk ?fs) ?q = Inr (relinked ?q h (num_free_blocks ?q + int (length ?fs)))"
    "same_data (heap ?q) h" "free_list (relinked ?q h (num_free_blocks ?q + int (length ?fs))) (xs @ ?fs)"
    by (rule append_n_refines [OF fl ds disj])
  let ?p' = "relinked ?q h (num_free_blocks ?q + int (length ?fs))"
  note e = same_dataD [OF h(2)]
  have cfg: "same_config p ?p'" using D(5) by (simp add: same_config_def)
  have rf: "ref ?p' j = ref p j - int (count_list js j)" for j using e(2) [of "Blk j"] D(1) by simp
  have hs: "hash_of ?p' j = hash_of p j" for j using e(3) [of "Blk j"] D(2) by simp
  have sz: "num_gpu_blocks ?p' = num_gpu_blocks p" "null_block ?p' = null_block p"
    using cfg by (simp_all add: same_config_def)
  have "cache_ok ?p' \<longleftrightarrow> cache_ok p"
    using hs sz(1) by (intro cache_ok_cong) (auto simp: e D)
  moreover have "blocks_ok ?p' (xs @ ?fs)"
    unfolding blocks_ok_def sz
  proof (intro conjI ballI)
    fix j assume j: "j \<in> {0<..<pool_size p}"
    note J = P(11,12) [OF j]
    have nz: "j \<noteq> 0" using j by simp
    show "0 \<le> ref ?p' j"
      using J one [OF _ nz] held nz unfolding rf by (cases "j \<in> set js") (auto simp: count_notin)
    show "ref ?p' j = 0 \<longleftrightarrow> j \<in> set (xs @ ?fs)"
      using J one [OF _ nz] held nz unfolding rf by (cases "j \<in> set js") (auto simp: count_notin)
  qed (use P e D bd in auto)
  ultimately have "pool_inv ?p' (xs @ ?fs)" using h(3) P(3) by (simp add: pool_inv_def)
  moreover have "free_blocks (map Blk js) p = Inr ?p'" using h(1) unfolding free_blocks_def Let_def fs .
  ultimately show ?thesis using cfg rf hs by blast
qed

section \<open>Caching\<close>

definition packed :: "bytes \<Rightarrow> int \<Rightarrow> bytes" where
  "packed h g = (case make_block_hash_with_group_id h g of Inr k \<Rightarrow> k | Inl _ \<Rightarrow> [])"

definition group_id_ok :: "int \<Rightarrow> bool" where
  "group_id_ok g \<longleftrightarrow> 0 \<le> g \<and> g < 2 ^ 32"

lemma make_packed: "group_id_ok g \<Longrightarrow> make_block_hash_with_group_id h g = Inr (packed h g)"
  using to_bytes4_total by (auto simp: packed_def group_id_ok_def make_block_hash_with_group_id_def to_bytes4_def)

lemma packed_inj: "group_id_ok g \<Longrightarrow> group_id_ok g' \<Longrightarrow> packed h g = packed h' g' \<Longrightarrow> h = h' \<and> g = g'"
  using make_packed pack_inj by metis

text \<open>One block is hashed and registered.\<close>

definition registered :: "bytes \<Rightarrow> nat \<Rightarrow> block_pool \<Rightarrow> block_pool" where
  "registered k j p = p\<lparr>heap := (heap p)(Blk j := (heap p (Blk j))\<lparr>block_hash := Some k\<rparr>),
      cached_block_hash_to_block := insert_block (ident_in p) k (Blk j) (cached_block_hash_to_block p)\<rparr>"

lemma register_block:
  assumes inv: "pool_inv p xs" and j: "j \<in> {0<..<pool_size p}" and h: "hash_of p j = None"
    and p'_def: "p' = registered k j p"
  shows "pool_inv p' xs" and "same_config p p'" and "hash_of p' i = (if i = j then Some k else hash_of p i)"
    and "ref p' i = ref p i"
proof -
  note P = pool_invD [OF inv]
  let ?c = "cached_block_hash_to_block p"
  have wf: "cache_wf (ident_in p) ?c" and n: "\<And>k. nodes_at ?c k = {Blk i | i. hash_of p i = Some k}"
    and rng: "\<And>i k. hash_of p i = Some k \<Longrightarrow> i \<in> {0<..<pool_size p}"
    using P(3) by (auto simp: cache_ok_def)
  have inj: "inj_on (ident_in p) (insert (Blk j) (nodes_at ?c k))"
    using P(9) by (auto simp: n inj_on_def)
  show hs: "hash_of p' i = (if i = j then Some k else hash_of p i)" for i by (simp add: p'_def registered_def)
  show "ref p' i = ref p i" for i by (simp add: p'_def registered_def)
  show cfg: "same_config p p'" by (simp add: p'_def registered_def same_config_def)
  have idn: "ident_in p' = ident_in p" by (auto simp: p'_def registered_def)
  have "cache_wf (ident_in p') (cached_block_hash_to_block p')"
    unfolding idn using insert_block_wf [OF wf] by (simp add: p'_def registered_def)
  moreover have "nodes_at (cached_block_hash_to_block p') k' = {Blk i | i. hash_of p' i = Some k'}" for k'
  proof -
    have "nodes_at (cached_block_hash_to_block p') k' =
        (if k' = k then insert (Blk j) (nodes_at ?c k) else nodes_at ?c k')"
      using insert_block_nodes [OF wf inj, of k'] by (simp add: p'_def registered_def)
    then show ?thesis unfolding hs n using h by (cases "k' = k") (auto, metis option.distinct(1))
  qed
  ultimately have "cache_ok p'" using rng j cfg by (auto simp: cache_ok_def hs same_config_def)
  moreover have "free_list p' xs \<longleftrightarrow> free_list p xs" by (rule free_list_cong) (simp_all add: p'_def registered_def)
  moreover have "blocks_ok p' xs" using P(2) by (auto simp: blocks_ok_def p'_def registered_def)
  ultimately show "pool_inv p' xs" using P(1) by (simp add: pool_inv_def)
qed

lemma cache_loop_spec:
  assumes "pool_inv p xs" "group_id_ok g" "\<forall>j\<in>set js. j < pool_size p"
    "\<forall>j\<in>set js. j \<noteq> 0 \<longrightarrow> hash_of p j = None" "distinct (filter (\<lambda>j. j \<noteq> 0) js)"
    "i + length js \<le> length hs"
  shows "\<exists>p'. cache_loop g hs i (map Blk js) p =
      Inr (map snd (filter (\<lambda>(j, h). j \<noteq> 0) (zip js (drop i hs))), p') \<and>
    pool_inv p' xs \<and> same_config p p' \<and> (\<forall>j. ref p' j = ref p j) \<and>
    (\<forall>j. j = 0 \<or> j \<notin> set js \<longrightarrow> hash_of p' j = hash_of p j) \<and>
    (\<forall>m<length js. js ! m \<noteq> 0 \<longrightarrow> hash_of p' (js ! m) = Some (packed (hs ! (i + m)) g))"
  using assms
proof (induction js arbitrary: i p)
  case (Cons j js)
  note P = pool_invD [OF Cons.prems(1)]
  have i: "i < length hs" using Cons.prems(6) by simp
  then have dr: "drop i hs = hs ! i # drop (Suc i) hs" by (simp add: Cons_nth_drop_Suc)
  show ?case
  proof (cases "j = 0")
    case True
    then obtain p' where p': "cache_loop g hs (Suc i) (map Blk js) p =
        Inr (map snd (filter (\<lambda>(j, h). j \<noteq> 0) (zip js (drop (Suc i) hs))), p')"
      "pool_inv p' xs" "same_config p p'" "\<forall>j. ref p' j = ref p j"
      "\<forall>j. j = 0 \<or> j \<notin> set js \<longrightarrow> hash_of p' j = hash_of p j"
      "\<forall>m<length js. js ! m \<noteq> 0 \<longrightarrow> hash_of p' (js ! m) = Some (packed (hs ! (Suc i + m)) g)"
      using Cons.IH [of p "Suc i"] Cons.prems by auto
    have "\<forall>m<length (j # js). (j # js) ! m \<noteq> 0 \<longrightarrow>
        hash_of p' ((j # js) ! m) = Some (packed (hs ! (i + m)) g)"
      using p'(6) True by (auto simp: nth_Cons split: nat.splits)
    then show ?thesis using p' True P(10) [of 0] by (intro exI [of _ p']) (auto simp: dr)
  next
    case False
    let ?k = "packed (hs ! i) g"
    let ?p1 = "registered ?k j p"
    have j: "j \<in> {0<..<pool_size p}" "hash_of p j = None" using Cons.prems(3,4) False by auto
    note R = register_block [OF Cons.prems(1) j refl, of ?k]
    have "j \<notin> set js" using Cons.prems(5) False by auto
    then have "\<forall>l\<in>set js. l \<noteq> 0 \<longrightarrow> hash_of ?p1 l = None" using Cons.prems(4) unfolding R(3) by auto
    moreover have "\<forall>l\<in>set js. l < pool_size ?p1" using Cons.prems(3) by (simp add: registered_def)
    ultimately obtain p' where p': "cache_loop g hs (Suc i) (map Blk js) ?p1 =
        Inr (map snd (filter (\<lambda>(j, h). j \<noteq> 0) (zip js (drop (Suc i) hs))), p')"
      "pool_inv p' xs" "same_config ?p1 p'" "\<forall>j. ref p' j = ref ?p1 j"
      "\<forall>j. j = 0 \<or> j \<notin> set js \<longrightarrow> hash_of p' j = hash_of ?p1 j"
      "\<forall>m<length js. js ! m \<noteq> 0 \<longrightarrow> hash_of p' (js ! m) = Some (packed (hs ! (Suc i + m)) g)"
      using Cons.IH [of ?p1 "Suc i"] R(1) Cons.prems(2,5,6) False by auto
    have ix: "py_index hs (int i) = Inr (hs ! i)" using i by (rule py_index_nat)
    have step: "cache_loop g hs i (map Blk (j # js)) p =
        Inr (hs ! i # map snd (filter (\<lambda>(j, h). j \<noteq> 0) (zip js (drop (Suc i) hs))), p')"
      using False P(10) [of j] j(2) p'(1)
      by (simp add: ix make_packed [OF Cons.prems(2)] set_block_hash_def Let_def registered_def)
    have "hash_of p' j = Some ?k" using p'(5) \<open>j \<notin> set js\<close> unfolding R(3) by simp
    then have "\<forall>m<length (j # js). (j # js) ! m \<noteq> 0 \<longrightarrow>
        hash_of p' ((j # js) ! m) = Some (packed (hs ! (i + m)) g)"
      using p'(6) by (auto simp: nth_Cons split: nat.splits)
    moreover have "\<forall>l. l = 0 \<or> l \<notin> set (j # js) \<longrightarrow> hash_of p' l = hash_of p l"
      using p'(5) False unfolding R(3) by auto
    moreover have "\<forall>l. ref p' l = ref p l" using p'(4) unfolding R(4) by simp
    ultimately show ?thesis using step p'(2) same_config_trans [OF R(2) p'(3)] False
      by (intro exI [of _ p']) (simp add: dr)
  qed
qed simp

section \<open>Lookup, eviction by id, reset\<close>

lemma get_cached_block_spec:
  assumes ok: "cache_ok p" and g: "\<forall>g\<in>set gs. group_id_ok g"
  shows "\<exists>r. get_cached_block p h gs = Inr r \<and>
    (r = None \<longleftrightarrow> (\<exists>g\<in>set gs. \<forall>i. hash_of p i \<noteq> Some (packed h g))) \<and>
    (\<forall>bs. r = Some bs \<longrightarrow> list_all2 (\<lambda>b g. \<exists>i. b = Blk i \<and> hash_of p i = Some (packed h g)) bs gs)"
  using g
proof (induction gs)
  case (Cons g gs)
  have wf: "cache_wf (ident_in p) (cached_block_hash_to_block p)"
    and n: "nodes_at (cached_block_hash_to_block p) k = {Blk i | i. hash_of p i = Some k}" for k
    using ok by (auto simp: cache_ok_def)
  obtain r where r: "get_one_block (cached_block_hash_to_block p) (packed h g) = Inr r"
    "r = None \<longleftrightarrow> (\<forall>i. hash_of p i \<noteq> Some (packed h g))"
    "\<forall>b. r = Some b \<longrightarrow> (\<exists>i. b = Blk i \<and> hash_of p i = Some (packed h g))"
    using get_one_block_nodes [OF wf, of "packed h g"] unfolding n by auto
  obtain rs where rs: "get_cached_block p h gs = Inr rs"
    "rs = None \<longleftrightarrow> (\<exists>g\<in>set gs. \<forall>i. hash_of p i \<noteq> Some (packed h g))"
    "\<forall>bs. rs = Some bs \<longrightarrow> list_all2 (\<lambda>b g. \<exists>i. b = Blk i \<and> hash_of p i = Some (packed h g)) bs gs"
    using Cons by auto
  show ?case
  proof (cases r)
    case None
    then show ?thesis using r Cons.prems by (simp add: make_packed)
  next
    case (Some b)
    then show ?thesis using r rs Cons.prems by (auto simp: make_packed)
  qed
qed simp

lemma evict_block_id_spec:
  assumes inv: "pool_inv p xs" and i: "i < pool_size p"
  shows "\<exists>p'. evict_block_id (int i) p = Inr p' \<and> pool_inv p' xs \<and> same_config p p' \<and>
    (\<forall>j. ref p' j = ref p j) \<and> (\<forall>j. hash_of p' j = (if j = i then None else hash_of p j))"
proof -
  note P = pool_invD [OF inv]
  obtain e p' where ev: "maybe_evict_cached_block (Blk i) p = (e, p')" by fastforce
  note s = maybe_evict_spec [OF P(3,9) ev]
  have "py_index (map Blk [0..<pool_size p]) (int i) = Inr (Blk i)"
    using i py_index_nat [of i "map Blk [0..<pool_size p]"] by simp
  moreover have "int i < num_gpu_blocks p" using i by linarith
  ultimately have "evict_block_id (int i) p = Inr p'" using ev by (simp add: evict_block_id_def)
  moreover have "blocks_ok p' xs" using P(2) s unfolding blocks_ok_def same_config_def by simp
  ultimately show ?thesis using P s by (auto simp: pool_inv_def)
qed

lemma evict_blocks_spec:
  assumes "pool_inv p xs" "\<forall>i\<in>set js. i < pool_size p"
  shows "\<exists>p'. evict_blocks (map int js) p = Inr p' \<and> pool_inv p' xs \<and> same_config p p' \<and>
    (\<forall>j. ref p' j = ref p j) \<and> (\<forall>j. hash_of p' j = (if j \<in> set js then None else hash_of p j))"
  unfolding evict_blocks_def using assms
proof (induction js arbitrary: p)
  case (Cons i js)
  then obtain p1 where p1: "evict_block_id (int i) p = Inr p1" "pool_inv p1 xs" "same_config p p1"
    "\<forall>j. ref p1 j = ref p j" "\<forall>j. hash_of p1 j = (if j = i then None else hash_of p j)"
    using evict_block_id_spec [OF Cons.prems(1), of i] by auto
  have "\<forall>i\<in>set js. i < pool_size p1" using Cons.prems(2) p1(3) by (simp add: same_config_def)
  from Cons.IH [OF p1(2) this] obtain p2 where p2: "fold_res evict_block_id (map int js) p1 = Inr p2"
    "pool_inv p2 xs" "same_config p1 p2" "\<forall>j. ref p2 j = ref p1 j"
    "\<forall>j. hash_of p2 j = (if j \<in> set js then None else hash_of p1 j)" by blast
  then show ?case using p1 same_config_trans [OF p1(3) p2(3)] by (intro exI [of _ p2]) auto
qed simp

lemma reset_all_hashes:
  "heap (fold (\<lambda>i. upd_block (Blk i) reset_hash) is' p) b =
     (if b \<in> Blk ` set is' then reset_hash (heap p b) else heap p b)"
  "same_config p (fold (\<lambda>i. upd_block (Blk i) reset_hash) is' p)"
  "cached_block_hash_to_block (fold (\<lambda>i. upd_block (Blk i) reset_hash) is' p) = cached_block_hash_to_block p"
  "free_list (fold (\<lambda>i. upd_block (Blk i) reset_hash) is' p) xs \<longleftrightarrow> free_list p xs"
  by (induction is' arbitrary: p) (auto simp: same_config_def reset_hash_def)

lemma reset_prefix_cache_spec:
  assumes inv: "pool_inv p xs" and rs: "reset_prefix_cache p = (ok, p')"
  shows "ok \<longleftrightarrow> (\<forall>i\<in>{0<..<pool_size p}. ref p i = 0)" and "pool_inv p' xs" and "same_config p p'"
    and "ref p' i = ref p i" and "hash_of p' i = (if ok then None else hash_of p i)"
proof -
  note P = pool_invD [OF inv]
  have card: "card (set xs) = length xs" using P(4) by (rule distinct_card)
  have all: "length xs = pool_size p - 1 \<longleftrightarrow> set xs = {0<..<pool_size p}"
  proof
    assume "length xs = pool_size p - 1"
    then have "card (set xs) = card {0<..<pool_size p}" using card by simp
    then show "set xs = {0<..<pool_size p}" using P(5) by (simp add: card_subset_eq)
  next
    assume "set xs = {0<..<pool_size p}"
    then show "length xs = pool_size p - 1" using card by simp
  qed
  have "num_gpu_blocks p - get_num_free_blocks p = 1 \<longleftrightarrow> length xs = pool_size p - 1"
    using P(6,7) by (auto simp: get_num_free_blocks_def)
  then have used: "num_gpu_blocks p - get_num_free_blocks p = 1 \<longleftrightarrow> (\<forall>i\<in>{0<..<pool_size p}. ref p i = 0)"
    unfolding all using P(5,12) by auto
  show "ok \<longleftrightarrow> (\<forall>i\<in>{0<..<pool_size p}. ref p i = 0)"
    using rs used by (auto simp: reset_prefix_cache_def Let_def split: if_splits)
  let ?p2 = "fold (\<lambda>i. upd_block (Blk i) reset_hash) [0..<pool_size p] (p\<lparr>cached_block_hash_to_block := []\<rparr>)"
  note F = reset_all_hashes [where is' = "[0..<pool_size p]" and p = "p\<lparr>cached_block_hash_to_block := []\<rparr>"]
  have "pool_inv p' xs \<and> same_config p p' \<and> (\<forall>i. ref p' i = ref p i) \<and>
      (\<forall>i. hash_of p' i = (if ok then None else hash_of p i))"
  proof (cases ok)
    case True
    then have p': "p' = ?p2 \<or> (\<exists>q. p' = ?p2\<lparr>kv_event_queue := q\<rparr>)"
      using rs by (auto simp: reset_prefix_cache_def Let_def split: if_splits)
    have rng: "hash_of p i = None" if "\<not> i < pool_size p" for i
      using P(3) that by (cases "hash_of p i") (auto simp: cache_ok_def)
    have hp: "heap p' (Blk i) = (if i < pool_size p then reset_hash (heap p (Blk i)) else heap p (Blk i))" for i
      using p' F(1) by auto
    have hs: "hash_of p' i = None" for i using rng by (auto simp: hp reset_hash_def)
    have cfg: "same_config p p'" using p' F(2) by (auto simp: same_config_def)
    have "cached_block_hash_to_block p' = []" using p' F(3) by auto
    then have "cache_ok p'" by (simp add: cache_ok_def hs)
    moreover have "free_list p' xs" using p' F(4) P(1) by auto
    moreover have "blocks_ok p' xs" using P(2) cfg
      by (auto simp: blocks_ok_def same_config_def hp reset_hash_def)
    ultimately show ?thesis using cfg hs True by (auto simp: pool_inv_def hp reset_hash_def)
  next
    case False
    then have "p' = p" using rs by (auto simp: reset_prefix_cache_def Let_def split: if_splits)
    then show ?thesis using inv False by simp
  qed
  then show "pool_inv p' xs" "same_config p p'" "ref p' i = ref p i"
    "hash_of p' i = (if ok then None else hash_of p i)" by blast+
qed

section \<open>Registering the full blocks of a request\<close>

text \<open>The hashes a group sees, at its own block size.\<close>

definition hash_values :: "hash_list \<Rightarrow> bytes list" where
  "hash_values hl = (case hl of Fine hs \<Rightarrow> hs
     | Coarse hs sc \<Rightarrow> map (\<lambda>i. concat (take (nat sc) (drop (nat (i * sc)) hs))) [0..scaled_len hs sc - 1])"

definition hash_list_ok :: "hash_list \<Rightarrow> bool" where
  "hash_list_ok hl = (case hl of Fine hs \<Rightarrow> True | Coarse hs sc \<Rightarrow> 0 < sc)"

lemma drop_upto: "drop k [0..m] = [int k..m]"
  by (rule nth_equalityI) auto

lemma hash_list_from_spec:
  assumes "hash_list_ok hl"
  shows "hash_list_from hl (int n) = Inr (drop n (hash_values hl))"
proof (cases hl)
  case (Fine hs)
  then show ?thesis by (auto simp: hash_list_from_def hash_values_def py_from_def min_def)
next
  case (Coarse hs sc)
  let ?len = "scaled_len hs sc" and ?f = "\<lambda>i. concat (take (nat sc) (drop (nat (i * sc)) hs))"
  have sc: "0 < sc" using assms Coarse by (simp add: hash_list_ok_def)
  have len: "0 \<le> ?len" using sc by (simp add: scaled_len_def pos_imp_zdiv_nonneg_iff)
  have "map_res (get_value_at hs sc) [min (int n) ?len..?len - 1] = Inr (map ?f [min (int n) ?len..?len - 1])"
    by (rule map_res_Inr, rule get_value_at_spec [OF sc]) (use len in auto)
  moreover have "[min (int n) ?len..?len - 1] = [int n..?len - 1]" by (auto simp: min_def)
  ultimately show ?thesis using Coarse
    by (simp add: hash_list_from_def hash_values_def Let_def drop_map drop_upto)
qed

lemma hash_list_at_spec:
  assumes "hash_list_ok hl" "n < length (hash_values hl)"
  shows "hash_list_at hl (int n) = Inr (hash_values hl ! n)"
proof (cases hl)
  case (Fine hs)
  then show ?thesis using assms by (simp add: hash_list_at_def hash_values_def py_index_nat)
next
  case (Coarse hs sc)
  then have "0 < sc" "int n < scaled_len hs sc"
    using assms by (auto simp: hash_list_ok_def hash_values_def)
  moreover have "[0..scaled_len hs sc - 1] ! n = int n" using calculation(2) by (subst nth_upto) auto
  ultimately show ?thesis using Coarse get_value_at_spec [of sc "int n" hs]
    by (simp add: hash_list_at_def hash_values_def)
qed

lemma valid_mm_idx_mono: "valid_mm_idx fs s i \<Longrightarrow> s \<le> s' \<Longrightarrow> valid_mm_idx fs s' i"
  by (force simp: valid_mm_idx_def)

lemma event_keys_spec:
  assumes "0 < bs" "memo_ok env r" "mm_wf (mm_features r)" "valid_mm_idx (mm_features r) s i"
    "sorted ns" "\<forall>n\<in>set ns. s \<le> int n * bs \<and> n < length js"
    "\<And>j. is_null (heap p (Blk j)) \<longleftrightarrow> j = 0" "distinct ns"
  shows "\<exists>m. event_keys env bs (map Blk js) p ns i r =
      Inr (map (\<lambda>n. block_extra_keys env r (int n * bs) (int n * bs + bs)) (filter (\<lambda>n. js ! n \<noteq> 0) ns),
        r\<lparr>prompt_embeds_per_block_hashes := m\<rparr>) \<and>
    memo_ok env (r\<lparr>prompt_embeds_per_block_hashes := m\<rparr>)"
  using assms
proof (induction ns arbitrary: s i r)
  case Nil
  then show ?case by (intro exI [of _ "prompt_embeds_per_block_hashes r"]) simp
next
  case (Cons n ns)
  have ix: "py_index (map Blk js) (int n) = Inr (Blk (js ! n))"
    using Cons.prems(6) py_index_nat [of n "map Blk js"] by simp
  show ?case
  proof (cases "js ! n = 0")
    case True
    then show ?thesis using Cons.IH [of r s i] Cons.prems ix by auto
  next
    case False
    have v: "valid_mm_idx (mm_features r) (int n * bs) i"
      using valid_mm_idx_mono [OF Cons.prems(4)] Cons.prems(6) by simp
    obtain j m where g: "generate_block_hash_extra_keys env r (int n * bs) (int n * bs + bs) i =
        Inr (block_extra_keys env r (int n * bs) (int n * bs + bs), j, r\<lparr>prompt_embeds_per_block_hashes := m\<rparr>)"
      "valid_mm_idx (mm_features r) (int n * bs + bs) j"
      "memo_ok env (r\<lparr>prompt_embeds_per_block_hashes := m\<rparr>)"
      using generate_block_hash_extra_keys_spec [OF Cons.prems(2,3) v, of "int n * bs + bs"] Cons.prems(1) by auto
    let ?r = "r\<lparr>prompt_embeds_per_block_hashes := m\<rparr>"
    have "int n * bs + bs \<le> int l * bs" if "l \<in> set ns" for l
    proof -
      have "int n + 1 \<le> int l" using that Cons.prems(5,8) by (force simp: le_less)
      then have "(int n + 1) * bs \<le> int l * bs" using Cons.prems(1) by (intro mult_right_mono) auto
      then show ?thesis by (simp add: algebra_simps)
    qed
    then obtain m' where m': "event_keys env bs (map Blk js) p ns j ?r =
        Inr (map (\<lambda>n. block_extra_keys env ?r (int n * bs) (int n * bs + bs)) (filter (\<lambda>n. js ! n \<noteq> 0) ns),
          ?r\<lparr>prompt_embeds_per_block_hashes := m'\<rparr>)"
      "memo_ok env (?r\<lparr>prompt_embeds_per_block_hashes := m'\<rparr>)"
      using Cons.IH [of ?r "int n * bs + bs" j] Cons.prems g(2,3) by auto
    have "block_extra_keys env ?r a b = block_extra_keys env r a b" for a b by (rule block_keys_cong) simp_all
    then show ?thesis using m' g(1) ix False Cons.prems(7) by (intro exI [of _ m']) simp
  qed
qed

text \<open>What a caller of \<^verbatim>\<open>cache_full_blocks\<close> provides.\<close>

definition cacheable :: "hash_env \<Rightarrow> request \<Rightarrow> nat list \<Rightarrow> nat \<Rightarrow> nat \<Rightarrow> int \<Rightarrow> hash_list \<Rightarrow> block_pool \<Rightarrow> bool" where
  "cacheable env r js nc nf bs hl p \<longleftrightarrow> nf \<le> length js \<and> nf \<le> length (block_hashes r) \<and> 0 < bs \<and>
     group_hashes (hash_block_size p) bs (block_hashes r) = Inr hl \<and> hash_list_ok hl \<and>
     nf \<le> length (hash_values hl) \<and>
     (\<forall>j\<in>set (take (nf - nc) (drop nc js)). j < pool_size p \<and> (j \<noteq> 0 \<longrightarrow> hash_of p j = None)) \<and>
     distinct (filter (\<lambda>j. j \<noteq> 0) (take (nf - nc) (drop nc js))) \<and>
     (enable_kv_cache_events p \<longrightarrow> memo_ok env r \<and> mm_wf (mm_features r))"

lemma cache_full_blocks_spec:
  assumes inv: "pool_inv p xs" and g: "group_id_ok g" and nc: "nc < nf"
    and c: "cacheable env r js nc nf bs hl p"
  shows "\<exists>p' m. cache_full_blocks env r (map Blk js) (int nc) (int nf) bs g p =
      Inr (p', r\<lparr>prompt_embeds_per_block_hashes := m\<rparr>) \<and>
    pool_inv p' xs \<and> same_config p p' \<and> (\<forall>j. ref p' j = ref p j) \<and>
    (\<forall>j. j = 0 \<or> j \<notin> set (take (nf - nc) (drop nc js)) \<longrightarrow> hash_of p' j = hash_of p j) \<and>
    (\<forall>n. nc \<le> n \<and> n < nf \<and> js ! n \<noteq> 0 \<longrightarrow> hash_of p' (js ! n) = Some (packed (hash_values hl ! n) g)) \<and>
    (memo_ok env r \<longrightarrow> memo_ok env (r\<lparr>prompt_embeds_per_block_hashes := m\<rparr>))"
proof -
  let ?ns = "take (nf - nc) (drop nc js)" and ?hs = "drop nc (hash_values hl)"
  note C = c [unfolded cacheable_def]
  have "nf \<le> length js" using C by blast
  then have len: "length ?ns = nf - nc" by simp
  have sl: "py_slice (map Blk js) (int nc) (int nf) = map Blk ?ns"
    using py_slice_nat [of nc nf "map Blk js"] C nc by (simp add: take_map drop_map)
  have pre: "\<forall>j\<in>set ?ns. j < pool_size p" "\<forall>j\<in>set ?ns. j \<noteq> 0 \<longrightarrow> hash_of p j = None"
    "distinct (filter (\<lambda>j. j \<noteq> 0) ?ns)" "0 + length ?ns \<le> length ?hs"
    using C len by (simp_all add: diff_le_mono)
  obtain p1 where p1: "cache_loop g ?hs 0 (map Blk ?ns) p =
      Inr (map snd (filter (\<lambda>(j, h). j \<noteq> 0) (zip ?ns (drop 0 ?hs))), p1)"
    "pool_inv p1 xs" "same_config p p1" "\<forall>j. ref p1 j = ref p j"
    "\<forall>j. j = 0 \<or> j \<notin> set ?ns \<longrightarrow> hash_of p1 j = hash_of p j"
    "\<forall>m<length ?ns. ?ns ! m \<noteq> 0 \<longrightarrow> hash_of p1 (?ns ! m) = Some (packed (?hs ! (0 + m)) g)"
    using cache_loop_spec [OF inv g pre] by blast
  have keys: "hash_of p1 (js ! n) = Some (packed (hash_values hl ! n) g)"
    if "nc \<le> n" "n < nf" "js ! n \<noteq> 0" for n
    using p1(6) [rule_format, of "n - nc"] that C len by (simp add: less_diff_conv2)
  have frm: "hash_list_from hl (int nc) = Inr ?hs" using hash_list_from_spec C by blast
  show ?thesis
  proof (cases "enable_kv_cache_events p")
    case False
    then have "cache_full_blocks env r (map Blk js) (int nc) (int nf) bs g p = Inr (p1, r)"
      using nc C p1(1) frm by (simp add: cache_full_blocks_def sl Let_def)
    then show ?thesis using p1 keys
      by (intro exI [of _ p1] exI [of _ "prompt_embeds_per_block_hashes r"]) simp
  next
    case True
    note P1 = pool_invD [OF p1(2)]
    obtain m where m: "event_keys env bs (map Blk js) p1 [nc..<nf] 0 r =
        Inr (map (\<lambda>n. block_extra_keys env r (int n * bs) (int n * bs + bs)) (filter (\<lambda>n. js ! n \<noteq> 0) [nc..<nf]),
          r\<lparr>prompt_embeds_per_block_hashes := m\<rparr>)" "memo_ok env (r\<lparr>prompt_embeds_per_block_hashes := m\<rparr>)"
      using event_keys_spec [of bs env r 0 0 "[nc..<nf]" js p1] C True P1(10)
      by (auto simp: valid_mm_idx_def)
    have "\<exists>pa. (if nc = 0 then Inr None else and_then (hash_list_at hl (int nc - 1))
        (\<lambda>h. Inr (Some (maybe_convert_block_hash (use_int_hashes p) h)))) = Inr pa"
    proof (cases "nc = 0")
      case False
      then have e: "int nc - 1 = int (nc - 1)" by simp
      have "hash_list_ok hl" "nc - 1 < length (hash_values hl)" using C nc by auto
      then have "hash_list_at hl (int nc - 1) = Inr (hash_values hl ! (nc - 1))"
        unfolding e by (rule hash_list_at_spec)
      then show ?thesis using False by simp
    qed simp
    then obtain pa where pa: "(if nc = 0 then Inr None else and_then (hash_list_at hl (int nc - 1))
        (\<lambda>h. Inr (Some (maybe_convert_block_hash (use_int_hashes p) h)))) = Inr pa" by blast
    have "\<exists>q. cache_full_blocks env r (map Blk js) (int nc) (int nf) bs g p =
        Inr (p1\<lparr>kv_event_queue := q\<rparr>, r\<lparr>prompt_embeds_per_block_hashes := m\<rparr>)"
      using nc C p1(1) frm True pa m(1) by (simp add: cache_full_blocks_def sl Let_def) blast
    then obtain q where q: "cache_full_blocks env r (map Blk js) (int nc) (int nf) bs g p =
        Inr (p1\<lparr>kv_event_queue := q\<rparr>, r\<lparr>prompt_embeds_per_block_hashes := m\<rparr>)" by blast
    have "pool_inv (p1\<lparr>kv_event_queue := q\<rparr>) xs"
      using p1(2) cache_ok_cong [of "p1\<lparr>kv_event_queue := q\<rparr>" p1]
      by (simp add: pool_inv_def blocks_ok_def)
    then show ?thesis using q p1 keys m(2)
      by (intro exI [of _ "p1\<lparr>kv_event_queue := q\<rparr>"] exI [of _ m]) (simp add: same_config_def)
  qed
qed

section \<open>Reachable pools\<close>

text \<open>
  Every sequence of calls the managers make, each under its caller's duty: allocate a number of
  blocks, touch blocks of the pool, give back references that are held, register full blocks,
  evict by id, reset.
\<close>

inductive pool_reach :: "block_pool \<Rightarrow> bool" where
  reach_init: "BlockPool n caching hbs events ih = Inr p \<Longrightarrow> pool_reach p"
| reach_new: "pool_reach p \<Longrightarrow> 0 \<le> n \<Longrightarrow> get_new_blocks n p = Inr (bs, p') \<Longrightarrow> pool_reach p'"
| reach_touch: "pool_reach p \<Longrightarrow> \<forall>j\<in>set js. j < pool_size p \<Longrightarrow> touch (map Blk js) p = Inr p' \<Longrightarrow>
    pool_reach p'"
| reach_free: "pool_reach p \<Longrightarrow> \<forall>j\<in>set js. j < pool_size p \<and> (j \<noteq> 0 \<longrightarrow> 0 < ref p j) \<Longrightarrow>
    distinct (filter (\<lambda>j. j \<noteq> 0) js) \<Longrightarrow> free_blocks (map Blk js) p = Inr p' \<Longrightarrow> pool_reach p'"
| reach_cache: "pool_reach p \<Longrightarrow> group_id_ok g \<Longrightarrow> cacheable env r js nc nf bs hl p \<Longrightarrow>
    cache_full_blocks env r (map Blk js) (int nc) (int nf) bs g p = Inr (p', r') \<Longrightarrow> pool_reach p'"
| reach_evict: "pool_reach p \<Longrightarrow> \<forall>j\<in>set js. j < pool_size p \<Longrightarrow>
    evict_blocks (map int js) p = Inr p' \<Longrightarrow> pool_reach p'"
| reach_reset: "pool_reach p \<Longrightarrow> reset_prefix_cache p = (ok, p') \<Longrightarrow> pool_reach p'"
| reach_events: "pool_reach p \<Longrightarrow> take_events p = (es, p') \<Longrightarrow> pool_reach p'"

lemma get_new_blocks_total:
  assumes "pool_inv p xs" "0 \<le> n" "n \<le> num_free_blocks p"
  shows "\<exists>p'. get_new_blocks n p = Inr (map Blk (take (nat n) xs), p') \<and> pool_inv p' (drop (nat n) xs) \<and>
    same_config p p' \<and> (\<forall>j. ref p' j = (if j \<in> set (take (nat n) xs) then 1 else ref p j)) \<and>
    (\<forall>j. hash_of p' j = (if j \<in> set (take (nat n) xs) \<and> enable_caching p then None else hash_of p j))"
proof -
  have "nat n \<le> length xs" using assms pool_invD(6) [OF assms(1)] by linarith
  then have "int (length (take (nat n) xs)) = n" using assms(2) by simp
  with get_new_blocks_spec [of p "take (nat n) xs" "drop (nat n) xs"] assms(1) show ?thesis by simp
qed

lemma pool_reach_inv: "pool_reach p \<Longrightarrow> \<exists>xs. pool_inv p xs"
proof (induction rule: pool_reach.induct)
  case (reach_init n caching hbs events ih p)
  then have n: "0 < n" by (auto simp: BlockPool_def and_then_eq_Inr py_assert_def split: if_splits)
  obtain q where "BlockPool n caching hbs events ih = Inr q" "pool_inv q [1..<nat n]"
    by (rule BlockPool_inv [OF n])
  then show ?case using reach_init by auto
next
  case (reach_new p n bs p')
  then obtain xs where inv: "pool_inv p xs" by blast
  have "n \<le> num_free_blocks p"
    using reach_new.hyps(3) by (auto simp: get_new_blocks_def get_num_free_blocks_def split: if_splits)
  from get_new_blocks_total [OF inv reach_new.hyps(2) this] reach_new.hyps(3) show ?case by auto
next
  case (reach_touch p js p')
  then obtain xs where inv: "pool_inv p xs" by blast
  from touch_spec [OF inv reach_touch.hyps(2)] reach_touch.hyps(3) show ?case by auto
next
  case (reach_free p js p')
  then obtain xs where inv: "pool_inv p xs" by blast
  have "\<forall>j\<in>set js. j < pool_size p" "\<forall>j\<in>set js. j \<noteq> 0 \<longrightarrow> 0 < ref p j" using reach_free.hyps(2) by auto
  from free_blocks_spec [OF inv this reach_free.hyps(3)] reach_free.hyps(4) show ?case by auto
next
  case (reach_cache p g env r js nc nf bs hl p' r')
  then obtain xs where inv: "pool_inv p xs" by blast
  show ?case
  proof (cases "nc < nf")
    case True
    from cache_full_blocks_spec [OF inv reach_cache.hyps(2) True reach_cache.hyps(3)] reach_cache.hyps(4)
    show ?thesis by auto
  next
    case False
    then have "p' = p" using reach_cache.hyps(4) by (simp add: cache_full_blocks_def)
    then show ?thesis using inv by blast
  qed
next
  case (reach_evict p js p')
  then obtain xs where inv: "pool_inv p xs" by blast
  from evict_blocks_spec [OF inv reach_evict.hyps(2)] reach_evict.hyps(3) show ?case by auto
next
  case (reach_reset p ok p')
  then obtain xs where inv: "pool_inv p xs" by blast
  from reset_prefix_cache_spec(2) [OF inv reach_reset.hyps(2)] show ?case by blast
next
  case (reach_events p es p')
  then obtain xs where inv: "pool_inv p xs" by blast
  have "p' = p \<or> p' = p\<lparr>kv_event_queue := []\<rparr>"
    using reach_events.hyps(2) by (auto simp: take_events_def split: if_splits)
  moreover have "pool_inv (p\<lparr>kv_event_queue := []\<rparr>) xs"
    using inv cache_ok_cong [of "p\<lparr>kv_event_queue := []\<rparr>" p] by (simp add: pool_inv_def blocks_ok_def)
  ultimately show ?case using inv by blast
qed

text \<open>A small pool for the witnesses: three blocks and the null block.\<close>

definition small_pool :: block_pool where
  "small_pool = (case BlockPool 4 True 2 False False of Inr p \<Rightarrow> p | Inl _ \<Rightarrow> undefined)"

lemma small_pool:
  "pool_reach small_pool" "pool_inv small_pool [1, 2, 3]" "num_gpu_blocks small_pool = 4"
  "ref small_pool i = 0" "hash_of small_pool i = None" "num_free_blocks small_pool = 3"
  "enable_caching small_pool" "hash_block_size small_pool = 2" "\<not> enable_kv_cache_events small_pool"
proof -
  obtain p where p: "BlockPool 4 True 2 False False = Inr p" "pool_inv p [1..<nat 4]"
    "num_gpu_blocks p = 4" "\<And>i. ref p i = 0" "\<And>i. hash_of p i = None" "enable_caching p = True"
    "hash_block_size p = 2" "enable_kv_cache_events p = False"
    by (rule BlockPool_inv [of 4 True 2 False False]) auto
  have sp: "small_pool = p" by (simp add: small_pool_def p(1))
  have up: "[1..<nat 4] = [1, 2, 3]" by (simp add: upt_rec)
  show "pool_reach small_pool" unfolding sp by (rule reach_init [OF p(1)])
  show "pool_inv small_pool [1, 2, 3]" using p(2) unfolding sp up .
  then show "num_free_blocks small_pool = 3" using pool_invD(6) by fastforce
  show "num_gpu_blocks small_pool = 4" "ref small_pool i = 0" "hash_of small_pool i = None"
    "enable_caching small_pool" "hash_block_size small_pool = 2" "\<not> enable_kv_cache_events small_pool"
    unfolding sp using p by simp_all
qed

section \<open>Properties\<close>

text \<open>
  C8: in every reachable pool the free list contains, each once, exactly the blocks other than the
  null block that nobody refers to, and the counter is their number; and the hash table finds a
  block for a hash exactly when some block carries it, and then returns a block that does.
\<close>

theorem pool_consistent:
  assumes "pool_reach p"
  shows "\<exists>xs. get_all_free_blocks p = Some (Inr (map Blk xs)) \<and> distinct xs \<and>
    num_free_blocks p = int (length xs) \<and> set xs = {i. 0 < i \<and> i < pool_size p \<and> ref p i = 0} \<and>
    (\<forall>k. \<exists>r. get_one_block (cached_block_hash_to_block p) k = Inr r \<and>
       (r = None \<longleftrightarrow> (\<forall>i. hash_of p i \<noteq> Some k)) \<and>
       (\<forall>b. r = Some b \<longrightarrow> (\<exists>i. b = Blk i \<and> 0 < i \<and> i < pool_size p \<and> hash_of p i = Some k)))"
proof -
  obtain xs where inv: "pool_inv p xs" using pool_reach_inv [OF assms] by blast
  note P = pool_invD [OF inv]
  have wf: "cache_wf (ident_in p) (cached_block_hash_to_block p)"
    and n: "nodes_at (cached_block_hash_to_block p) k = {Blk i | i. hash_of p i = Some k}"
    and rng: "hash_of p i = Some k \<Longrightarrow> i \<in> {0<..<pool_size p}" for i k
    using P(3) by (auto simp: cache_ok_def)
  have "\<exists>r. get_one_block (cached_block_hash_to_block p) k = Inr r \<and>
       (r = None \<longleftrightarrow> (\<forall>i. hash_of p i \<noteq> Some k)) \<and>
       (\<forall>b. r = Some b \<longrightarrow> (\<exists>i. b = Blk i \<and> 0 < i \<and> i < pool_size p \<and> hash_of p i = Some k))" for k
    using get_one_block_nodes [OF wf, of k] rng [of _ k] unfolding n by fastforce
  moreover have "set xs = {i. 0 < i \<and> i < pool_size p \<and> ref p i = 0}" using P(5,12) by auto
  ultimately show ?thesis using get_all_free_blocks_spells [OF P(1)] P(4,6) by blast
qed

theorem pool_consistent_witness:
  "\<exists>xs. get_all_free_blocks small_pool = Some (Inr (map Blk xs)) \<and> distinct xs \<and>
     num_free_blocks small_pool = int (length xs) \<and> set xs = {i. 0 < i \<and> i < 4}"
  using pool_consistent [OF small_pool(1)] by (auto simp: small_pool(3,4))

text \<open>
  C18: allocation fails with \<^verbatim>\<open>ValueError\<close> exactly when too few blocks are free; otherwise it returns
  the requested number of distinct blocks that nobody referred to, now referred to once and (with
  caching) removed from the prefix cache, and changes no other block.
\<close>

theorem get_new_blocks_correct:
  assumes "pool_reach p" and "0 \<le> n"
  shows "(num_free_blocks p < n \<longrightarrow> get_new_blocks n p = Inl ValueError) \<and>
    (n \<le> num_free_blocks p \<longrightarrow> (\<exists>js p'. get_new_blocks n p = Inr (map Blk js, p') \<and> distinct js \<and>
       int (length js) = n \<and> num_free_blocks p' = num_free_blocks p - n \<and>
       (\<forall>j\<in>set js. 0 < j \<and> j < pool_size p \<and> ref p j = 0 \<and> ref p' j = 1 \<and>
          (enable_caching p \<longrightarrow> hash_of p' j = None)) \<and>
       (\<forall>j. j \<notin> set js \<longrightarrow> ref p' j = ref p j \<and> hash_of p' j = hash_of p j)))"
proof (intro conjI impI)
  show "num_free_blocks p < n \<Longrightarrow> get_new_blocks n p = Inl ValueError" by (rule get_new_blocks_too_many)
next
  assume n: "n \<le> num_free_blocks p"
  obtain xs where inv: "pool_inv p xs" using pool_reach_inv [OF assms(1)] by blast
  note P = pool_invD [OF inv]
  from get_new_blocks_total [OF inv assms(2) n] obtain p' where p':
    "get_new_blocks n p = Inr (map Blk (take (nat n) xs), p')" "pool_inv p' (drop (nat n) xs)"
    "\<forall>j. ref p' j = (if j \<in> set (take (nat n) xs) then 1 else ref p j)"
    "\<forall>j. hash_of p' j = (if j \<in> set (take (nat n) xs) \<and> enable_caching p then None else hash_of p j)"
    by blast
  have "0 < j \<and> j < pool_size p \<and> ref p j = 0" if "j \<in> set (take (nat n) xs)" for j
  proof -
    have "j \<in> set xs" using that by (rule in_set_takeD)
    then show ?thesis using P(5) P(12) [of j] by auto
  qed
  moreover have "int (length (take (nat n) xs)) = n" "num_free_blocks p' = num_free_blocks p - n"
    using n assms(2) P(6) pool_invD(6) [OF p'(2)] by auto
  ultimately show "\<exists>js p'. get_new_blocks n p = Inr (map Blk js, p') \<and> distinct js \<and>
       int (length js) = n \<and> num_free_blocks p' = num_free_blocks p - n \<and>
       (\<forall>j\<in>set js. 0 < j \<and> j < pool_size p \<and> ref p j = 0 \<and> ref p' j = 1 \<and>
          (enable_caching p \<longrightarrow> hash_of p' j = None)) \<and>
       (\<forall>j. j \<notin> set js \<longrightarrow> ref p' j = ref p j \<and> hash_of p' j = hash_of p j)"
    using p' P(4) by (intro exI [of _ "take (nat n) xs"] exI [of _ p']) auto
qed

theorem get_new_blocks_correct_witness:
  "get_new_blocks 5 small_pool = Inl ValueError \<and>
   (\<exists>js p'. get_new_blocks 2 small_pool = Inr (map Blk js, p') \<and> distinct js \<and> length js = 2 \<and>
     num_free_blocks p' = 1)"
  using get_new_blocks_correct [OF small_pool(1), of 5] get_new_blocks_correct [OF small_pool(1), of 2]
  by (auto simp: small_pool(6))

text \<open>
  C20: touching cached blocks and giving them back leaves every reference count and every hash as
  it was, and moves the blocks that were free to the end of the eviction order.
\<close>

theorem touch_free_roundtrip:
  assumes "pool_inv p xs" and "distinct js" and "\<forall>j\<in>set js. 0 < j \<and> j < pool_size p"
  shows "\<exists>p1 p2. touch (map Blk js) p = Inr p1 \<and> free_blocks (map Blk js) p1 = Inr p2 \<and>
    (\<forall>j. ref p2 j = ref p j \<and> hash_of p2 j = hash_of p j) \<and>
    get_all_free_blocks p2 = Some (Inr (map Blk (filter (\<lambda>x. x \<notin> set js) xs @ filter (\<lambda>x. ref p x = 0) js)))"
proof -
  have sz: "\<forall>j\<in>set js. j < pool_size p" using assms(3) by blast
  obtain p1 where p1: "touch (map Blk js) p = Inr p1" "pool_inv p1 (filter (\<lambda>x. x \<notin> set js) xs)"
    "same_config p p1" "\<forall>j. ref p1 j = ref p j + int (count_list js j)" "\<forall>j. hash_of p1 j = hash_of p j"
    using touch_spec [OF assms(1) sz] by blast
  have one: "count_list js j = (if j \<in> set js then 1 else 0)" for j
    using assms(2) by (rule distinct_count_list)
  have "0 \<le> ref p j" if "j \<in> set js" for j
    using pool_invD(11) [OF assms(1), of j] assms(3) that by auto
  then have held: "\<forall>j\<in>set js. j \<noteq> 0 \<longrightarrow> 0 < ref p1 j" using p1(4) one by fastforce
  have sz1: "\<forall>j\<in>set js. j < pool_size p1" using sz p1(3) by (simp add: same_config_def)
  have d: "distinct (filter (\<lambda>j. j \<noteq> 0) js)" using assms(2) by simp
  obtain p2 where p2: "free_blocks (map Blk js) p1 = Inr p2"
    "pool_inv p2 (filter (\<lambda>x. x \<notin> set js) xs @ filter (\<lambda>i. i \<noteq> 0 \<and> ref p1 i = 1) js)"
    "\<forall>j. ref p2 j = ref p1 j - int (count_list js j)" "\<forall>j. hash_of p2 j = hash_of p1 j"
    using free_blocks_spec [OF p1(2) sz1 held d] by blast
  have "filter (\<lambda>i. i \<noteq> 0 \<and> ref p1 i = 1) js = filter (\<lambda>x. ref p x = 0) js"
    using p1(4) one assms(3) by (intro filter_cong) auto
  then show ?thesis
    using p1(1,4,5) p2(1,3,4) get_all_free_blocks_spells [OF pool_invD(1) [OF p2(2)]] by auto
qed

theorem touch_free_roundtrip_witness:
  "\<exists>p1 p2. touch [Blk 2, Blk 1] small_pool = Inr p1 \<and> free_blocks [Blk 2, Blk 1] p1 = Inr p2 \<and>
    get_all_free_blocks p2 = Some (Inr [Blk 3, Blk 2, Blk 1])"
  using touch_free_roundtrip [OF small_pool(2), of "[2, 1]"] by (auto simp: small_pool(3,4))

text \<open>
  C19: after the full blocks of a request are registered, looking up the hash of any of them finds
  a block that carries that hash for that group; reference counts and all other hashes are
  untouched, and the call does not fail.
\<close>

theorem cached_blocks_are_found:
  assumes "pool_reach p" and "group_id_ok g" and "nc < nf" and "cacheable env r js nc nf bs hl p"
  shows "\<exists>p' r'. cache_full_blocks env r (map Blk js) (int nc) (int nf) bs g p = Inr (p', r') \<and>
    (\<forall>j. ref p' j = ref p j) \<and>
    (\<forall>j. j \<notin> set (take (nf - nc) (drop nc js)) \<longrightarrow> hash_of p' j = hash_of p j) \<and>
    (\<forall>n. nc \<le> n \<and> n < nf \<and> js ! n \<noteq> 0 \<longrightarrow>
       (\<exists>i. get_cached_block p' (hash_values hl ! n) [g] = Inr (Some [Blk i]) \<and>
            hash_of p' i = Some (packed (hash_values hl ! n) g)))"
proof -
  obtain xs where inv: "pool_inv p xs" using pool_reach_inv [OF assms(1)] by blast
  from cache_full_blocks_spec [OF inv assms(2-4)] obtain p' m where p':
    "cache_full_blocks env r (map Blk js) (int nc) (int nf) bs g p =
      Inr (p', r\<lparr>prompt_embeds_per_block_hashes := m\<rparr>)" "pool_inv p' xs" "\<forall>j. ref p' j = ref p j"
    "\<forall>j. j = 0 \<or> j \<notin> set (take (nf - nc) (drop nc js)) \<longrightarrow> hash_of p' j = hash_of p j"
    "\<forall>n. nc \<le> n \<and> n < nf \<and> js ! n \<noteq> 0 \<longrightarrow> hash_of p' (js ! n) = Some (packed (hash_values hl ! n) g)"
    by blast
  have "\<exists>i. get_cached_block p' (hash_values hl ! n) [g] = Inr (Some [Blk i]) \<and>
      hash_of p' i = Some (packed (hash_values hl ! n) g)"
    if "nc \<le> n" "n < nf" "js ! n \<noteq> 0" for n
  proof -
    have "hash_of p' (js ! n) = Some (packed (hash_values hl ! n) g)" using p'(5) that by blast
    moreover have "\<forall>g\<in>set [g]. group_id_ok g" using assms(2) by simp
    from get_cached_block_spec [OF pool_invD(3) [OF p'(2)] this, of "hash_values hl ! n"]
    obtain rr where rr: "get_cached_block p' (hash_values hl ! n) [g] = Inr rr"
      "rr = None \<longleftrightarrow> (\<exists>g\<in>set [g]. \<forall>i. hash_of p' i \<noteq> Some (packed (hash_values hl ! n) g))"
      "\<forall>bs. rr = Some bs \<longrightarrow>
        list_all2 (\<lambda>b g. \<exists>i. b = Blk i \<and> hash_of p' i = Some (packed (hash_values hl ! n) g)) bs [g]"
      by blast
    ultimately show ?thesis by (cases rr) (auto simp: list_all2_Cons2)
  qed
  then show ?thesis using p'(1,3,4) by blast
qed

theorem cached_blocks_are_found_witness:
  "\<exists>p' r'. cache_full_blocks unary_env ((base_request ''a'' [7, 8])\<lparr>block_hashes := [[9]]\<rparr>) (map Blk [2])
      (int 0) (int 1) 2 0 small_pool = Inr (p', r') \<and>
    (\<exists>i. get_cached_block p' [9] [0] = Inr (Some [Blk i]) \<and> hash_of p' i = Some (packed [9] 0))"
proof -
  have "cacheable unary_env ((base_request ''a'' [7, 8])\<lparr>block_hashes := [[9]]\<rparr>) [2] 0 1 2 (Fine [[9]]) small_pool"
    by (simp add: cacheable_def small_pool group_hashes_def hash_list_ok_def hash_values_def)
  from cached_blocks_are_found [OF small_pool(1) _ _ this, of 0] show ?thesis
    by (auto simp: group_id_ok_def hash_values_def)
qed

text \<open>
  C21: resetting the prefix cache succeeds exactly when no block but the null block is in use, and
  then no lookup finds a block any more; otherwise nothing changes.
\<close>

theorem reset_prefix_cache_correct:
  assumes "pool_reach p" and "reset_prefix_cache p = (ok, p')"
  shows "(ok \<longleftrightarrow> (\<forall>i. 0 < i \<and> i < pool_size p \<longrightarrow> ref p i = 0)) \<and> (\<not> ok \<longrightarrow> p' = p) \<and>
    (ok \<longrightarrow> (\<forall>h g gs. group_id_ok g \<longrightarrow> get_cached_block p' h (g # gs) = Inr None))"
proof -
  obtain xs where inv: "pool_inv p xs" using pool_reach_inv [OF assms(1)] by blast
  note R = reset_prefix_cache_spec [OF inv assms(2)]
  have "get_cached_block p' h (g # gs) = Inr None" if "ok" "group_id_ok g" for h g gs
  proof -
    have "\<forall>g\<in>set [g]. group_id_ok g" using that(2) by simp
    from get_cached_block_spec [OF pool_invD(3) [OF R(2)] this, of h] that R(5)
    have "get_cached_block p' h [g] = Inr None" by auto
    then show ?thesis
      by (auto simp: make_packed [OF that(2)] and_then_eq_Inr split: option.splits)
  qed
  moreover have "\<not> ok \<Longrightarrow> p' = p"
    using assms(2) by (auto simp: reset_prefix_cache_def Let_def split: if_splits)
  ultimately show ?thesis using R(1) by auto
qed

theorem reset_prefix_cache_correct_witness:
  "fst (reset_prefix_cache small_pool)"
  using reset_prefix_cache_correct [OF small_pool(1), of "fst (reset_prefix_cache small_pool)"
      "snd (reset_prefix_cache small_pool)"]
  by (simp add: small_pool(4))

text \<open>
  The reported usage is the number of blocks in use over the number of blocks, the null block
  not counted; in particular it lies between 0 and 1.
\<close>

lemma get_usage_correct:
  assumes "pool_reach p" and "1 < num_gpu_blocks p"
  shows "get_usage p = of_nat (card {i. 0 < i \<and> i < pool_size p \<and> 0 < ref p i}) / of_int (num_gpu_blocks p - 1) \<and>
    0 \<le> get_usage p \<and> get_usage p \<le> 1"
proof -
  obtain xs where inv: "pool_inv p xs" using pool_reach_inv [OF assms(1)] by blast
  note P = pool_invD [OF inv]
  let ?U = "{i. 0 < i \<and> i < pool_size p \<and> 0 < ref p i}"
  have fr: "i \<in> set xs \<longleftrightarrow> 0 < i \<and> i < pool_size p \<and> ref p i = 0" for i
    using P(5) P(12) [of i] by auto
  have ge: "0 < ref p i \<or> ref p i = 0" if "0 < i" "i < pool_size p" for i
    using P(11) [of i] that by (simp, linarith)
  have un: "?U \<union> set xs = {0<..<pool_size p}" using ge by (auto simp: fr) blast
  have dj: "?U \<inter> set xs = {}" by (auto simp: fr)
  have "card ?U + length xs = card {0<..<pool_size p}"
    unfolding un [symmetric] using card_Un_disjoint [OF _ _ dj] distinct_card [OF P(4)] by simp
  then have "int (card ?U) + int (length xs) = num_gpu_blocks p - 1" using assms(2) by simp
  then have c: "num_free_blocks p = num_gpu_blocks p - 1 - int (card ?U)" and le: "int (card ?U) \<le> num_gpu_blocks p - 1"
    using P(6) by simp_all
  have pos: "(0 :: rat) < of_int (num_gpu_blocks p - 1)" using assms(2) by simp
  have u: "get_usage p = of_nat (card ?U) / of_int (num_gpu_blocks p - 1)"
    using pos assms(2) by (simp add: get_usage_def get_num_free_blocks_def c field_simps)
  have "(of_int (int (card ?U)) :: rat) \<le> of_int (num_gpu_blocks p - 1)"
    using le by (simp only: of_int_le_iff)
  then have n: "(of_nat (card ?U) :: rat) \<le> of_int (num_gpu_blocks p - 1)"
    by (simp only: of_int_of_nat_eq)
  have "0 \<le> get_usage p" unfolding u by (rule divide_nonneg_pos [OF of_nat_0_le_iff pos])
  moreover have "get_usage p \<le> 1" unfolding u using n pos by (simp only: divide_le_eq_1_pos)
  ultimately show ?thesis using u by blast
qed

end
