(* ===== verification/Cache_Hit.thy ===== *)
theory Cache_Hit
  imports Managers Pool_Invariant
begin

text \<open>
  The prefix-cache lookup of the managers: the class methods \<^verbatim>\<open>find_longest_cache_hit\<close> of
  \<^verbatim>\<open>vllm/v1/core/single_type_kv_cache_manager.py\<close>, one per attention type, and what they promise:
  the hit is aligned, at most as long as asked for, and every block that the attention of the next
  token reads is a cached block with the hash of its position.
\<close>

section \<open>The lookups\<close>

text \<open>
  The blocks of all groups cached under the \<open>i\<close>-th hash. The result of
  \<^verbatim>\<open>block_pool.get_cached_block\<close> is tested for truth, so that an empty list of groups never hits.
\<close>

definition lookup_at :: "block_pool \<Rightarrow> hash_list \<Rightarrow> int list \<Rightarrow> int \<Rightarrow> node list option res" where
  "lookup_at p hl gids i =
     and_then (hash_list_at hl i) (\<lambda>h.
     and_then (get_cached_block p h gids) (\<lambda>r.
       Inr (case r of Some (b # bs) \<Rightarrow> Some (b # bs) | _ \<Rightarrow> None)))"

definition append_each :: "node list list \<Rightarrow> node list \<Rightarrow> node list list" where
  "append_each computed cached = map2 (\<lambda>c b. c @ [b]) computed cached"

definition pop_hits :: "node list list \<Rightarrow> node list list res" where
  "pop_hits computed = (if [] \<in> set computed then Inl IndexError else Inr (map butlast computed))"

text \<open>Appending hits from the indices given, up to the first miss.\<close>

fun append_hits :: "block_pool \<Rightarrow> hash_list \<Rightarrow> int list \<Rightarrow> int list \<Rightarrow> node list list \<Rightarrow> node list list res" where
  "append_hits p hl gids [] computed = Inr computed"
| "append_hits p hl gids (i # idxs) computed =
     and_then (lookup_at p hl gids i) (\<lambda>r.
       case r of
         Some cached \<Rightarrow> append_hits p hl gids idxs (append_each computed cached)
       | None \<Rightarrow> Inr computed)"

text \<open>
  The loop that pops blocks until the hit is aligned; the first argument is the length of
  \<^verbatim>\<open>computed_blocks[0]\<close>, at which the test is false when it reaches zero.
\<close>

fun align_loop :: "nat \<Rightarrow> int \<Rightarrow> int \<Rightarrow> node list list \<Rightarrow> node list list res" where
  "align_loop 0 bs alignment computed = Inr computed"
| "align_loop (Suc n) bs alignment computed =
     (if bs \<noteq> alignment \<and> int (Suc n) * bs mod alignment \<noteq> 0
      then and_then (pop_hits computed) (align_loop n bs alignment)
      else Inr computed)"

definition align_hits :: "int \<Rightarrow> int \<Rightarrow> node list list \<Rightarrow> node list list res" where
  "align_hits bs alignment computed =
     (if bs = alignment then Inr computed
      else and_then (py_index computed 0) (\<lambda>c. align_loop (length c) bs alignment computed))"

definition full_find_longest_cache_hit ::
  "hash_list \<Rightarrow> int \<Rightarrow> int list \<Rightarrow> block_pool \<Rightarrow> int \<Rightarrow> bool \<Rightarrow> int \<Rightarrow> int \<Rightarrow> int \<Rightarrow> node list list res" where
  "full_find_longest_cache_hit hl max_length gids p spec_bs use_eagle alignment dcp pcp =
     (let bs = (if dcp * pcp > 1 then spec_bs * (dcp * pcp) else spec_bs);
          max_num_blocks = max_length div bs
      in if max_num_blocks < 0 then Inl ValueError
         else and_then (append_hits p hl gids [0..min max_num_blocks (hash_list_len hl) - 1]
                  (map (\<lambda>_. []) gids)) (\<lambda>computed.
              and_then (if use_eagle
                        then and_then (py_index computed 0)
                               (\<lambda>c. if c \<noteq> [] then pop_hits computed else Inr computed)
                        else Inr computed)
                (align_hits bs alignment)))"

text \<open>
  The search from the right for enough contiguous blocks, at index \<open>i\<close> below its first argument:
  whether a match was found, the number of contiguous blocks, and the lists.
\<close>

fun swa_loop ::
  "nat \<Rightarrow> block_pool \<Rightarrow> hash_list \<Rightarrow> int list \<Rightarrow> int \<Rightarrow> int \<Rightarrow> int \<Rightarrow> nat \<Rightarrow> node list list \<Rightarrow>
   (bool \<times> nat \<times> node list list) res" where
  "swa_loop 0 p hl gids bs alignment need contiguous computed = Inr (False, contiguous, computed)"
| "swa_loop (Suc i) p hl gids bs alignment need contiguous computed =
     and_then (lookup_at p hl gids (int i)) (\<lambda>r.
       case r of
         Some cached \<Rightarrow>
           if contiguous = 0 \<and> bs \<noteq> alignment \<and> (int i + 1) * bs mod alignment \<noteq> 0
           then swa_loop i p hl gids bs alignment need contiguous computed
           else let computed' = map2 (\<lambda>c b. c[i := b]) computed cached;
                    contiguous' = contiguous + 1
                in if int contiguous' \<ge> need
                   then Inr (True, contiguous', map (take (i + contiguous')) computed')
                   else swa_loop i p hl gids bs alignment need contiguous' computed'
       | None \<Rightarrow> swa_loop i p hl gids bs alignment need 0 computed)"

definition swa_find_longest_cache_hit ::
  "hash_list \<Rightarrow> int \<Rightarrow> int list \<Rightarrow> block_pool \<Rightarrow> int \<Rightarrow> int \<Rightarrow> bool \<Rightarrow> int \<Rightarrow> int \<Rightarrow> int \<Rightarrow>
   node list list res" where
  "swa_find_longest_cache_hit hl max_length gids p bs window use_eagle alignment dcp pcp =
     and_then (py_assert (dcp = 1)) (\<lambda>_. and_then (py_assert (pcp = 1)) (\<lambda>_.
     let need = cdiv (window - 1) bs + (if use_eagle then 1 else 0);
         max_num_blocks = nat (max_length div bs);
         computed0 = map (\<lambda>_. replicate max_num_blocks (null_block p)) gids
     in and_then (swa_loop max_num_blocks p hl gids bs alignment need 0 computed0)
          (\<lambda>(match_found, contiguous, computed).
        and_then (if match_found then Inr computed
                  else align_hits bs alignment (map (take contiguous) computed)) (\<lambda>computed1.
        if use_eagle
        then and_then (py_index computed1 0) (\<lambda>c.
               if c \<noteq> [] then and_then (pop_hits computed1) (align_hits bs alignment)
               else Inr computed1)
        else Inr computed1))))"

definition chunked_find_longest_cache_hit ::
  "hash_list \<Rightarrow> int \<Rightarrow> int list \<Rightarrow> block_pool \<Rightarrow> int \<Rightarrow> int \<Rightarrow> bool \<Rightarrow> int \<Rightarrow> int \<Rightarrow> int \<Rightarrow>
   node list list res" where
  "chunked_find_longest_cache_hit hl max_length gids p bs chunk use_eagle alignment dcp pcp =
     and_then (py_assert (\<not> use_eagle)) (\<lambda>_. and_then (py_assert (dcp = 1)) (\<lambda>_.
     and_then (py_assert (pcp = 1)) (\<lambda>_. and_then (py_assert (bs = alignment)) (\<lambda>_.
     let max_num_blocks = max_length div bs;
         local_attention_start_idx = (if max_length > 0 then max_length div chunk * chunk else 0);
         start = local_attention_start_idx div bs
     in append_hits p hl gids [start..max_num_blocks - 1]
          (map (\<lambda>_. replicate (nat start) (null_block p)) gids)))))"

text \<open>The last aligned hit of a state-space layer, at an index below the first argument.\<close>

fun mamba_loop :: "nat \<Rightarrow> block_pool \<Rightarrow> hash_list \<Rightarrow> int list \<Rightarrow> int \<Rightarrow> int \<Rightarrow> node list list res" where
  "mamba_loop 0 p hl gids bs alignment = Inr (map (\<lambda>_. []) gids)"
| "mamba_loop (Suc i) p hl gids bs alignment =
     and_then (lookup_at p hl gids (int i)) (\<lambda>r.
       case r of
         Some cached \<Rightarrow>
           if bs \<noteq> alignment \<and> (int i + 1) * bs mod alignment \<noteq> 0
           then mamba_loop i p hl gids bs alignment
           else Inr (map2 (\<lambda>_ b. replicate i (null_block p) @ [b]) gids cached)
       | None \<Rightarrow> mamba_loop i p hl gids bs alignment)"

definition mamba_find_longest_cache_hit ::
  "hash_list \<Rightarrow> int \<Rightarrow> int list \<Rightarrow> block_pool \<Rightarrow> int \<Rightarrow> int \<Rightarrow> int \<Rightarrow> int \<Rightarrow> node list list res" where
  "mamba_find_longest_cache_hit hl max_length gids p bs alignment dcp pcp =
     and_then (py_assert (dcp = 1)) (\<lambda>_. and_then (py_assert (pcp = 1)) (\<lambda>_.
       mamba_loop (nat (max_length div bs)) p hl gids bs alignment))"

definition find_longest_cache_hit ::
  "hash_list \<Rightarrow> int \<Rightarrow> int list \<Rightarrow> block_pool \<Rightarrow> kv_cache_spec \<Rightarrow> bool \<Rightarrow> int \<Rightarrow> int \<Rightarrow> int \<Rightarrow>
   node list list res" where
  "find_longest_cache_hit hl max_length gids p spec use_eagle alignment dcp pcp =
     (case spec of
        SlidingWindowSpec bs w \<Rightarrow>
          swa_find_longest_cache_hit hl max_length gids p bs w use_eagle alignment dcp pcp
      | ChunkedLocalAttentionSpec bs c \<Rightarrow>
          chunked_find_longest_cache_hit hl max_length gids p bs c use_eagle alignment dcp pcp
      | MambaSpec bs mode n \<Rightarrow> mamba_find_longest_cache_hit hl max_length gids p bs alignment dcp pcp
      | CrossAttentionSpec bs \<Rightarrow> Inl NotImplementedError
      | _ \<Rightarrow> full_find_longest_cache_hit hl max_length gids p (spec_block_size spec) use_eagle
               alignment dcp pcp)"

section \<open>Rows of blocks\<close>

text \<open>
  The lists of all groups grow and shrink together: \<open>columns f n G\<close> are the \<open>G\<close> lists whose \<open>i\<close>-th
  blocks are the row \<open>f i\<close>.
\<close>

definition columns :: "(nat \<Rightarrow> node list) \<Rightarrow> nat \<Rightarrow> nat \<Rightarrow> node list list" where
  "columns f n G = map (\<lambda>g. map (\<lambda>i. f i ! g) [0..<n]) [0..<G]"

definition hit_at :: "block_pool \<Rightarrow> hash_list \<Rightarrow> int list \<Rightarrow> nat \<Rightarrow> node list option" where
  "hit_at p hl gids i = (case lookup_at p hl gids (int i) of Inr r \<Rightarrow> r | Inl _ \<Rightarrow> None)"

abbreviation hit_row :: "block_pool \<Rightarrow> hash_list \<Rightarrow> int list \<Rightarrow> nat \<Rightarrow> node list" where
  "hit_row p hl gids i \<equiv> the (hit_at p hl gids i)"

definition lookups_ok :: "block_pool \<Rightarrow> hash_list \<Rightarrow> int list \<Rightarrow> bool" where
  "lookups_ok p hl gids \<longleftrightarrow> cache_ok p \<and> hash_list_ok hl \<and> gids \<noteq> [] \<and> (\<forall>g\<in>set gids. group_id_ok g)"

lemma length_columns [simp]: "length (columns f n G) = G"
  by (simp add: columns_def)

lemma nth_columns [simp]: "g < G \<Longrightarrow> columns f n G ! g = map (\<lambda>i. f i ! g) [0..<n]"
  by (simp add: columns_def)

lemma hd_columns [simp]: "0 < G \<Longrightarrow> hd (columns f n G) = map (\<lambda>i. f i ! 0) [0..<n]"
  by (simp add: hd_conv_nth flip: length_greater_0_conv)

lemma columns_cong: "(\<And>i. i < n \<Longrightarrow> f i = f' i) \<Longrightarrow> columns f n G = columns f' n G"
  by (simp add: columns_def)

lemma columns_0: "columns f 0 (length gs) = map (\<lambda>_. []) gs"
  by (rule nth_equalityI) simp_all

lemma columns_replicate: "columns (\<lambda>i. replicate (length gs) b) n (length gs) = map (\<lambda>_. replicate n b) gs"
  by (rule nth_equalityI) (simp_all add: map_replicate_trivial)

lemma append_each_columns:
  assumes "length (f n) = G"
  shows "append_each (columns f n G) (f n) = columns f (Suc n) G"
  by (rule nth_equalityI) (simp_all add: append_each_def assms)

lemma pop_hits_columns: "pop_hits (columns f (Suc n) G) = Inr (columns f n G)"
proof -
  have "[] \<notin> set (columns f (Suc n) G)" by (auto simp: columns_def)
  moreover have "map butlast (columns f (Suc n) G) = columns f n G" by (simp add: columns_def)
  ultimately show ?thesis by (simp add: pop_hits_def)
qed

lemma set_columns:
  assumes "length r = G" "i < n"
  shows "map2 (\<lambda>c b. c[i := b]) (columns f n G) r = columns (f(i := r)) n G"
proof (rule nth_equalityI)
  fix g assume "g < length (map2 (\<lambda>c b. c[i := b]) (columns f n G) r)"
  then show "map2 (\<lambda>c b. c[i := b]) (columns f n G) r ! g = columns (f(i := r)) n G ! g"
    using assms by (auto intro!: nth_equalityI simp: nth_list_update)
qed (simp add: assms)

lemma take_columns: "m \<le> n \<Longrightarrow> map (take m) (columns f n G) = columns f m G"
  by (rule nth_equalityI) (simp_all add: take_map min_def)

lemma py_index_columns: "0 < G \<Longrightarrow> py_index (columns f n G) 0 = Inr (map (\<lambda>i. f i ! 0) [0..<n])"
  using py_index_nat [of 0 "columns f n G"] by simp

lemma lookup_at_spec:
  assumes ok: "lookups_ok p hl gids" and i: "i < length (hash_values hl)"
  shows "lookup_at p hl gids (int i) = Inr (hit_at p hl gids i)"
    and "hit_at p hl gids i = Some bs \<Longrightarrow>
      list_all2 (\<lambda>b g. \<exists>j. b = Blk j \<and> hash_of p j = Some (packed (hash_values hl ! i) g)) bs gids"
    and "hit_at p hl gids i = None \<longleftrightarrow>
      (\<exists>g\<in>set gids. \<forall>j. hash_of p j \<noteq> Some (packed (hash_values hl ! i) g))"
proof -
  let ?h = "hash_values hl ! i"
  obtain r where r: "get_cached_block p ?h gids = Inr r"
    "r = None \<longleftrightarrow> (\<exists>g\<in>set gids. \<forall>j. hash_of p j \<noteq> Some (packed ?h g))"
    "\<forall>bs. r = Some bs \<longrightarrow> list_all2 (\<lambda>b g. \<exists>j. b = Blk j \<and> hash_of p j = Some (packed ?h g)) bs gids"
    using get_cached_block_spec [of p gids ?h] ok by (auto simp: lookups_ok_def)
  have nn: "r \<noteq> Some []" using r(3) ok by (auto simp: lookups_ok_def)
  have h: "hash_list_at hl (int i) = Inr ?h" using hash_list_at_spec ok i by (auto simp: lookups_ok_def)
  then have l: "lookup_at p hl gids (int i) = Inr r"
    using r(1) nn by (auto simp: lookup_at_def split: option.splits list.splits)
  then have e: "hit_at p hl gids i = r" by (simp add: hit_at_def)
  show "lookup_at p hl gids (int i) = Inr (hit_at p hl gids i)" using l e by simp
  show "hit_at p hl gids i = Some bs \<Longrightarrow>
      list_all2 (\<lambda>b g. \<exists>j. b = Blk j \<and> hash_of p j = Some (packed ?h g)) bs gids"
    using r(3) e by simp
  show "hit_at p hl gids i = None \<longleftrightarrow> (\<exists>g\<in>set gids. \<forall>j. hash_of p j \<noteq> Some (packed ?h g))"
    using r(2) e by simp
qed

lemma hit_row_length:
  assumes "lookups_ok p hl gids" "i < length (hash_values hl)" "hit_at p hl gids i \<noteq> None"
  shows "length (hit_row p hl gids i) = length gids"
  using lookup_at_spec(2) [OF assms(1,2)] assms(3) by (auto dest: list_all2_lengthD)

section \<open>What the loops compute\<close>

text \<open>The number of leading hits among the indices from \<open>s\<close> to \<open>n\<close>.\<close>

definition hit_run :: "block_pool \<Rightarrow> hash_list \<Rightarrow> int list \<Rightarrow> nat \<Rightarrow> nat \<Rightarrow> nat" where
  "hit_run p hl gids s n = length (takeWhile (\<lambda>i. hit_at p hl gids i \<noteq> None) [s..<n])"

lemma hit_run_facts:
  shows "hit_run p hl gids s n \<le> n - s"
    and "s \<le> j \<Longrightarrow> j < s + hit_run p hl gids s n \<Longrightarrow> hit_at p hl gids j \<noteq> None"
    and "(\<And>j. s \<le> j \<Longrightarrow> j < m \<Longrightarrow> hit_at p hl gids j \<noteq> None) \<Longrightarrow> m \<le> n \<Longrightarrow> m \<le> s + hit_run p hl gids s n"
proof -
  let ?P = "\<lambda>i. hit_at p hl gids i \<noteq> None"
  show le: "hit_run p hl gids s n \<le> n - s"
    using length_takeWhile_le [of ?P "[s..<n]"] by (simp add: hit_run_def)
  show "s \<le> j \<Longrightarrow> j < s + hit_run p hl gids s n \<Longrightarrow> ?P j"
  proof -
    assume j: "s \<le> j" "j < s + hit_run p hl gids s n"
    then have k: "j - s < length (takeWhile ?P [s..<n])" by (simp add: hit_run_def)
    then have "?P (takeWhile ?P [s..<n] ! (j - s))" by (rule set_takeWhileD [OF nth_mem, THEN conjunct2])
    moreover have "takeWhile ?P [s..<n] ! (j - s) = j" using k j le by (simp add: takeWhile_nth)
    ultimately show ?thesis by simp
  qed
  assume all: "\<And>j. s \<le> j \<Longrightarrow> j < m \<Longrightarrow> ?P j" and m: "m \<le> n"
  show "m \<le> s + hit_run p hl gids s n"
  proof (rule ccontr)
    assume "\<not> ?thesis"
    then have lt: "length (takeWhile ?P [s..<n]) < m - s" by (simp add: hit_run_def)
    then have "\<not> ?P ([s..<n] ! length (takeWhile ?P [s..<n]))"
      using m by (intro nth_length_takeWhile) simp
    then show False using all [of "s + length (takeWhile ?P [s..<n])"] lt m by (simp add: less_diff_conv add.commute)
  qed
qed

lemma append_hits_spec:
  assumes ok: "lookups_ok p hl gids" and n: "n \<le> length (hash_values hl)" and k: "k \<le> n"
    and f: "\<And>i. k \<le> i \<Longrightarrow> f i = hit_row p hl gids i"
  shows "append_hits p hl gids [int k..int n - 1] (columns f k (length gids)) =
    Inr (columns f (k + hit_run p hl gids k n) (length gids))"
  using k f
proof (induction "n - k" arbitrary: k)
  case 0
  then show ?case by (simp add: hit_run_def)
next
  case (Suc d)
  then have kn: "k < n" by simp
  have up: "[int k..int n - 1] = int k # [int (Suc k)..int n - 1]" "[k..<n] = k # [Suc k..<n]"
    using kn by (simp add: upto_rec1 add.commute, simp add: upt_conv_Cons)
  note L = lookup_at_spec(1) [OF ok, of k]
  show ?case
  proof (cases "hit_at p hl gids k")
    case None
    then show ?thesis using L kn n by (simp add: up hit_run_def)
  next
    case (Some r)
    then have r: "f k = r" using Suc.prems(2) by simp
    have len: "length (f k) = length gids" using hit_row_length [OF ok, of k] Some r kn n by simp
    have "append_hits p hl gids [int (Suc k)..int n - 1] (columns f (Suc k) (length gids)) =
        Inr (columns f (Suc k + hit_run p hl gids (Suc k) n) (length gids))"
      using Suc.hyps(1) [of "Suc k"] Suc.hyps(2) Suc.prems kn by simp
    then show ?thesis using L Some kn n append_each_columns [of f k "length gids", OF len] r
      by (simp add: up hit_run_def del: of_nat_Suc)
  qed
qed

fun aligned :: "int \<Rightarrow> int \<Rightarrow> nat \<Rightarrow> nat" where
  "aligned bs alignment 0 = 0"
| "aligned bs alignment (Suc n) =
     (if bs \<noteq> alignment \<and> int (Suc n) * bs mod alignment \<noteq> 0 then aligned bs alignment n else Suc n)"

lemma aligned_facts:
  shows "aligned bs al n \<le> n" and "al dvd int (aligned bs al n) * bs"
    and "m \<le> n \<Longrightarrow> al dvd int m * bs \<Longrightarrow> m \<le> aligned bs al n"
proof -
  show "aligned bs al n \<le> n" by (induction n) auto
  show "al dvd int (aligned bs al n) * bs" by (induction n) (auto simp: dvd_eq_mod_eq_0)
  show "m \<le> n \<Longrightarrow> al dvd int m * bs \<Longrightarrow> m \<le> aligned bs al n"
  proof (induction n)
    case (Suc n)
    show ?case
    proof (cases "m = Suc n")
      case True
      then have "int (Suc n) * bs mod al = 0" using Suc.prems(2) by (simp only: dvd_eq_mod_eq_0)
      then show ?thesis using True by simp
    next
      case False
      then show ?thesis using Suc by simp
    qed
  qed simp
qed

lemma aligned_id: "al dvd int n * bs \<Longrightarrow> aligned bs al n = n"
  by (rule le_antisym [OF aligned_facts(1) aligned_facts(3)]) simp_all

lemma align_loop_columns: "align_loop n bs al (columns f n G) = Inr (columns f (aligned bs al n) G)"
  by (induction n) (simp_all add: pop_hits_columns del: of_nat_Suc)

lemma align_hits_columns:
  assumes "0 < G"
  shows "align_hits bs al (columns f n G) = Inr (columns f (aligned bs al n) G)"
proof (cases "bs = al")
  case True
  then have "aligned bs al n = n" by (intro aligned_id) simp
  then show ?thesis using True by (simp add: align_hits_def)
next
  case False
  then show ?thesis using assms by (simp add: align_hits_def py_index_columns align_loop_columns)
qed

text \<open>A hit of \<open>m\<close> blocks is aligned and its last \<open>need\<close> blocks are cached.\<close>

definition window_hit :: "block_pool \<Rightarrow> hash_list \<Rightarrow> int list \<Rightarrow> int \<Rightarrow> int \<Rightarrow> nat \<Rightarrow> nat \<Rightarrow> bool" where
  "window_hit p hl gids bs al need m \<longleftrightarrow>
     al dvd int m * bs \<and> (\<forall>j<m. m \<le> j + need \<longrightarrow> hit_at p hl gids j \<noteq> None)"

definition longest_window :: "block_pool \<Rightarrow> hash_list \<Rightarrow> int list \<Rightarrow> int \<Rightarrow> int \<Rightarrow> nat \<Rightarrow> nat \<Rightarrow> nat \<Rightarrow> bool" where
  "longest_window p hl gids bs al need M n \<longleftrightarrow>
     n \<le> M \<and> window_hit p hl gids bs al need n \<and> (\<forall>m. n < m \<longrightarrow> m \<le> M \<longrightarrow> \<not> window_hit p hl gids bs al need m)"

lemma swa_loop_spec:
  assumes ok: "lookups_ok p hl gids" and M: "M \<le> length (hash_values hl)"
    and N: "N = max 1 (nat need)"
    and ic: "i + c \<le> M" "c < N" and run: "\<And>j. i \<le> j \<Longrightarrow> j < i + c \<Longrightarrow> hit_at p hl gids j = Some (f j)"
    and al: "c > 0 \<Longrightarrow> al dvd int (i + c) * bs" and nb: "\<And>j. j < i \<Longrightarrow> f j = replicate (length gids) nb"
    and mx: "\<And>m. i + c < m \<Longrightarrow> m \<le> M \<Longrightarrow> \<not> window_hit p hl gids bs al N m"
  shows "\<exists>found c' h n. swa_loop i p hl gids bs al need c (columns f M (length gids)) =
      Inr (found, c', columns h (if found then n else M) (length gids)) \<and> (\<not> found \<longrightarrow> c' = n) \<and>
      longest_window p hl gids bs al N M n \<and> (\<forall>j<n. n \<le> j + N \<longrightarrow> hit_at p hl gids j = Some (h j)) \<and>
      (\<forall>j<n. h j = replicate (length gids) nb \<or> hit_at p hl gids j = Some (h j))"
  using ic run al nb mx
proof (induction i arbitrary: c f)
  case 0
  have "window_hit p hl gids bs al N c" using 0 by (cases "c = 0") (auto simp: window_hit_def)
  then show ?case using 0
    by (intro exI [of _ False] exI [of _ c] exI [of _ f]) (simp add: longest_window_def)
next
  case (Suc i)
  have iM: "i < M" using Suc.prems(1) by simp
  then have L: "lookup_at p hl gids (int i) = Inr (hit_at p hl gids i)"
    using lookup_at_spec(1) [OF ok, of i] M by simp
  show ?case
  proof (cases "hit_at p hl gids i")
    case None
    have "\<not> window_hit p hl gids bs al N m" if m: "i + 0 < m" "m \<le> M" for m
    proof (cases "Suc i + c < m")
      case True
      then show ?thesis using Suc.prems(6) m by simp
    next
      case False
      then have "i < m" "m \<le> i + N" using m Suc.prems(2) by simp_all
      then show ?thesis using None by (auto simp: window_hit_def)
    qed
    then show ?thesis using Suc.IH [of 0 f] Suc.prems(5) iM N L None by simp
  next
    case (Some r)
    have len: "length r = length gids" using hit_row_length [OF ok, of i] Some iM M by simp
    show ?thesis
    proof (cases "c = 0 \<and> bs \<noteq> al \<and> (int i + 1) * bs mod al \<noteq> 0")
      case True
      then have na: "\<not> al dvd int (Suc i) * bs" by (simp add: dvd_eq_mod_eq_0 add.commute)
      have "\<not> window_hit p hl gids bs al N m" if m: "i + 0 < m" "m \<le> M" for m
        using Suc.prems(6) [of m] True m na by (cases "m = Suc i") (auto simp: window_hit_def)
      then show ?thesis using Suc.IH [of 0 f] Suc.prems(5) iM N L Some True by simp
    next
      case False
      let ?f = "f(i := r)"
      have al': "al dvd int (i + Suc c) * bs"
      proof (cases "c = 0")
        case True
        then have "bs = al \<or> (int i + 1) * bs mod al = 0" using False by blast
        moreover have "int (i + Suc c) = int i + 1" using True by simp
        ultimately show ?thesis by (metis dvd_eq_mod_eq_0 dvd_triv_right)
      next
        case False
        then show ?thesis using Suc.prems(4) by simp
      qed
      have run': "hit_at p hl gids j = Some (?f j)" if "i \<le> j" "j < i + Suc c" for j
        using Suc.prems(3) [of j] that Some by (cases "j = i") auto
      have mx': "\<not> window_hit p hl gids bs al N m" if "i + Suc c < m" "m \<le> M" for m
        using Suc.prems(6) that by simp
      have upd: "map2 (\<lambda>cl b. cl[i := b]) (columns f M (length gids)) r = columns ?f M (length gids)"
        by (rule set_columns [OF len iM])
      show ?thesis
      proof (cases "need \<le> int (Suc c)")
        case True
        then have cN: "N \<le> Suc c" using N by simp
        have hits: "hit_at p hl gids j = Some (?f j)" if "j < i + Suc c" "i + Suc c \<le> j + N" for j
          by (rule run') (use that cN in simp_all)
        have le: "i + Suc c \<le> M" using Suc.prems(1) by simp
        have lw: "longest_window p hl gids bs al N M (i + Suc c)"
          using hits mx' al' le by (auto simp: longest_window_def window_hit_def)
        have nbr: "?f j = replicate (length gids) nb \<or> hit_at p hl gids j = Some (?f j)" if "j < i + Suc c" for j
          using Suc.prems(5) [of j] run' [of j] that by (cases "j < i") auto
        have "swa_loop (Suc i) p hl gids bs al need c (columns f M (length gids)) =
            Inr (True, Suc c, columns ?f (if True then i + Suc c else M) (length gids))"
          using L Some False True upd take_columns [OF le, of ?f "length gids"] by auto
        then show ?thesis using lw hits nbr by blast
      next
        case False': False
        then have cN: "Suc c < N" using N by simp
        have e: "swa_loop (Suc i) p hl gids bs al need c (columns f M (length gids)) =
            swa_loop i p hl gids bs al need (Suc c) (columns ?f M (length gids))"
          using L Some False False' upd by auto
        have nb': "?f j = replicate (length gids) nb" if "j < i" for j using Suc.prems(5) [of j] that by simp
        show ?thesis unfolding e
          by (rule Suc.IH [OF _ cN run' al' nb' mx']) (use Suc.prems(1) in simp_all)
      qed
    qed
  qed
qed

lemma mamba_loop_spec:
  assumes ok: "lookups_ok p hl gids" and i: "i \<le> M" "M \<le> length (hash_values hl)"
    and mx: "\<And>m. i < m \<Longrightarrow> m \<le> M \<Longrightarrow> \<not> window_hit p hl gids bs al 1 m"
  shows "\<exists>n h. mamba_loop i p hl gids bs al = Inr (columns h n (length gids)) \<and>
      longest_window p hl gids bs al 1 M n \<and> (\<forall>j<n. n \<le> j + 1 \<longrightarrow> hit_at p hl gids j = Some (h j)) \<and>
      (\<forall>j<n. h j = replicate (length gids) (null_block p) \<or> hit_at p hl gids j = Some (h j))"
  using i(1) mx
proof (induction i)
  case 0
  then show ?case by (intro exI [of _ 0]) (simp add: columns_0 longest_window_def window_hit_def)
next
  case (Suc i)
  have L: "lookup_at p hl gids (int i) = Inr (hit_at p hl gids i)"
    using lookup_at_spec(1) [OF ok, of i] Suc.prems(1) i by simp
  have IH: ?case
    if "\<not> window_hit p hl gids bs al 1 (Suc i)"
      and e: "mamba_loop (Suc i) p hl gids bs al = mamba_loop i p hl gids bs al"
  proof -
    have "\<not> window_hit p hl gids bs al 1 m" if "i < m" "m \<le> M" for m
      using Suc.prems(2) [of m] that \<open>\<not> window_hit p hl gids bs al 1 (Suc i)\<close> by (cases "m = Suc i") auto
    then show ?thesis unfolding e using Suc.IH Suc.prems(1) by simp
  qed
  show ?case
  proof (cases "hit_at p hl gids i")
    case None
    then show ?thesis using L by (intro IH) (auto simp: window_hit_def)
  next
    case (Some r)
    have len: "length r = length gids"
      using hit_row_length [OF ok, of i] Some Suc.prems(1) i by simp
    show ?thesis
    proof (cases "bs \<noteq> al \<and> (int i + 1) * bs mod al \<noteq> 0")
      case True
      then have "\<not> al dvd int (Suc i) * bs" by (simp add: dvd_eq_mod_eq_0 add.commute)
      then show ?thesis using L Some True by (intro IH) (auto simp: window_hit_def)
    next
      case False
      let ?h = "(\<lambda>_. replicate (length gids) (null_block p))(i := r)"
      have "map2 (\<lambda>_ b. replicate i (null_block p) @ [b]) gids r = columns ?h (Suc i) (length gids)"
        by (rule nth_equalityI) (auto simp: len intro!: nth_equalityI simp: nth_append)
      then have e: "mamba_loop (Suc i) p hl gids bs al = Inr (columns ?h (Suc i) (length gids))"
        using L Some False by auto
      have "al dvd int (Suc i) * bs" using False by (metis dvd_eq_mod_eq_0 dvd_triv_right of_nat_Suc add.commute)
      then have "longest_window p hl gids bs al 1 M (Suc i)"
        using Suc.prems Some by (auto simp: longest_window_def window_hit_def le_less_Suc_eq)
      moreover have "\<forall>j<Suc i. Suc i \<le> j + 1 \<longrightarrow> hit_at p hl gids j = Some (?h j)"
        "\<forall>j<Suc i. ?h j = replicate (length gids) (null_block p) \<or> hit_at p hl gids j = Some (?h j)"
        using Some by (auto simp: less_Suc_eq)
      ultimately show ?thesis using e by blast
    qed
  qed
qed

section \<open>Hits of each attention type\<close>

text \<open>
  A hit of \<open>n\<close> blocks with the rows \<open>f\<close>: the blocks from \<open>from n\<close> on are cached under their hashes,
  the ones before are cached or null. It is the longest when no longer hit has that property.
\<close>

definition valid_hit ::
  "block_pool \<Rightarrow> hash_list \<Rightarrow> int list \<Rightarrow> int \<Rightarrow> int \<Rightarrow> (nat \<Rightarrow> int) \<Rightarrow> nat \<Rightarrow> (nat \<Rightarrow> node list) \<Rightarrow> nat \<Rightarrow> bool" where
  "valid_hit p hl gids bs al from M f n \<longleftrightarrow> n \<le> M \<and> al dvd int n * bs \<and>
     (\<forall>j<n. from n \<le> int j \<longrightarrow> hit_at p hl gids j = Some (f j)) \<and>
     (\<forall>j<n. f j = replicate (length gids) (null_block p) \<or> hit_at p hl gids j = Some (f j))"

definition longest_hit ::
  "block_pool \<Rightarrow> hash_list \<Rightarrow> int list \<Rightarrow> int \<Rightarrow> int \<Rightarrow> (nat \<Rightarrow> int) \<Rightarrow> nat \<Rightarrow> nat \<Rightarrow> bool" where
  "longest_hit p hl gids bs al from M n \<longleftrightarrow>
     (\<forall>m\<le>M. al dvd int m * bs \<longrightarrow> (\<forall>j<m. from m \<le> int j \<longrightarrow> hit_at p hl gids j \<noteq> None) \<longrightarrow> m \<le> n)"

lemma hash_list_len_values: "hash_list_ok hl \<Longrightarrow> hash_list_len hl = int (length (hash_values hl))"
  by (cases hl) (auto simp: hash_list_len_def hash_values_def hash_list_ok_def scaled_len_def pos_imp_zdiv_nonneg_iff)

lemma full_hit:
  assumes ok: "lookups_ok p hl gids" and bs: "0 < bs" "bs = (if dcp * pcp > 1 then sbs * (dcp * pcp) else sbs)"
    and ml: "0 \<le> max_length" and M: "M = nat (max_length div bs)" "M \<le> length (hash_values hl)"
  shows "\<exists>f n. full_find_longest_cache_hit hl max_length gids p sbs use_eagle al dcp pcp =
      Inr (columns f n (length gids)) \<and> valid_hit p hl gids bs al (\<lambda>_. 0) M f n \<and>
      (\<not> use_eagle \<longrightarrow> longest_hit p hl gids bs al (\<lambda>_. 0) M n)"
proof -
  let ?f = "hit_row p hl gids" and ?G = "length gids" and ?r = "hit_run p hl gids 0 M"
  let ?k = "if use_eagle then ?r - 1 else ?r"
  have G: "0 < ?G" using ok by (simp add: lookups_ok_def)
  have Mi: "int M = max_length div bs" using ml bs M(1) by (simp add: pos_imp_zdiv_nonneg_iff)
  have "hash_list_ok hl" using ok by (simp add: lookups_ok_def)
  then have mn: "min (max_length div bs) (hash_list_len hl) = int M"
    using Mi M(2) by (simp add: hash_list_len_values)
  have run: "append_hits p hl gids [0..int M - 1] (map (\<lambda>_. []) gids) = Inr (columns ?f ?r ?G)"
    using append_hits_spec [OF ok M(2), of 0 ?f] by (simp add: columns_0)
  have eagle: "(if use_eagle then and_then (py_index (columns ?f ?r ?G) 0)
      (\<lambda>c. if c \<noteq> [] then pop_hits (columns ?f ?r ?G) else Inr (columns ?f ?r ?G))
      else Inr (columns ?f ?r ?G)) = Inr (columns ?f ?k ?G)"
  proof (cases ?r)
    case (Suc r')
    then show ?thesis using G by (simp add: py_index_columns pop_hits_columns)
  qed (use G in \<open>simp add: py_index_columns\<close>)
  let ?n = "aligned bs al ?k"
  have res: "full_find_longest_cache_hit hl max_length gids p sbs use_eagle al dcp pcp = Inr (columns ?f ?n ?G)"
    using Mi [symmetric] unfolding full_find_longest_cache_hit_def Let_def bs(2) [symmetric] mn
    by (simp add: run eagle align_hits_columns [OF G] del: if_split)
  have nr: "?n \<le> ?r" using aligned_facts(1) [of bs al ?k] by auto
  then have hits: "hit_at p hl gids j = Some (?f j)" if "j < ?n" for j
    using hit_run_facts(2) [of 0 j p hl gids M] that by auto
  have v: "valid_hit p hl gids bs al (\<lambda>_. 0) M ?f ?n"
    using hits nr hit_run_facts(1) [of p hl gids 0 M] aligned_facts(2) [of al bs ?k]
    by (auto simp: valid_hit_def)
  have "longest_hit p hl gids bs al (\<lambda>_. 0) M ?n" if "\<not> use_eagle"
    using hit_run_facts(3) [of 0 _ p hl gids M] aligned_facts(3) [of _ ?k al bs] that
    by (auto simp: longest_hit_def)
  then show ?thesis using res v by blast
qed

lemma cdiv_gt_iff: "0 < b \<Longrightarrow> k < cdiv a b \<longleftrightarrow> k * b < a"
  using cdiv_le_iff [of b a k] by linarith

text \<open>The first block that the window of the next token reaches into.\<close>

lemma window_start:
  assumes bs: "0 < bs" and w: "1 \<le> w" and j: "j < n"
  shows "max 0 (int n * bs - w + 1) div bs \<le> int j \<longleftrightarrow> n \<le> j + nat (cdiv (w - 1) bs)"
proof -
  have c0: "0 \<le> cdiv (w - 1) bs" using cdiv_nonneg [OF bs, of "w - 1"] w by simp
  have "max 0 (int n * bs - w + 1) div bs \<le> int j \<longleftrightarrow> \<not> int j + 1 \<le> max 0 (int n * bs - w + 1) div bs"
    by linarith
  also have "\<dots> \<longleftrightarrow> \<not> (int j + 1) * bs \<le> max 0 (int n * bs - w + 1)"
    unfolding le_div_iff_mult_le [OF bs] ..
  also have "\<dots> \<longleftrightarrow> \<not> (int j + 1) * bs \<le> int n * bs - w + 1"
  proof -
    have "0 < (int j + 1) * bs" using bs by simp
    then show ?thesis by linarith
  qed
  also have "\<dots> \<longleftrightarrow> (int n - int j - 1) * bs < w - 1" by (simp add: algebra_simps not_le)
  also have "\<dots> \<longleftrightarrow> int n - int j - 1 < cdiv (w - 1) bs" using cdiv_gt_iff [OF bs] by simp
  also have "\<dots> \<longleftrightarrow> n \<le> j + nat (cdiv (w - 1) bs)" using c0 by linarith
  finally show ?thesis .
qed

lemma swa_hit:
  assumes ok: "lookups_ok p hl gids" and bs: "0 < bs" and w: "1 \<le> w" and e: "use_eagle \<longrightarrow> bs = al"
    and M: "M = nat (max_length div bs)" "M \<le> length (hash_values hl)"
  shows "\<exists>f n. swa_find_longest_cache_hit hl max_length gids p bs w use_eagle al 1 1 =
      Inr (columns f n (length gids)) \<and>
      valid_hit p hl gids bs al (\<lambda>n. max 0 (int n * bs - w + 1) div bs) M f n \<and>
      (\<not> use_eagle \<and> 1 < w \<longrightarrow> longest_hit p hl gids bs al (\<lambda>n. max 0 (int n * bs - w + 1) div bs) M n)"
proof -
  let ?c = "nat (cdiv (w - 1) bs)" and ?G = "length gids"
  let ?nb = "null_block p" and ?from = "\<lambda>n. max 0 (int n * bs - w + 1) div bs"
  define need where "need = cdiv (w - 1) bs + (if use_eagle then 1 else 0)"
  define N where "N = max 1 (nat need)"
  have G: "0 < ?G" using ok by (simp add: lookups_ok_def)
  have c0: "0 \<le> cdiv (w - 1) bs" using cdiv_nonneg [OF bs, of "w - 1"] w by simp
  have "\<exists>found c' h n. swa_loop M p hl gids bs al need 0 (columns (\<lambda>_. replicate ?G ?nb) M ?G) =
      Inr (found, c', columns h (if found then n else M) ?G) \<and> (\<not> found \<longrightarrow> c' = n) \<and>
      longest_window p hl gids bs al N M n \<and> (\<forall>j<n. n \<le> j + N \<longrightarrow> hit_at p hl gids j = Some (h j)) \<and>
      (\<forall>j<n. h j = replicate ?G ?nb \<or> hit_at p hl gids j = Some (h j))"
    by (rule swa_loop_spec [OF ok M(2) N_def]) (simp_all add: N_def)
  then obtain found c' h n where L: "swa_loop M p hl gids bs al need 0 (columns (\<lambda>_. replicate ?G ?nb) M ?G) =
      Inr (found, c', columns h (if found then n else M) ?G)" "\<not> found \<longrightarrow> c' = n"
      "longest_window p hl gids bs al N M n" "\<forall>j<n. n \<le> j + N \<longrightarrow> hit_at p hl gids j = Some (h j)"
      "\<forall>j<n. h j = replicate ?G ?nb \<or> hit_at p hl gids j = Some (h j)"
    by blast
  have n: "n \<le> M" "al dvd int n * bs" using L(3) by (auto simp: longest_window_def window_hit_def)
  have al1: "(if found then Inr (columns h (if found then n else M) ?G)
      else align_hits bs al (map (take c') (columns h (if found then n else M) ?G))) = Inr (columns h n ?G)"
    using L(2) n G by (simp add: take_columns align_hits_columns aligned_id)
  show ?thesis
  proof (cases use_eagle)
    case False
    have "swa_find_longest_cache_hit hl max_length gids p bs w use_eagle al 1 1 = Inr (columns h n ?G)"
      using L(1) al1 False unfolding swa_find_longest_cache_hit_def Let_def M(1) [symmetric] need_def [symmetric]
      by (simp add: columns_replicate)
    moreover have "valid_hit p hl gids bs al ?from M h n"
      using L(4,5) n window_start [OF bs w, of _ n] False by (auto simp: valid_hit_def N_def need_def)
    moreover have "longest_hit p hl gids bs al ?from M n" if "1 < w"
    proof -
      have "0 < cdiv (w - 1) bs" using cdiv_gt_iff [OF bs, of 0] that by simp
      then have N: "N = ?c" using False by (simp add: N_def need_def)
      have "m \<le> n" if m: "m \<le> M" "al dvd int m * bs" "\<forall>j<m. ?from m \<le> int j \<longrightarrow> hit_at p hl gids j \<noteq> None" for m
      proof (rule ccontr)
        assume "\<not> m \<le> n"
        then have "\<not> window_hit p hl gids bs al ?c m" using L(3) m(1) by (simp add: longest_window_def N)
        then show False using m window_start [OF bs w, of _ m] by (auto simp: window_hit_def)
      qed
      then show ?thesis by (simp add: longest_hit_def)
    qed
    ultimately show ?thesis by blast
  next
    case True
    have N: "N = Suc ?c" using True c0 by (simp add: N_def need_def nat_add_distrib)
    have pop: "(if map (\<lambda>i. h i ! 0) [0..<n] \<noteq> []
        then and_then (pop_hits (columns h n ?G)) (align_hits bs al)
        else Inr (columns h n ?G)) = Inr (columns h (n - 1) ?G)"
      using e True by (cases n) (simp_all add: pop_hits_columns align_hits_def)
    have "swa_find_longest_cache_hit hl max_length gids p bs w use_eagle al 1 1 = Inr (columns h (n - 1) ?G)"
      using L(1) al1 True pop G unfolding swa_find_longest_cache_hit_def Let_def M(1) [symmetric] need_def [symmetric]
      by (simp add: columns_replicate py_index_columns)
    moreover have "valid_hit p hl gids bs al ?from M h (n - 1)"
    proof -
      have "hit_at p hl gids j = Some (h j)" if "j < n - 1" "?from (n - 1) \<le> int j" for j
        using that window_start [OF bs w, of j "n - 1"] L(4) N by auto
      then show ?thesis using L(5) n e True by (auto simp: valid_hit_def)
    qed
    ultimately show ?thesis using True by blast
  qed
qed

lemma chunked_hit:
  assumes ok: "lookups_ok p hl gids" and bs: "0 < bs" and c: "0 < c" "bs dvd c" and ml: "0 \<le> max_length"
    and M: "M = nat (max_length div bs)" "M \<le> length (hash_values hl)"
  shows "\<exists>f n. chunked_find_longest_cache_hit hl max_length gids p bs c False bs 1 1 =
      Inr (columns f n (length gids)) \<and>
      valid_hit p hl gids bs bs (\<lambda>n. int n * bs div c * c div bs) M f n \<and>
      longest_hit p hl gids bs bs (\<lambda>n. int n * bs div c * c div bs) M n"
proof -
  obtain q where q: "c = bs * q" using c(2) by (elim dvdE)
  then have q0: "0 < q" using c(1) bs by (simp add: zero_less_mult_iff)
  have cq: "x div c * c div bs = x div c * q" for x using q bs by (simp add: mult.left_commute)
  define s where "s = nat (max_length div c * q)"
  let ?G = "length gids"
  let ?f = "\<lambda>i. if i < s then replicate ?G (null_block p) else hit_row p hl gids i"
  have s0: "int s = max_length div c * q" using ml c(1) q0 by (simp add: s_def pos_imp_zdiv_nonneg_iff)
  have Mi: "int M = max_length div bs" using ml bs M(1) by (simp add: pos_imp_zdiv_nonneg_iff)
  have sb: "int s * bs = max_length div c * c" using s0 q by (simp add: mult.assoc mult.commute)
  have "max_length div c * c \<le> max_length"
    using le_div_iff_mult_le [OF c(1), of "max_length div c" max_length] by simp
  then have "int s * bs \<le> max_length" using sb by simp
  then have "int s \<le> max_length div bs" using le_div_iff_mult_le [OF bs] by blast
  then have sM: "s \<le> M" using Mi by linarith
  let ?r = "hit_run p hl gids s M"
  let ?n = "s + ?r"
  have "append_hits p hl gids [int s..int M - 1] (columns ?f s ?G) = Inr (columns ?f ?n ?G)"
    by (rule append_hits_spec [OF ok M(2) sM]) simp
  moreover have "columns ?f s ?G = map (\<lambda>_. replicate s (null_block p)) gids"
    unfolding columns_replicate [symmetric] by (rule columns_cong) simp
  moreover have "(if max_length > 0 then max_length div c * c else 0) div bs = int s"
    using ml cq s0 by (cases "max_length = 0") auto
  ultimately have res: "chunked_find_longest_cache_hit hl max_length gids p bs c False bs 1 1 =
      Inr (columns ?f ?n ?G)"
    by (simp add: chunked_find_longest_cache_hit_def Let_def Mi)
  have from_eq: "int m * bs div c * c div bs = int s" if "s \<le> m" "m \<le> M" for m
  proof -
    have "int m * bs \<le> max_length" using that(2) Mi le_div_iff_mult_le [OF bs, of "int m" max_length] by simp
    then have le: "int m * bs div c \<le> max_length div c" using c(1) by (rule zdiv_mono1)
    have "max_length div c * c \<le> int m * bs" using sb that(1) bs by (metis mult_right_mono of_nat_le_iff less_imp_le)
    then have "max_length div c \<le> int m * bs div c" using le_div_iff_mult_le [OF c(1)] by blast
    then show ?thesis using le cq s0 by simp
  qed
  have hits: "hit_at p hl gids j = Some (?f j)" if "s \<le> j" "j < ?n" for j
    using hit_run_facts(2) [OF that] that by auto
  have nM: "?n \<le> M" using hit_run_facts(1) [of p hl gids s M] sM by linarith
  have v: "valid_hit p hl gids bs bs (\<lambda>n. int n * bs div c * c div bs) M ?f ?n"
    using nM hits from_eq [of ?n] by (auto simp: valid_hit_def)
  have l: "longest_hit p hl gids bs bs (\<lambda>n. int n * bs div c * c div bs) M ?n"
    unfolding longest_hit_def
  proof (intro allI impI)
    fix m assume m: "m \<le> M" "\<forall>j<m. int m * bs div c * c div bs \<le> int j \<longrightarrow> hit_at p hl gids j \<noteq> None"
    show "m \<le> ?n"
    proof (cases "s \<le> m")
      case True
      then show ?thesis using m from_eq [OF True m(1)] by (intro hit_run_facts(3)) simp_all
    qed simp
  qed
  show ?thesis using res v l by blast
qed

lemma mamba_hit:
  assumes ok: "lookups_ok p hl gids" and bs: "0 < bs"
    and M: "M = nat (max_length div bs)" "M \<le> length (hash_values hl)"
  shows "\<exists>f n. mamba_find_longest_cache_hit hl max_length gids p bs al 1 1 =
      Inr (columns f n (length gids)) \<and>
      valid_hit p hl gids bs al (\<lambda>n. (int n * bs - 1) div bs) M f n \<and>
      longest_hit p hl gids bs al (\<lambda>n. (int n * bs - 1) div bs) M n"
proof -
  have from_eq: "(int m * bs - 1) div bs = int m - 1" for m
    using bs by (intro int_div_pos_eq [where r = "bs - 1"]) (simp_all add: algebra_simps)
  obtain n h where L: "mamba_loop M p hl gids bs al = Inr (columns h n (length gids))"
    "longest_window p hl gids bs al 1 M n" "\<forall>j<n. n \<le> j + 1 \<longrightarrow> hit_at p hl gids j = Some (h j)"
    "\<forall>j<n. h j = replicate (length gids) (null_block p) \<or> hit_at p hl gids j = Some (h j)"
    using mamba_loop_spec [OF ok order_refl M(2), of bs al] by auto
  have "valid_hit p hl gids bs al (\<lambda>n. (int n * bs - 1) div bs) M h n"
    using L by (auto simp: valid_hit_def from_eq longest_window_def window_hit_def)
  moreover have "longest_hit p hl gids bs al (\<lambda>n. (int n * bs - 1) div bs) M n"
    unfolding longest_hit_def from_eq
  proof (intro allI impI)
    fix m assume m: "m \<le> M" "al dvd int m * bs" "\<forall>j<m. int m - 1 \<le> int j \<longrightarrow> hit_at p hl gids j \<noteq> None"
    then have "window_hit p hl gids bs al 1 m" by (auto simp: window_hit_def)
    then show "m \<le> n" using L(2) m(1) by (auto simp: longest_window_def not_less [symmetric])
  qed
  moreover have "mamba_find_longest_cache_hit hl max_length gids p bs al 1 1 = Inr (columns h n (length gids))"
    using L(1) M(1) by (simp add: mamba_find_longest_cache_hit_def)
  ultimately show ?thesis by blast
qed

section \<open>Hits in general\<close>

text \<open>
  The block from which on a request with \<open>n\<close> computed blocks is read: the number of blocks the
  manager counts as skipped.
\<close>

definition first_read :: "kv_cache_spec \<Rightarrow> int \<Rightarrow> int \<Rightarrow> nat \<Rightarrow> int" where
  "first_read spec dcp pcp n =
     (let m = SingleTypeKVCacheManager spec True 0 dcp pcp
      in get_num_skipped_tokens m (int n * m_block_size m) div m_block_size m)"

definition group_block_size :: "kv_cache_spec \<Rightarrow> int \<Rightarrow> int \<Rightarrow> int" where
  "group_block_size spec dcp pcp = m_block_size (SingleTypeKVCacheManager spec True 0 dcp pcp)"

text \<open>
  The configurations for which the lookup is defined: windows and chunks are positive, context
  parallelism only with full attention, no draft-model look-back with chunks, with a sliding window
  only at its own block size.
\<close>

definition cacheable_spec :: "kv_cache_spec \<Rightarrow> bool \<Rightarrow> int \<Rightarrow> int \<Rightarrow> int \<Rightarrow> bool" where
  "cacheable_spec spec use_eagle al dcp pcp \<longleftrightarrow> 0 < group_block_size spec dcp pcp \<and>
     (case spec of
        SlidingWindowSpec bs w \<Rightarrow> 1 \<le> w \<and> (use_eagle \<longrightarrow> bs = al) \<and> dcp = 1 \<and> pcp = 1
      | ChunkedLocalAttentionSpec bs c \<Rightarrow> 0 < c \<and> bs dvd c \<and> \<not> use_eagle \<and> bs = al \<and> dcp = 1 \<and> pcp = 1
      | MambaSpec bs mode k \<Rightarrow> dcp = 1 \<and> pcp = 1
      | CrossAttentionSpec bs \<Rightarrow> False
      | _ \<Rightarrow> True)"

lemma find_hit_spec:
  assumes ok: "lookups_ok p hl gids" and sp: "cacheable_spec spec use_eagle al dcp pcp"
    and ml: "0 \<le> max_length" and bs: "bs = group_block_size spec dcp pcp"
    and M: "M = nat (max_length div bs)" "M \<le> length (hash_values hl)"
  shows "\<exists>f n. find_longest_cache_hit hl max_length gids p spec use_eagle al dcp pcp =
      Inr (columns f n (length gids)) \<and> valid_hit p hl gids bs al (first_read spec dcp pcp) M f n \<and>
      (\<not> use_eagle \<and> spec \<noteq> SlidingWindowSpec bs 1 \<longrightarrow>
         longest_hit p hl gids bs al (first_read spec dcp pcp) M n)"
proof -
  have bs0: "0 < bs" using sp bs by (simp add: cacheable_spec_def)
  have full: ?thesis
    if "first_read spec dcp pcp = (\<lambda>_. 0)"
      and "find_longest_cache_hit hl max_length gids p spec use_eagle al dcp pcp =
        full_find_longest_cache_hit hl max_length gids p (spec_block_size spec) use_eagle al dcp pcp"
  proof -
    have "bs = (if dcp * pcp > 1 then spec_block_size spec * (dcp * pcp) else spec_block_size spec)"
      using bs by (simp add: group_block_size_def SingleTypeKVCacheManager_def)
    then show ?thesis
      using full_hit [OF ok bs0 _ ml M, of dcp pcp "spec_block_size spec" use_eagle al] unfolding that by blast
  qed
  show ?thesis
  proof (cases spec)
    case (SlidingWindowSpec b w)
    then have b: "b = bs" "1 \<le> w" "use_eagle \<longrightarrow> bs = al" "dcp = 1" "pcp = 1"
      using sp bs by (auto simp: cacheable_spec_def group_block_size_def SingleTypeKVCacheManager_def)
    have fr: "first_read spec dcp pcp = (\<lambda>n. max 0 (int n * bs - w + 1) div bs)"
      using SlidingWindowSpec b
      by (auto simp: first_read_def get_num_skipped_tokens_def SingleTypeKVCacheManager_def Let_def)
    have "find_longest_cache_hit hl max_length gids p spec use_eagle al dcp pcp = swa_find_longest_cache_hit hl max_length gids p bs w use_eagle al 1 1"
      using SlidingWindowSpec b by (simp add: find_longest_cache_hit_def)
    moreover have "spec \<noteq> SlidingWindowSpec bs 1 \<longleftrightarrow> 1 < w" using SlidingWindowSpec b by auto
    ultimately show ?thesis unfolding fr using swa_hit [OF ok bs0 b(2,3) M] b by metis
  next
    case (ChunkedLocalAttentionSpec b c)
    then have b: "b = bs" "0 < c" "bs dvd c" "\<not> use_eagle" "bs = al" "dcp = 1" "pcp = 1"
      using sp bs by (auto simp: cacheable_spec_def group_block_size_def SingleTypeKVCacheManager_def)
    have fr: "first_read spec dcp pcp = (\<lambda>n. int n * bs div c * c div bs)"
      using ChunkedLocalAttentionSpec b
      by (auto simp: first_read_def get_num_skipped_tokens_def SingleTypeKVCacheManager_def Let_def)
    have "find_longest_cache_hit hl max_length gids p spec use_eagle al dcp pcp = chunked_find_longest_cache_hit hl max_length gids p bs c False bs 1 1"
      using ChunkedLocalAttentionSpec b by (simp add: find_longest_cache_hit_def)
    moreover have "spec \<noteq> SlidingWindowSpec bs 1 \<longleftrightarrow> True" using ChunkedLocalAttentionSpec b by auto
    ultimately show ?thesis unfolding fr using chunked_hit [OF ok bs0 b(2,3) ml M] b by metis
  next
    case (MambaSpec b mode k)
    then have b: "b = bs" "dcp = 1" "pcp = 1"
      using sp bs by (auto simp: cacheable_spec_def group_block_size_def SingleTypeKVCacheManager_def)
    have fr: "first_read spec dcp pcp = (\<lambda>n. (int n * bs - 1) div bs)"
      using MambaSpec b
      by (auto simp: first_read_def get_num_skipped_tokens_def SingleTypeKVCacheManager_def Let_def)
    have "find_longest_cache_hit hl max_length gids p spec use_eagle al dcp pcp = mamba_find_longest_cache_hit hl max_length gids p bs al 1 1"
      using MambaSpec b by (simp add: find_longest_cache_hit_def)
    moreover have "spec \<noteq> SlidingWindowSpec bs 1 \<longleftrightarrow> True" using MambaSpec b by auto
    ultimately show ?thesis unfolding fr using mamba_hit [OF ok bs0 M, of al] b by metis
  next
    case (CrossAttentionSpec b)
    then show ?thesis using sp by (simp add: cacheable_spec_def)
  qed (intro full ext; simp add: first_read_def get_num_skipped_tokens_def SingleTypeKVCacheManager_def
        Let_def find_longest_cache_hit_def)+
qed

section \<open>Properties\<close>

text \<open>
  A pool in which only the last two blocks of a request of four are still cached, as after a
  sliding window has moved on and the blocks it left behind have been evicted.
\<close>

definition window_request :: request where
  "window_request = (base_request ''a'' [1, 2, 3, 4, 5, 6, 7, 8])\<lparr>block_hashes := [[0], [1], [2], [3]]\<rparr>"

definition window_pool :: block_pool where
  "window_pool = (case cache_full_blocks unary_env window_request (map Blk [0, 0, 1, 2]) 0 4 2 0 small_pool
     of Inr (p, _) \<Rightarrow> p | Inl _ \<Rightarrow> undefined)"

abbreviation window_hashes :: hash_list where
  "window_hashes \<equiv> Fine [[0], [1], [2], [3]]"

lemma window_pool:
  "pool_reach window_pool" "lookups_ok window_pool window_hashes [0]" "null_block window_pool = Blk 0"
  "hash_of window_pool 1 = Some (packed [2] 0)" "hash_of window_pool 2 = Some (packed [3] 0)"
  "j \<noteq> 1 \<Longrightarrow> j \<noteq> 2 \<Longrightarrow> hash_of window_pool j = None"
proof -
  let ?r = window_request
  have g: "group_id_ok 0" by (simp add: group_id_ok_def)
  have c: "cacheable unary_env ?r [0, 0, 1, 2] 0 4 2 window_hashes small_pool"
    by (simp add: cacheable_def small_pool group_hashes_def hash_list_ok_def hash_values_def window_request_def)
  obtain p m where p: "cache_full_blocks unary_env ?r (map Blk [0, 0, 1, 2]) (int 0) (int 4) 2 0 small_pool =
      Inr (p, ?r\<lparr>prompt_embeds_per_block_hashes := m\<rparr>)" "pool_inv p [1, 2, 3]"
    "\<forall>j. j = 0 \<or> j \<notin> set (take (4 - 0) (drop 0 [0, 0, 1, 2])) \<longrightarrow> hash_of p j = hash_of small_pool j"
    "\<forall>n. 0 \<le> n \<and> n < 4 \<and> [0, 0, 1, 2 :: nat] ! n \<noteq> 0 \<longrightarrow>
       hash_of p ([0, 0, 1, 2] ! n) = Some (packed (hash_values window_hashes ! n) 0)"
    using cache_full_blocks_spec [OF small_pool(2) g zero_less_numeral c] by (elim exE conjE) (rule that)
  have e: "window_pool = p" using p(1) by (simp add: window_pool_def)
  show "pool_reach window_pool" unfolding e by (rule reach_cache [OF small_pool(1) g c p(1)])
  show "lookups_ok window_pool window_hashes [0]" "null_block window_pool = Blk 0"
    using p(2) g unfolding e by (auto simp: lookups_ok_def hash_list_ok_def dest: pool_invD)
  show "hash_of window_pool 1 = Some (packed [2] 0)" "hash_of window_pool 2 = Some (packed [3] 0)"
    using p(4) [rule_format, of 2] p(4) [rule_format, of 3] unfolding e by (simp_all add: hash_values_def)
  show "j \<noteq> 1 \<Longrightarrow> j \<noteq> 2 \<Longrightarrow> hash_of window_pool j = None"
    using p(3) [rule_format, of j] unfolding e by (auto simp: small_pool)
qed

lemma window_pool_hits:
  "lookup_at window_pool window_hashes [0] 2 = Inr (Some [Blk 1])"
  "lookup_at window_pool window_hashes [0] 3 = Inr (Some [Blk 2])"
proof -
  have inj: "packed h 0 = packed h' 0 \<longleftrightarrow> h = h'" for h h'
    using packed_inj [of 0 0] by (auto simp: group_id_ok_def)
  have j: "hash_of window_pool j = Some (packed [2] 0) \<longleftrightarrow> j = 1"
    "hash_of window_pool j = Some (packed [3] 0) \<longleftrightarrow> j = 2" for j
    using window_pool(4-6) by (cases "j = 1"; cases "j = 2"; simp add: inj)+
  have v: "hash_values window_hashes ! 2 = [2]" "hash_values window_hashes ! 3 = [3]"
    by (simp_all add: hash_values_def)
  have "2 < length (hash_values window_hashes)" by (simp add: hash_values_def)
  note L = lookup_at_spec [OF window_pool(2) this, unfolded v]
  show "lookup_at window_pool window_hashes [0] 2 = Inr (Some [Blk 1])"
    using L by (cases "hit_at window_pool window_hashes [0] 2") (auto simp: list_all2_Cons2 j)
  have "3 < length (hash_values window_hashes)" by (simp add: hash_values_def)
  note L = lookup_at_spec [OF window_pool(2) this, unfolded v]
  show "lookup_at window_pool window_hashes [0] 3 = Inr (Some [Blk 2])"
    using L by (cases "hit_at window_pool window_hashes [0] 3") (auto simp: list_all2_Cons2 j)
qed



text \<open>
  C30: without a draft model that looks back, the hit is the longest possible: a longer aligned
  prefix lacks, in some group, a cached block that the next token would attend to. A window of one
  token is excepted, which needs no cached block at all.
\<close>

theorem cache_hit_is_longest:
  assumes "pool_reach p" and "hash_list_ok hl" and "gids \<noteq> []" and "\<forall>g\<in>set gids. group_id_ok g"
    and "cacheable_spec spec False al dcp pcp" and "0 \<le> max_length"
    and "nat (max_length div group_block_size spec dcp pcp) \<le> length (hash_values hl)"
    and "spec \<noteq> SlidingWindowSpec (group_block_size spec dcp pcp) 1"
    and "int m * group_block_size spec dcp pcp \<le> max_length"
    and "al dvd int m * group_block_size spec dcp pcp"
    and "\<forall>j<m. first_read spec dcp pcp m \<le> int j \<longrightarrow>
      (\<forall>g\<in>set gids. \<exists>i. hash_of p i = Some (packed (hash_values hl ! j) g))"
  shows "\<exists>computed. find_longest_cache_hit hl max_length gids p spec False al dcp pcp = Inr computed \<and>
    m \<le> length (hd computed)"
proof -
  let ?bs = "group_block_size spec dcp pcp"
  obtain xs where "pool_inv p xs" using pool_reach_inv [OF assms(1)] by blast
  then have ok: "lookups_ok p hl gids" using assms by (auto simp: lookups_ok_def dest: pool_invD)
  obtain f n where fn: "find_longest_cache_hit hl max_length gids p spec False al dcp pcp =
      Inr (columns f n (length gids))"
    "longest_hit p hl gids ?bs al (first_read spec dcp pcp) (nat (max_length div ?bs)) n"
    using find_hit_spec [OF ok assms(5,6) refl refl assms(7)] assms(8) by blast
  have bs: "0 < ?bs" using assms(5) by (simp add: cacheable_spec_def)
  have m: "m \<le> nat (max_length div ?bs)" using assms(9) by (simp add: le_div_iff_mult_le [OF bs, symmetric] le_nat_iff)
  moreover have "hit_at p hl gids j \<noteq> None" if "j < m" "first_read spec dcp pcp m \<le> int j" for j
    using lookup_at_spec(3) [OF ok, of j] assms(7,11) m that by auto
  ultimately have "m \<le> n" using fn(2) assms(10) by (auto simp: longest_hit_def)
  then show ?thesis using fn(1) assms(3) by (simp add: hd_columns)
qed

theorem cache_hit_is_longest_witness:
  "\<exists>computed. find_longest_cache_hit window_hashes 8 [0] window_pool (SlidingWindowSpec 2 2) False 4 1 1 =
     Inr computed \<and> 4 \<le> length (hd computed)"
proof -
  have gb: "group_block_size (SlidingWindowSpec 2 2) 1 1 = 2"
    by (simp add: group_block_size_def SingleTypeKVCacheManager_def)
  have fr: "first_read (SlidingWindowSpec 2 2) 1 1 4 = 3"
    by (simp add: first_read_def get_num_skipped_tokens_def SingleTypeKVCacheManager_def)
  have "cacheable_spec (SlidingWindowSpec 2 2) False 4 1 1" by (simp add: cacheable_spec_def gb)
  moreover have "\<exists>i. hash_of window_pool i = Some (packed (hash_values window_hashes ! j) 0)"
    if "j < 4" "3 \<le> int j" for j
    using that window_pool(5) by (cases "j = 3") (auto simp: hash_values_def numeral_eq_Suc)
  ultimately show ?thesis
    using cache_hit_is_longest [OF window_pool(1), of window_hashes "[0]" "SlidingWindowSpec 2 2" 4 1 1 8 4]
    by (auto simp: gb fr hash_list_ok_def group_id_ok_def hash_values_def)
qed

text \<open>
  C31: with a draft model and an alignment coarser than the block, the sliding-window lookup pops
  below the window it has matched. In a reachable pool that caches only the last two of four blocks
  it reports a hit of two null blocks, although the next token still attends to the second of them.
\<close>

theorem swa_eagle_realign_uncovered:
  "pool_reach window_pool \<and>
   find_longest_cache_hit window_hashes 8 [0] window_pool (SlidingWindowSpec 2 2) True 4 1 1 =
     Inr [[null_block window_pool, null_block window_pool]] \<and>
   first_read (SlidingWindowSpec 2 2) 1 1 2 = 1"
proof -
  have "swa_loop 4 window_pool window_hashes [0] 2 4 2 0 [replicate 4 (Blk 0)] =
      Inr (True, 2, [[Blk 0, Blk 0, Blk 1, Blk 2]])"
    using window_pool_hits by (simp add: eval_nat_numeral)
  then have "find_longest_cache_hit window_hashes 8 [0] window_pool (SlidingWindowSpec 2 2) True 4 1 1 =
      Inr [[Blk 0, Blk 0]]"
    by (simp add: find_longest_cache_hit_def swa_find_longest_cache_hit_def cdiv_def window_pool(3)
        py_index_def pop_hits_def align_hits_def numeral_eq_Suc)
  then show ?thesis using window_pool(1,3)
    by (simp add: first_read_def get_num_skipped_tokens_def SingleTypeKVCacheManager_def)
qed

end
