(* ===== verification/Coordinator.thy ===== *)
theory Coordinator
  imports Cache_Hit
begin

text \<open>
  The coordinator of the KV-cache groups: \<^verbatim>\<open>vllm/v1/core/kv_cache_coordinator.py\<close>. One record serves
  the three classes; the field \<open>co_kind\<close> says which one a coordinator is. It owns the block pool and
  one manager per group, and its operations visit the managers in order, threading the pool.
\<close>

section \<open>State and construction\<close>

text \<open>
  The fields of a cache specification that the managers never read but by which specifications are
  compared (\<^verbatim>\<open>vllm/v1/kv_cache_interface.py\<close>); data types are named by strings.
\<close>

record spec_layout =
  num_kv_heads :: int
  head_size :: int
  spec_dtype :: string
  page_size_padded :: "int option"
  head_size_v :: int
  full_sliding_window :: "int option"
  full_attention_chunk_size :: "int option"
  cache_dtype_str :: "string option"
  mamba_shapes :: "int list list"
  mamba_dtypes :: "string list"
  mamba_type :: string

type_synonym group_spec = "spec_layout \<times> kv_cache_spec"

datatype coord_kind = NoPrefixCache | Unitary | Hybrid

record coordinator =
  co_kind :: coord_kind
  co_groups :: "group_spec list"
  co_pool :: block_pool
  co_managers :: "manager list"
  co_use_eagle :: bool
  co_enable_caching :: bool
  co_dcp :: int
  co_pcp :: int
  co_hash_block_size :: int
  attention_groups :: "(group_spec \<times> int list) list"
  lcm_block_size :: int

text \<open>\<^verbatim>\<open>isinstance(spec, FullAttentionSpec)\<close>, which holds of the subclasses too.\<close>

definition is_full_attention :: "kv_cache_spec \<Rightarrow> bool" where
  "is_full_attention spec =
     (case spec of FullAttentionSpec b \<Rightarrow> True | MLAAttentionSpec b \<Rightarrow> True
      | SinkFullAttentionSpec b s \<Rightarrow> True | _ \<Rightarrow> False)"

fun make_managers ::
  "int \<Rightarrow> group_spec list \<Rightarrow> bool \<Rightarrow> int \<Rightarrow> int \<Rightarrow> block_pool \<Rightarrow> (manager list \<times> block_pool) res" where
  "make_managers i [] caching dcp pcp p = Inr ([], p)"
| "make_managers i (g # gs) caching dcp pcp p =
     and_then (get_manager_for_kv_cache_spec (snd g) caching i dcp pcp p) (\<lambda>(m, p1).
     and_then (make_managers (i + 1) gs caching dcp pcp p1) (\<lambda>(ms, p2). Inr (m # ms, p2)))"

text \<open>The base-class constructor; the environment decides how hashes are reported in events.\<close>

definition KVCacheCoordinator ::
  "coord_kind \<Rightarrow> group_spec list \<Rightarrow> int \<Rightarrow> bool \<Rightarrow> bool \<Rightarrow> bool \<Rightarrow> int \<Rightarrow> int \<Rightarrow> int \<Rightarrow> bool \<Rightarrow> coordinator res" where
  "KVCacheCoordinator kind groups num_blocks use_eagle caching events dcp pcp hbs int_hashes =
     and_then (BlockPool num_blocks caching hbs events int_hashes) (\<lambda>p.
     and_then (make_managers 0 groups caching dcp pcp p) (\<lambda>(ms, p').
       Inr \<lparr>co_kind = kind, co_groups = groups, co_pool = p', co_managers = ms, co_use_eagle = use_eagle,
            co_enable_caching = caching, co_dcp = dcp, co_pcp = pcp, co_hash_block_size = hbs,
            attention_groups = [], lcm_block_size = 1\<rparr>))"

text \<open>The block size of a unitary coordinator, scaled by each parallel size above one.\<close>

definition unitary_block_size :: "kv_cache_spec \<Rightarrow> int \<Rightarrow> int \<Rightarrow> int" where
  "unitary_block_size spec dcp pcp =
     (let bs = (if dcp > 1 then spec_block_size spec * dcp else spec_block_size spec)
      in if pcp > 1 then bs * pcp else bs)"

definition UnitaryKVCacheCoordinator ::
  "group_spec list \<Rightarrow> int \<Rightarrow> bool \<Rightarrow> bool \<Rightarrow> bool \<Rightarrow> int \<Rightarrow> int \<Rightarrow> int \<Rightarrow> bool \<Rightarrow> coordinator res" where
  "UnitaryKVCacheCoordinator groups num_blocks use_eagle caching events dcp pcp hbs int_hashes =
     and_then (KVCacheCoordinator Unitary groups num_blocks use_eagle caching events dcp pcp hbs int_hashes) (\<lambda>c.
     and_then (py_index groups 0) (\<lambda>g.
     and_then (py_assert (\<not> caching \<or> hbs = unitary_block_size (snd g) dcp pcp)) (\<lambda>_.
     and_then (py_assert (length groups = 1)) (\<lambda>_. Inr c))))"

text \<open>Groups with equal specifications are looked up together.\<close>

fun join_group :: "int \<Rightarrow> group_spec \<Rightarrow> (group_spec \<times> int list) list \<Rightarrow> (group_spec \<times> int list) list" where
  "join_group i spec [] = [(spec, [i])]"
| "join_group i spec ((s, ids) # rest) =
     (if s = spec then (s, ids @ [i]) # rest else (s, ids) # join_group i spec rest)"

fun split_groups :: "int \<Rightarrow> group_spec list \<Rightarrow> (group_spec \<times> int list) list \<Rightarrow> (group_spec \<times> int list) list" where
  "split_groups i [] acc = acc"
| "split_groups i (g # gs) acc = split_groups (i + 1) gs (join_group i g acc)"

definition verify_and_split_kv_cache_groups :: "coordinator \<Rightarrow> coordinator res" where
  "verify_and_split_kv_cache_groups c =
     (let groups = split_groups 0 (co_groups c) []
      in and_then (py_assert (length groups > 1)) (\<lambda>_.
           Inr (c\<lparr>attention_groups := filter (\<lambda>g. is_full_attention (snd (fst g))) groups @
                    filter (\<lambda>g. \<not> is_full_attention (snd (fst g))) groups,
                  lcm_block_size := fold (\<lambda>g l. lcm l (spec_block_size (snd (fst g)))) groups 1\<rparr>)))"

definition HybridKVCacheCoordinator ::
  "group_spec list \<Rightarrow> int \<Rightarrow> bool \<Rightarrow> bool \<Rightarrow> bool \<Rightarrow> int \<Rightarrow> int \<Rightarrow> int \<Rightarrow> bool \<Rightarrow> coordinator res" where
  "HybridKVCacheCoordinator groups num_blocks use_eagle caching events dcp pcp hbs int_hashes =
     and_then (KVCacheCoordinator Hybrid groups num_blocks use_eagle caching events dcp pcp hbs int_hashes) (\<lambda>c.
     and_then (py_assert (\<forall>g\<in>set groups. spec_block_size (snd g) mod hbs = 0)) (\<lambda>_.
     and_then (py_assert (dcp = 1)) (\<lambda>_. and_then (py_assert (pcp = 1)) (\<lambda>_.
       verify_and_split_kv_cache_groups c))))"

definition get_kv_cache_coordinator ::
  "group_spec list \<Rightarrow> int \<Rightarrow> bool \<Rightarrow> bool \<Rightarrow> bool \<Rightarrow> int \<Rightarrow> int \<Rightarrow> int \<Rightarrow> bool \<Rightarrow> coordinator res" where
  "get_kv_cache_coordinator groups num_blocks use_eagle caching events dcp pcp hbs int_hashes =
     (if \<not> caching
      then KVCacheCoordinator NoPrefixCache groups num_blocks use_eagle False events dcp pcp hbs int_hashes
      else if length groups = 1
      then UnitaryKVCacheCoordinator groups num_blocks use_eagle caching events dcp pcp hbs int_hashes
      else HybridKVCacheCoordinator groups num_blocks use_eagle caching events dcp pcp hbs int_hashes)"

section \<open>Operations on all managers\<close>

text \<open>
  The loop \<^verbatim>\<open>for i, manager in enumerate(self.single_type_managers)\<close>: every manager in turn, with the
  pool its predecessors left.
\<close>

fun each_manager ::
  "(nat \<Rightarrow> manager \<Rightarrow> block_pool \<Rightarrow> ('a \<times> manager \<times> block_pool) res) \<Rightarrow> nat \<Rightarrow> manager list \<Rightarrow> block_pool \<Rightarrow>
   ('a list \<times> manager list \<times> block_pool) res" where
  "each_manager f i [] p = Inr ([], [], p)"
| "each_manager f i (m # ms) p =
     and_then (f i m p) (\<lambda>(a, m', p1).
     and_then (each_manager f (Suc i) ms p1) (\<lambda>(as, ms', p2). Inr (a # as, m' # ms', p2)))"

definition on_managers ::
  "(nat \<Rightarrow> manager \<Rightarrow> block_pool \<Rightarrow> ('a \<times> manager \<times> block_pool) res) \<Rightarrow> coordinator \<Rightarrow>
   ('a list \<times> coordinator) res" where
  "on_managers f c =
     and_then (each_manager f 0 (co_managers c) (co_pool c)) (\<lambda>(as, ms, p).
       Inr (as, c\<lparr>co_managers := ms, co_pool := p\<rparr>))"

definition coord_get_num_blocks_to_allocate ::
  "string \<Rightarrow> int \<Rightarrow> node list list \<Rightarrow> int \<Rightarrow> int \<Rightarrow> int \<Rightarrow> coordinator \<Rightarrow> (int \<times> coordinator) res" where
  "coord_get_num_blocks_to_allocate rid ntok new_computed_blocks num_encoder_tokens
       total_computed_tokens num_tokens_main_model c =
     and_then (on_managers (\<lambda>i m p.
       if is_cross m
       then and_then (get_num_blocks_to_allocate p m rid num_encoder_tokens [] 0 num_encoder_tokens)
              (\<lambda>(n, m'). Inr (n, m', p))
       else and_then (py_index new_computed_blocks (int i)) (\<lambda>bs.
            and_then (get_num_blocks_to_allocate p m rid ntok bs total_computed_tokens num_tokens_main_model)
              (\<lambda>(n, m'). Inr (n, m', p)))) c)
       (\<lambda>(ns, c'). Inr (sum_list ns, c'))"

definition coord_allocate_new_computed_blocks ::
  "string \<Rightarrow> node list list \<Rightarrow> int \<Rightarrow> int \<Rightarrow> coordinator \<Rightarrow> coordinator res" where
  "coord_allocate_new_computed_blocks rid new_computed_blocks num_local num_external c =
     and_then (on_managers (\<lambda>i m p.
       and_then (py_index new_computed_blocks (int i)) (\<lambda>bs.
       and_then (allocate_new_computed_blocks rid bs num_local num_external m p) (\<lambda>(m', p').
         Inr ((), m', p')))) c)
       (\<lambda>(_, c'). Inr c')"

definition coord_allocate_new_blocks ::
  "string \<Rightarrow> int \<Rightarrow> int \<Rightarrow> int \<Rightarrow> coordinator \<Rightarrow> (node list list \<times> coordinator) res" where
  "coord_allocate_new_blocks rid ntok num_tokens_main_model num_encoder_tokens c =
     on_managers (\<lambda>i m p.
       allocate_new_blocks rid (if is_cross m then num_encoder_tokens else ntok) num_tokens_main_model m p) c"

text \<open>Caching updates the memo of embedding digests of the request, which the managers share.\<close>

fun cache_managers ::
  "hash_env \<Rightarrow> request \<Rightarrow> int \<Rightarrow> manager list \<Rightarrow> block_pool \<Rightarrow> (manager list \<times> block_pool \<times> request) res" where
  "cache_managers env r ntok [] p = Inr ([], p, r)"
| "cache_managers env r ntok (m # ms) p =
     and_then (cache_blocks env r ntok m p) (\<lambda>(m', p1, r1).
     and_then (cache_managers env r1 ntok ms p1) (\<lambda>(ms', p2, r2). Inr (m' # ms', p2, r2)))"

definition coord_cache_blocks :: "hash_env \<Rightarrow> request \<Rightarrow> int \<Rightarrow> coordinator \<Rightarrow> (coordinator \<times> request) res" where
  "coord_cache_blocks env r ntok c =
     and_then (cache_managers env r ntok (co_managers c) (co_pool c)) (\<lambda>(ms, p, r').
       Inr (c\<lparr>co_managers := ms, co_pool := p\<rparr>, r'))"

definition coord_free :: "string \<Rightarrow> coordinator \<Rightarrow> coordinator res" where
  "coord_free rid c =
     and_then (on_managers (\<lambda>i m p. and_then (free rid m p) (\<lambda>(m', p'). Inr ((), m', p'))) c)
       (\<lambda>(_, c'). Inr c')"

definition coord_remove_skipped_blocks :: "string \<Rightarrow> int \<Rightarrow> coordinator \<Rightarrow> coordinator res" where
  "coord_remove_skipped_blocks rid total_computed_tokens c =
     and_then (on_managers (\<lambda>i m p.
       and_then (remove_skipped_blocks rid total_computed_tokens m p) (\<lambda>(m', p'). Inr ((), m', p'))) c)
       (\<lambda>(_, c'). Inr c')"

definition coord_get_num_common_prefix_blocks :: "string \<Rightarrow> coordinator \<Rightarrow> int list \<times> coordinator" where
  "coord_get_num_common_prefix_blocks rid c =
     (if co_kind c = NoPrefixCache then (replicate (length (co_managers c)) 0, c)
      else let rs = map (\<lambda>m. get_num_common_prefix_blocks (co_pool c) m rid) (co_managers c)
           in (map fst rs, c\<lparr>co_managers := map snd rs\<rparr>))"

definition coord_get_blocks :: "string \<Rightarrow> coordinator \<Rightarrow> node list list" where
  "coord_get_blocks rid c = map (\<lambda>m. blocks_of m rid) (co_managers c)"

definition coord_new_step_starts :: "coordinator \<Rightarrow> coordinator" where
  "coord_new_step_starts c = c\<lparr>co_managers := map new_step_starts (co_managers c)\<rparr>"

section \<open>The longest cache hit over all groups\<close>

type_synonym group_hits = "node list option list"

definition store_hits :: "int list \<Rightarrow> node list list \<Rightarrow> group_hits \<Rightarrow> group_hits" where
  "store_hits gids hit_blocks hits = fold (\<lambda>(g, b) h. h[nat g := Some b]) (zip gids hit_blocks) hits"

text \<open>
  One pass over the attention types: a full-attention group looked up before only rounds the length
  down, every other group is searched up to the current length.
\<close>

fun hybrid_pass ::
  "coordinator \<Rightarrow> bytes list \<Rightarrow> (group_spec \<times> int list) list \<Rightarrow> int \<Rightarrow> group_hits \<Rightarrow> (int \<times> group_hits) res" where
  "hybrid_pass c hs [] curr_hit_length hits = Inr (curr_hit_length, hits)"
| "hybrid_pass c hs ((g, gids) # rest) curr_hit_length hits =
     (let spec = snd g; bs = spec_block_size spec
      in and_then (py_index gids 0) (\<lambda>g0. and_then (py_index hits g0) (\<lambda>cached.
         if is_full_attention spec \<and> cached \<noteq> None
         then hybrid_pass c hs rest (curr_hit_length div bs * bs) hits
         else and_then (group_hashes (co_hash_block_size c) bs hs) (\<lambda>hl.
              and_then (find_longest_cache_hit hl curr_hit_length gids (co_pool c) spec (co_use_eagle c)
                  (lcm_block_size c) 1 1) (\<lambda>hit_blocks.
              and_then (py_index hit_blocks 0) (\<lambda>b0.
                hybrid_pass c hs rest (int (length b0) * bs) (store_hits gids hit_blocks hits)))))))"

text \<open>The fixed-point loop; running out of fuel is the error \<open>Diverges\<close>.\<close>

fun hybrid_loop ::
  "nat \<Rightarrow> coordinator \<Rightarrow> bytes list \<Rightarrow> bool \<Rightarrow> int \<Rightarrow> group_hits \<Rightarrow> (int \<times> group_hits) res" where
  "hybrid_loop 0 c hs is_simple_hybrid hit_length hits = Inl Diverges"
| "hybrid_loop (Suc fuel) c hs is_simple_hybrid hit_length hits =
     and_then (hybrid_pass c hs (attention_groups c) hit_length hits) (\<lambda>(curr_hit_length, hits').
       if curr_hit_length \<ge> hit_length then Inr (hit_length, hits')
       else if is_simple_hybrid then Inr (curr_hit_length, hits')
       else hybrid_loop fuel c hs is_simple_hybrid curr_hit_length hits')"

definition truncate_full :: "coordinator \<Rightarrow> int \<Rightarrow> group_hits \<Rightarrow> group_hits res" where
  "truncate_full c hit_length hits =
     and_then (py_index (attention_groups c) 0) (\<lambda>(g, gids).
       Inr (if is_full_attention (snd g)
            then fold (\<lambda>i h. h[nat i := map_option (\<lambda>b. py_upto b (hit_length div spec_block_size (snd g))) (h ! nat i)])
                   gids hits
            else hits))"

definition hybrid_find_longest_cache_hit ::
  "coordinator \<Rightarrow> bytes list \<Rightarrow> int \<Rightarrow> (node list list \<times> int) res" where
  "hybrid_find_longest_cache_hit c hs max_cache_hit_length =
     (let is_simple_hybrid = (length (attention_groups c) = 2 \<and>
            is_full_attention (snd (fst (attention_groups c ! 0))))
      in and_then (hybrid_loop (Suc (nat max_cache_hit_length)) c hs is_simple_hybrid max_cache_hit_length
             (replicate (length (co_groups c)) None)) (\<lambda>(hit_length, hits).
         and_then (truncate_full c hit_length hits) (\<lambda>hits'.
           Inr (map (\<lambda>h. case h of Some b \<Rightarrow> b | None \<Rightarrow> []) hits', hit_length))))"

definition unitary_find_longest_cache_hit ::
  "coordinator \<Rightarrow> bytes list \<Rightarrow> int \<Rightarrow> (node list list \<times> int) res" where
  "unitary_find_longest_cache_hit c hs max_cache_hit_length =
     and_then (py_index (co_groups c) 0) (\<lambda>g.
       let bs = unitary_block_size (snd g) (co_dcp c) (co_pcp c)
       in and_then (find_longest_cache_hit (Fine hs) max_cache_hit_length [0] (co_pool c) (snd g)
              (co_use_eagle c) bs (co_dcp c) (co_pcp c)) (\<lambda>hit_blocks.
          and_then (py_index hit_blocks 0) (\<lambda>b. Inr (hit_blocks, int (length b) * bs))))"

definition coord_find_longest_cache_hit ::
  "coordinator \<Rightarrow> bytes list \<Rightarrow> int \<Rightarrow> (node list list \<times> int) res" where
  "coord_find_longest_cache_hit c hs max_cache_hit_length =
     (case co_kind c of
        NoPrefixCache \<Rightarrow> Inr (replicate (length (co_managers c)) [], 0)
      | Unitary \<Rightarrow> unitary_find_longest_cache_hit c hs max_cache_hit_length
      | Hybrid \<Rightarrow> hybrid_find_longest_cache_hit c hs max_cache_hit_length)"

end
