(* ===== verification/KV_Manager.thy ===== *)
theory KV_Manager
  imports Coordinator
begin

text \<open>
  The interface of the scheduler to the KV cache: \<^verbatim>\<open>vllm/v1/core/kv_cache_manager.py\<close>. The shared
  object \<^verbatim>\<open>empty_kv_cache_blocks\<close>, which the code recognises by identity, is \<open>None\<close>.
\<close>

section \<open>Allocation results\<close>

type_synonym kv_cache_blocks = "node list list option"

definition kv_blocks :: "nat \<Rightarrow> kv_cache_blocks \<Rightarrow> node list list" where
  "kv_blocks num_groups b = (case b of Some bs \<Rightarrow> bs | None \<Rightarrow> replicate num_groups [])"

definition blocks_add :: "nat \<Rightarrow> kv_cache_blocks \<Rightarrow> kv_cache_blocks \<Rightarrow> kv_cache_blocks" where
  "blocks_add n a b = Some (map2 (@) (kv_blocks n a) (kv_blocks n b))"

definition get_block_ids :: "block_pool \<Rightarrow> bool \<Rightarrow> node list list \<Rightarrow> int list list option" where
  "get_block_ids p allow_none bs =
     (if allow_none \<and> (\<forall>b\<in>set bs. b = []) then None else Some (map (map (ident_in p)) bs))"

definition get_unhashed_block_ids :: "block_pool \<Rightarrow> node list list \<Rightarrow> int list res" where
  "get_unhashed_block_ids p bs =
     and_then (py_assert (length bs = 1)) (\<lambda>_.
       Inr (map (ident_in p) (filter (\<lambda>b. block_hash (heap p b) = None) (bs ! 0))))"

definition get_unhashed_block_ids_all_groups :: "block_pool \<Rightarrow> node list list \<Rightarrow> int list list" where
  "get_unhashed_block_ids_all_groups p bs =
     map (\<lambda>g. map (ident_in p) (filter (\<lambda>b. block_hash (heap p b) = None \<and> \<not> is_null (heap p b)) g)) bs"

definition new_empty :: "node list list \<Rightarrow> node list list" where
  "new_empty bs = map (\<lambda>_. []) bs"

section \<open>State\<close>

record prefix_cache_stats =
  stats_reset :: bool
  stats_requests :: int
  stats_queries :: int
  stats_hits :: int
  preempted_requests :: int
  preempted_queries :: int
  preempted_hits :: int

definition PrefixCacheStats :: prefix_cache_stats where
  "PrefixCacheStats = \<lparr>stats_reset = False, stats_requests = 0, stats_queries = 0, stats_hits = 0,
     preempted_requests = 0, preempted_queries = 0, preempted_hits = 0\<rparr>"

definition stats_record :: "int \<Rightarrow> int \<Rightarrow> bool \<Rightarrow> prefix_cache_stats \<Rightarrow> prefix_cache_stats" where
  "stats_record ntok num_hits preempted s =
     (if preempted
      then s\<lparr>preempted_requests := preempted_requests s + 1,
             preempted_queries := preempted_queries s + ntok, preempted_hits := preempted_hits s + num_hits\<rparr>
      else s\<lparr>stats_requests := stats_requests s + 1, stats_queries := stats_queries s + ntok,
             stats_hits := stats_hits s + num_hits\<rparr>)"

record kv_manager =
  kv_coordinator :: coordinator
  kv_max_model_len :: int
  kv_enable_caching :: bool
  kv_log_stats :: bool
  prefix_stats :: "prefix_cache_stats option"

abbreviation kv_pool :: "kv_manager \<Rightarrow> block_pool" where
  "kv_pool k \<equiv> co_pool (kv_coordinator k)"

abbreviation num_kv_cache_groups :: "kv_manager \<Rightarrow> nat" where
  "num_kv_cache_groups k \<equiv> length (co_groups (kv_coordinator k))"

definition KVCacheManager ::
  "group_spec list \<Rightarrow> int \<Rightarrow> int \<Rightarrow> int \<Rightarrow> bool \<Rightarrow> bool \<Rightarrow> bool \<Rightarrow> bool \<Rightarrow> int \<Rightarrow> int \<Rightarrow> bool \<Rightarrow> kv_manager res" where
  "KVCacheManager groups num_blocks max_model_len hbs caching use_eagle log_stats events dcp pcp int_hashes =
     and_then (get_kv_cache_coordinator groups num_blocks use_eagle caching events dcp pcp hbs int_hashes) (\<lambda>c.
       Inr \<lparr>kv_coordinator = c, kv_max_model_len = max_model_len, kv_enable_caching = caching,
            kv_log_stats = log_stats, prefix_stats = (if log_stats then Some PrefixCacheStats else None)\<rparr>)"

section \<open>Operations\<close>

definition kv_usage :: "kv_manager \<Rightarrow> rat" where
  "kv_usage k = get_usage (kv_pool k)"

definition make_prefix_cache_stats :: "kv_manager \<Rightarrow> prefix_cache_stats option \<times> kv_manager" where
  "make_prefix_cache_stats k =
     (if \<not> kv_log_stats k then (None, k)
      else (prefix_stats k, k\<lparr>prefix_stats := Some PrefixCacheStats\<rparr>))"

definition create_kv_cache_blocks :: "node list list \<Rightarrow> kv_cache_blocks" where
  "create_kv_cache_blocks bs = (if \<exists>b\<in>set bs. b \<noteq> [] then Some bs else None)"

definition get_computed_blocks :: "request \<Rightarrow> kv_manager \<Rightarrow> ((kv_cache_blocks \<times> int) \<times> kv_manager) res" where
  "get_computed_blocks r k =
     (if \<not> kv_enable_caching k \<or> skip_reading_prefix_cache r then Inr ((None, 0), k)
      else let max_cache_hit_length = num_tokens r - 1
      in and_then (coord_find_longest_cache_hit (kv_coordinator k) (block_hashes r) max_cache_hit_length)
           (\<lambda>(computed, num_new_computed_tokens).
         and_then (if kv_log_stats k
                   then and_then (of_option AssertionError (prefix_stats k)) (\<lambda>s.
                     Inr (k\<lparr>prefix_stats :=
                       Some (stats_record (num_tokens r) num_new_computed_tokens (num_preemptions r > 0) s)\<rparr>))
                   else Inr k)
           (\<lambda>k'. Inr ((create_kv_cache_blocks computed, num_new_computed_tokens), k'))))"

definition can_fit_full_sequence ::
  "request \<Rightarrow> int \<Rightarrow> kv_cache_blocks \<Rightarrow> int \<Rightarrow> int \<Rightarrow> kv_manager \<Rightarrow> (bool \<times> kv_manager) res" where
  "can_fit_full_sequence r num_new_computed_tokens new_computed_blocks num_external num_encoder_tokens k =
     (let block_list = kv_blocks (num_kv_cache_groups k) new_computed_blocks;
          num_local = num_computed_tokens r + num_new_computed_tokens;
          total_computed_tokens = min (num_local + num_external) (kv_max_model_len k);
          full_num_tokens = min (num_tokens r) (kv_max_model_len k)
      in and_then (coord_get_num_blocks_to_allocate (request_id r) full_num_tokens block_list
             num_encoder_tokens total_computed_tokens full_num_tokens (kv_coordinator k)) (\<lambda>(n, c).
           Inr (n \<le> get_num_free_blocks (co_pool c), k\<lparr>kv_coordinator := c\<rparr>)))"

text \<open>
  \<open>Inr (None, \<dots>)\<close> is the result \<^verbatim>\<open>None\<close> of the code, too few free blocks; the request comes back with
  its memo of embedding digests.
\<close>

definition allocate_slots ::
  "hash_env \<Rightarrow> request \<Rightarrow> int \<Rightarrow> int \<Rightarrow> kv_cache_blocks \<Rightarrow> int \<Rightarrow> int \<Rightarrow> bool \<Rightarrow> int \<Rightarrow> kv_manager \<Rightarrow>
   (kv_cache_blocks option \<times> kv_manager \<times> request) res" where
  "allocate_slots env r num_new_tokens num_new_computed_tokens new_computed_blocks num_lookahead_tokens
       num_external delay_cache_blocks num_encoder_tokens k =
     (if num_new_tokens = 0 \<and> num_external = 0 then Inl ValueError
      else let block_list = kv_blocks (num_kv_cache_groups k) new_computed_blocks;
               num_local = num_computed_tokens r + num_new_computed_tokens;
               total_computed_tokens = min (num_local + num_external) (kv_max_model_len k);
               num_tokens_main_model = total_computed_tokens + num_new_tokens;
               num_tokens_need_slot = min (num_tokens_main_model + num_lookahead_tokens) (kv_max_model_len k)
      in and_then (coord_remove_skipped_blocks (request_id r) total_computed_tokens (kv_coordinator k)) (\<lambda>c1.
         and_then (coord_get_num_blocks_to_allocate (request_id r) num_tokens_need_slot block_list
             num_encoder_tokens (num_local + num_external) num_tokens_main_model c1) (\<lambda>(n, c2).
         if n > get_num_free_blocks (co_pool c2) then Inr (None, k\<lparr>kv_coordinator := c2\<rparr>, r)
         else and_then (if new_computed_blocks \<noteq> None \<or> num_external > 0
                        then coord_allocate_new_computed_blocks (request_id r) block_list num_local num_external c2
                        else Inr c2) (\<lambda>c3.
              and_then (coord_allocate_new_blocks (request_id r) num_tokens_need_slot num_tokens_main_model
                  num_encoder_tokens c3) (\<lambda>(new_blocks, c4).
              if \<not> kv_enable_caching k \<or> delay_cache_blocks
              then Inr (Some (create_kv_cache_blocks new_blocks), k\<lparr>kv_coordinator := c4\<rparr>, r)
              else let num_tokens_to_cache = min (total_computed_tokens + num_new_tokens) (num_tokens r)
              in and_then (coord_cache_blocks env r num_tokens_to_cache c4) (\<lambda>(c5, r').
                   Inr (Some (create_kv_cache_blocks new_blocks), k\<lparr>kv_coordinator := c5\<rparr>, r')))))))"

definition kv_free :: "request \<Rightarrow> kv_manager \<Rightarrow> kv_manager res" where
  "kv_free r k = and_then (coord_free (request_id r) (kv_coordinator k)) (\<lambda>c. Inr (k\<lparr>kv_coordinator := c\<rparr>))"

definition kv_remove_skipped_blocks :: "string \<Rightarrow> int \<Rightarrow> kv_manager \<Rightarrow> kv_manager res" where
  "kv_remove_skipped_blocks rid total_computed_tokens k =
     and_then (coord_remove_skipped_blocks rid total_computed_tokens (kv_coordinator k))
       (\<lambda>c. Inr (k\<lparr>kv_coordinator := c\<rparr>))"

definition kv_evict_blocks :: "int list \<Rightarrow> kv_manager \<Rightarrow> kv_manager res" where
  "kv_evict_blocks block_ids k =
     and_then (evict_blocks block_ids (kv_pool k))
       (\<lambda>p. Inr (k\<lparr>kv_coordinator := (kv_coordinator k)\<lparr>co_pool := p\<rparr>\<rparr>))"

definition kv_reset_prefix_cache :: "kv_manager \<Rightarrow> (bool \<times> kv_manager) res" where
  "kv_reset_prefix_cache k =
     (let (ok, p) = reset_prefix_cache (kv_pool k);
          k' = k\<lparr>kv_coordinator := (kv_coordinator k)\<lparr>co_pool := p\<rparr>\<rparr>
      in if \<not> ok then Inr (False, k')
         else if kv_log_stats k
         then and_then (of_option AssertionError (prefix_stats k)) (\<lambda>s.
                Inr (True, k'\<lparr>prefix_stats := Some (s\<lparr>stats_reset := True\<rparr>)\<rparr>))
         else Inr (True, k'))"

definition kv_get_num_common_prefix_blocks :: "string \<Rightarrow> kv_manager \<Rightarrow> int list \<times> kv_manager" where
  "kv_get_num_common_prefix_blocks rid k =
     (let (ns, c) = coord_get_num_common_prefix_blocks rid (kv_coordinator k)
      in (ns, k\<lparr>kv_coordinator := c\<rparr>))"

definition kv_take_events :: "kv_manager \<Rightarrow> kv_event list \<times> kv_manager" where
  "kv_take_events k =
     (let (es, p) = take_events (kv_pool k) in (es, k\<lparr>kv_coordinator := (kv_coordinator k)\<lparr>co_pool := p\<rparr>\<rparr>))"

definition kv_get_blocks :: "string \<Rightarrow> kv_manager \<Rightarrow> kv_cache_blocks" where
  "kv_get_blocks rid k = create_kv_cache_blocks (coord_get_blocks rid (kv_coordinator k))"

definition kv_get_block_ids :: "string \<Rightarrow> kv_manager \<Rightarrow> int list list" where
  "kv_get_block_ids rid k =
     map (map (ident_in (kv_pool k))) (kv_blocks (num_kv_cache_groups k) (kv_get_blocks rid k))"

definition kv_cache_blocks_op :: "hash_env \<Rightarrow> request \<Rightarrow> int \<Rightarrow> kv_manager \<Rightarrow> (kv_manager \<times> request) res" where
  "kv_cache_blocks_op env r ncomp k =
     (if kv_enable_caching k
      then and_then (coord_cache_blocks env r ncomp (kv_coordinator k))
             (\<lambda>(c, r'). Inr (k\<lparr>kv_coordinator := c\<rparr>, r'))
      else Inr (k, r))"

definition kv_take_new_block_ids :: "kv_manager \<Rightarrow> int list \<times> kv_manager" where
  "kv_take_new_block_ids k =
     (let ms = co_managers (kv_coordinator k)
      in (concat (map (\<lambda>m. fst (take_new_block_ids m)) ms),
          k\<lparr>kv_coordinator := (kv_coordinator k)\<lparr>co_managers := map (\<lambda>m. snd (take_new_block_ids m)) ms\<rparr>\<rparr>))"

definition kv_new_step_starts :: "kv_manager \<Rightarrow> kv_manager" where
  "kv_new_step_starts k = k\<lparr>kv_coordinator := coord_new_step_starts (kv_coordinator k)\<rparr>"

end
