(* ===== verification/Manager_Invariant.thy ===== *)
theory Manager_Invariant
  imports KV_Manager
begin

text \<open>
  Ownership of blocks: a manager holds references to the blocks in the lists of its requests, and
  the reference counts of the pool are the references of all holders. A block past the cached part
  of a request, which the model still writes to, has one holder and no hash. Every operation of a
  manager keeps this, whatever references \<open>R\<close> the other managers hold.
\<close>

section \<open>The invariant of a manager\<close>

definition held :: "manager \<Rightarrow> nat \<Rightarrow> int" where
  "held m i = sum_list (map (\<lambda>(rid, bs). int (count_list bs (Blk i))) (req_to_blocks m))"

abbreviation cached_count :: "manager \<Rightarrow> string \<Rightarrow> int" where
  "cached_count m rid \<equiv> dict_get (num_cached_block m) rid 0"

definition block_list_ok :: "block_pool \<Rightarrow> node list \<Rightarrow> bool" where
  "block_list_ok p bs \<longleftrightarrow>
     (\<forall>b\<in>set bs. \<exists>i<pool_size p. b = Blk i) \<and> distinct (filter (\<lambda>b. b \<noteq> Blk 0) bs)"

definition tail_ok :: "block_pool \<Rightarrow> int \<Rightarrow> node list \<Rightarrow> bool" where
  "tail_ok p c bs \<longleftrightarrow>
     (\<forall>n i. n < length bs \<longrightarrow> c \<le> int n \<longrightarrow> bs ! n = Blk i \<longrightarrow> i \<noteq> 0 \<longrightarrow> hash_of p i = None \<and> ref p i = 1)"

definition mgr_wf :: "block_pool \<Rightarrow> manager \<Rightarrow> bool" where
  "mgr_wf p m \<longleftrightarrow> distinct (map fst (req_to_blocks m)) \<and> 0 < m_block_size m \<and>
     m_enable_caching m = enable_caching p \<and>
     (\<forall>rid. 0 \<le> cached_count m rid \<and> block_list_ok p (blocks_of m rid) \<and>
        tail_ok p (cached_count m rid) (blocks_of m rid))"

definition owns :: "(nat \<Rightarrow> int) \<Rightarrow> block_pool \<Rightarrow> manager \<Rightarrow> bool" where
  "owns R p m \<longleftrightarrow> (\<forall>i. 0 \<le> R i) \<and> (\<forall>i\<in>{0<..<pool_size p}. ref p i = R i + held m i)"

text \<open>Blocks that only others hold and that carry no hash are left alone.\<close>

definition frame :: "(nat \<Rightarrow> int) \<Rightarrow> block_pool \<Rightarrow> manager \<Rightarrow> block_pool \<Rightarrow> manager \<Rightarrow> bool" where
  "frame R p m p' m' \<longleftrightarrow> same_config p p' \<and>
     (\<forall>i\<in>{0<..<pool_size p}. 0 < R i \<longrightarrow> hash_of p i = None \<longrightarrow> held m i = 0 \<longrightarrow>
        hash_of p' i = None \<and> held m' i = 0)"

definition uncached_plain :: "block_pool \<Rightarrow> bool" where
  "uncached_plain p \<longleftrightarrow> enable_caching p \<or> (\<forall>i. hash_of p i = None)"

text \<open>What a step of a manager from \<open>(p, m)\<close> to \<open>(p', m')\<close> establishes.\<close>

definition mgr_op ::
  "(nat \<Rightarrow> int) \<Rightarrow> block_pool \<Rightarrow> manager \<Rightarrow> block_pool \<Rightarrow> nat list \<Rightarrow> manager \<Rightarrow> bool" where
  "mgr_op R p m p' xs' m' \<longleftrightarrow>
     pool_inv p' xs' \<and> uncached_plain p' \<and> mgr_wf p' m' \<and> owns R p' m' \<and> frame R p m p' m'"

section \<open>Counting references\<close>

lemma held_alist:
  fixes d :: "(string \<times> node list) list"
  assumes "distinct (map fst d)"
  shows "sum_list (map (\<lambda>(rid, bs). int (count_list bs b)) (AList.update rid bs' d)) =
      sum_list (map (\<lambda>(rid, bs). int (count_list bs b)) d) - int (count_list (dict_get d rid []) b) + int (count_list bs' b)"
    and "sum_list (map (\<lambda>(rid, bs). int (count_list bs b)) (AList.delete rid d)) =
      sum_list (map (\<lambda>(rid, bs). int (count_list bs b)) d) - int (count_list (dict_get d rid []) b)"
proof -
  have absent: "map_of d rid = None" if "rid \<notin> fst ` set d" for d :: "(string \<times> node list) list"
    using that by (simp add: map_of_eq_None_iff)
  show "sum_list (map (\<lambda>(rid, bs). int (count_list bs b)) (AList.update rid bs' d)) =
      sum_list (map (\<lambda>(rid, bs). int (count_list bs b)) d) - int (count_list (dict_get d rid []) b) + int (count_list bs' b)"
    using assms by (induction d) (auto simp: dict_get_def)
  show "sum_list (map (\<lambda>(rid, bs). int (count_list bs b)) (AList.delete rid d)) =
      sum_list (map (\<lambda>(rid, bs). int (count_list bs b)) d) - int (count_list (dict_get d rid []) b)"
    using assms by (induction d) (auto simp: dict_get_def delete_conv' absent delete_idem)
qed

lemma held_nonneg: "0 \<le> held m i"
  unfolding held_def by (rule sum_list_nonneg) auto

lemma held_set_blocks:
  assumes "distinct (map fst (req_to_blocks m))"
  shows "held (m\<lparr>req_to_blocks := AList.update rid bs (req_to_blocks m)\<rparr>) i =
    held m i - int (count_list (blocks_of m rid) (Blk i)) + int (count_list bs (Blk i))"
  using held_alist(1) [OF assms] by (simp add: held_def)

lemma held_delete:
  assumes "distinct (map fst (req_to_blocks m))"
  shows "held (m\<lparr>req_to_blocks := AList.delete rid (req_to_blocks m)\<rparr>) i =
    held m i - int (count_list (blocks_of m rid) (Blk i))"
  using held_alist(2) [OF assms] by (simp add: held_def)

lemma held_ge:
  assumes "distinct (map fst (req_to_blocks m))"
  shows "int (count_list (blocks_of m rid) (Blk i)) \<le> held m i"
  using held_delete [OF assms, of rid i] held_nonneg [of "m\<lparr>req_to_blocks := AList.delete rid (req_to_blocks m)\<rparr>" i]
  by simp

lemma held_ge2:
  assumes d: "distinct (map fst (req_to_blocks m))" and ne: "rid \<noteq> rid'"
  shows "int (count_list (blocks_of m rid) (Blk i)) + int (count_list (blocks_of m rid') (Blk i)) \<le> held m i"
proof -
  let ?m = "m\<lparr>req_to_blocks := AList.delete rid (req_to_blocks m)\<rparr>"
  have "int (count_list (blocks_of ?m rid') (Blk i)) \<le> held ?m i"
    by (rule held_ge) (simp add: d distinct_delete)
  then show ?thesis using held_delete [OF d, of rid i] ne by simp
qed

lemma held_cong: "req_to_blocks m' = req_to_blocks m \<Longrightarrow> held m' i = held m i"
  by (simp add: held_def)

lemma default_entry [simp]:
  "blocks_of (default_entry rid m) rid' = blocks_of m rid'"
  "held (default_entry rid m) i = held m i"
  "distinct (map fst (req_to_blocks (default_entry rid m))) = distinct (map fst (req_to_blocks m))"
  "num_cached_block (default_entry rid m) = num_cached_block m"
  "m_block_size (default_entry rid m) = m_block_size m" "m_spec (default_entry rid m) = m_spec m"
  "m_enable_caching (default_entry rid m) = m_enable_caching m" "m_group_id (default_entry rid m) = m_group_id m"
  "allocated_block_reqs (default_entry rid m) = allocated_block_reqs m"
  "last_state_block_idx (default_entry rid m) = last_state_block_idx m"
  "cached_blocks_this_step (default_entry rid m) = cached_blocks_this_step m"
  "new_block_ids (default_entry rid m) = new_block_ids m"
proof -
  show "blocks_of (default_entry rid m) rid' = blocks_of m rid'"
    by (auto simp: default_entry_def dict_get_def map_add_def simp flip: map_of_eq_None_iff split: option.splits)
qed (auto simp: default_entry_def held_def)

lemma mgr_wf_default [simp]: "mgr_wf p (default_entry rid m) = mgr_wf p m"
  by (simp add: mgr_wf_def)

lemma count_list_distinct_nonnull:
  assumes "distinct (filter (\<lambda>b. b \<noteq> Blk 0) bs)" "i \<noteq> 0"
  shows "count_list bs (Blk i) = (if Blk i \<in> set bs then 1 else 0)"
proof -
  have "count_list bs (Blk i) = count_list (filter (\<lambda>b. b \<noteq> Blk 0) bs) (Blk i)"
    using assms(2) by (induction bs) auto
  then show ?thesis using assms by (auto simp: distinct_count_list count_notin)
qed

text \<open>A list of blocks as indices, the form in which the pool's lemmas are stated.\<close>

lemma block_list_ok_indices:
  assumes "block_list_ok p bs"
  obtains js where "bs = map Blk js" "\<forall>j\<in>set js. j < pool_size p" "distinct (filter (\<lambda>j. j \<noteq> 0) js)"
proof -
  define js where "js = map (\<lambda>b. case b of Blk i \<Rightarrow> i | _ \<Rightarrow> 0) bs"
  have bs: "bs = map Blk js"
    unfolding js_def map_map by (rule map_idI [symmetric]) (use assms in \<open>auto simp: block_list_ok_def\<close>)
  have "filter (\<lambda>b. b \<noteq> Blk 0) (map Blk js) = map Blk (filter (\<lambda>j. j \<noteq> 0) js)"
    by (simp add: filter_map o_def)
  then have "distinct (filter (\<lambda>j. j \<noteq> 0) js)"
    using assms bs by (auto simp: block_list_ok_def distinct_map)
  moreover have "\<forall>j\<in>set js. j < pool_size p" using assms unfolding bs by (auto simp: block_list_ok_def)
  ultimately show ?thesis using that bs by blast
qed

lemma block_list_ok_map:
  "block_list_ok p (map Blk js) \<longleftrightarrow> (\<forall>j\<in>set js. j < pool_size p) \<and> distinct (filter (\<lambda>j. j \<noteq> 0) js)"
proof -
  have "filter (\<lambda>b. b \<noteq> Blk 0) (map Blk js) = map Blk (filter (\<lambda>j. j \<noteq> 0) js)"
    by (simp add: filter_map o_def)
  then show ?thesis by (auto simp: block_list_ok_def distinct_map inj_on_def)
qed

lemma count_list_map_Blk [simp]: "count_list (map Blk js) (Blk i) = count_list js i"
  by (induction js) auto

lemma count_list_pos: "b \<in> set bs \<Longrightarrow> 1 \<le> int (count_list bs b)"
  by (induction bs) auto

lemma tail_exclusive:
  assumes wf: "mgr_wf p m" and own: "owns R p m"
    and t: "n < length (blocks_of m rid)" "cached_count m rid \<le> int n" "blocks_of m rid ! n = Blk i" "i \<noteq> 0"
  shows "R i = 0" "held m i = 1" "rid' \<noteq> rid \<Longrightarrow> Blk i \<notin> set (blocks_of m rid')" "hash_of p i = None"
    "ref p i = 1" "i \<in> {0<..<pool_size p}" "Blk i \<in> set (blocks_of m rid)"
proof -
  have d: "distinct (map fst (req_to_blocks m))" using wf by (simp add: mgr_wf_def)
  show mem: "Blk i \<in> set (blocks_of m rid)" using t nth_mem by force
  have "block_list_ok p (blocks_of m rid)" using wf by (simp add: mgr_wf_def)
  then show rng: "i \<in> {0<..<pool_size p}" using mem t(4) by (auto simp: block_list_ok_def)
  show h: "hash_of p i = None" and r: "ref p i = 1"
    using wf t by (auto simp: mgr_wf_def tail_ok_def)
  have "ref p i = R i + held m i" "0 \<le> R i" using own rng by (auto simp: owns_def)
  moreover have c1: "1 \<le> int (count_list (blocks_of m rid) (Blk i))"
    by (rule count_list_pos [OF mem])
  moreover have "int (count_list (blocks_of m rid) (Blk i)) \<le> held m i" by (rule held_ge [OF d])
  ultimately show "R i = 0" and h1: "held m i = 1" using r by linarith+
  show "rid' \<noteq> rid \<Longrightarrow> Blk i \<notin> set (blocks_of m rid')"
    using held_ge2 [OF d, of rid rid' i] h1 c1 by (auto simp: count_list_0_iff [symmetric])
qed

section \<open>Changing the list of one request\<close>

text \<open>\<open>m'\<close> is \<open>m\<close> with the blocks \<open>bs\<close> for request \<open>rid\<close>, the first \<open>c\<close> of them cached.\<close>

definition updates :: "manager \<Rightarrow> string \<Rightarrow> node list \<Rightarrow> int \<Rightarrow> manager \<Rightarrow> bool" where
  "updates m rid bs c m' \<longleftrightarrow> distinct (map fst (req_to_blocks m')) \<and>
     m_block_size m' = m_block_size m \<and> m_enable_caching m' = m_enable_caching m \<and>
     m_spec m' = m_spec m \<and> m_group_id m' = m_group_id m \<and>
     (\<forall>rid'. blocks_of m' rid' = (if rid' = rid then bs else blocks_of m rid')) \<and>
     (\<forall>rid'. cached_count m' rid' = (if rid' = rid then c else cached_count m rid')) \<and>
     (\<forall>i. held m' i = held m i - int (count_list (blocks_of m rid) (Blk i)) + int (count_list bs (Blk i)))"

lemma updates_set_blocks:
  assumes "distinct (map fst (req_to_blocks m))" "req_to_blocks m' = AList.update rid bs (req_to_blocks m)"
    "m_block_size m' = m_block_size m" "m_enable_caching m' = m_enable_caching m"
    "m_spec m' = m_spec m" "m_group_id m' = m_group_id m"
    "\<And>rid'. cached_count m' rid' = (if rid' = rid then c else cached_count m rid')"
  shows "updates m rid bs c m'"
  unfolding updates_def using assms held_set_blocks [OF assms(1), of rid bs]
  by (simp add: distinct_update held_def)

lemma updates_delete:
  assumes "distinct (map fst (req_to_blocks m))" "req_to_blocks m' = AList.delete rid (req_to_blocks m)"
    "m_block_size m' = m_block_size m" "m_enable_caching m' = m_enable_caching m"
    "m_spec m' = m_spec m" "m_group_id m' = m_group_id m"
    "\<And>rid'. cached_count m' rid' = (if rid' = rid then c else cached_count m rid')"
  shows "updates m rid [] c m'"
  unfolding updates_def using assms held_delete [OF assms(1), of rid]
  by (simp add: distinct_delete held_def)

lemma update_blocks:
  assumes wf: "mgr_wf p m" and own: "owns R p m" and cfg: "same_config p p'" and up: "updates m rid bs c m'"
    and c0: "0 \<le> c" and bs: "block_list_ok p bs" and tl: "tail_ok p' c bs"
    and refs: "\<And>i. i \<in> {0<..<pool_size p} \<Longrightarrow>
      ref p' i = ref p i - int (count_list (blocks_of m rid) (Blk i)) + int (count_list bs (Blk i))"
    and acq: "\<And>i. i \<in> {0<..<pool_size p} \<Longrightarrow> Blk i \<in> set bs \<Longrightarrow>
      Blk i \<in> set (blocks_of m rid) \<or> ref p i = 0 \<or> hash_of p i \<noteq> None"
    and hash: "\<And>i. i \<in> {0<..<pool_size p} \<Longrightarrow>
      hash_of p' i = hash_of p i \<or> Blk i \<in> set (blocks_of m rid) \<or> ref p i = 0"
  shows "mgr_wf p' m'" "owns R p' m'" "frame R p m p' m'"
proof -
  have d: "distinct (map fst (req_to_blocks m))" using wf by (simp add: mgr_wf_def)
  have sz: "pool_size p' = pool_size p" "enable_caching p' = enable_caching p" using cfg by (simp_all add: same_config_def)
  have U: "distinct (map fst (req_to_blocks m'))" "m_block_size m' = m_block_size m"
    "m_enable_caching m' = m_enable_caching m"
    "\<And>r. blocks_of m' r = (if r = rid then bs else blocks_of m r)"
    "\<And>r. cached_count m' r = (if r = rid then c else cached_count m r)"
    "\<And>i. held m' i = held m i - int (count_list (blocks_of m rid) (Blk i)) + int (count_list bs (Blk i))"
    using up by (simp_all add: updates_def)
  have blk: "block_list_ok p (blocks_of m r)" for r using wf by (simp add: mgr_wf_def)
  show ow: "owns R p' m'" using own refs by (auto simp: owns_def sz U(6))
  have "tail_ok p' (cached_count m r) (blocks_of m r)" if r: "r \<noteq> rid" for r
    unfolding tail_ok_def
  proof (intro allI impI)
    fix n i assume n: "n < length (blocks_of m r)" "cached_count m r \<le> int n" "blocks_of m r ! n = Blk i" "i \<noteq> 0"
    note E = tail_exclusive [OF wf own n]
    have out: "Blk i \<notin> set (blocks_of m rid)" using E(3) [of rid] r by simp
    have "Blk i \<notin> set bs" using acq [OF E(6)] out E(4,5) by auto
    then have "ref p' i = 1" using refs [OF E(6)] out E(5) by (simp add: count_notin)
    moreover have "hash_of p' i = None" using hash [OF E(6)] out E(4,5) by auto
    ultimately show "hash_of p' i = None \<and> ref p' i = 1" by simp
  qed
  then show "mgr_wf p' m'" using wf U c0 bs tl sz blk by (auto simp: mgr_wf_def block_list_ok_def)
  have "hash_of p' i = None \<and> held m' i = 0"
    if i: "i \<in> {0<..<pool_size p}" "0 < R i" "hash_of p i = None" "held m i = 0" for i
  proof -
    have r0: "ref p i \<noteq> 0" using own i by (auto simp: owns_def)
    have out: "Blk i \<notin> set (blocks_of m rid)"
      using held_ge [OF d, of rid i] i(4) by (auto simp: count_list_0_iff [symmetric])
    have "Blk i \<notin> set bs" using acq [OF i(1)] out r0 i(3) by auto
    then show ?thesis using hash [OF i(1)] out r0 i(3,4) U(6) [of i] by (auto simp: count_notin)
  qed
  then show "frame R p m p' m'" using cfg by (simp add: frame_def)
qed

lemma mgr_opI:
  assumes "pool_inv p' xs'" "uncached_plain p'" "mgr_wf p' m'" "owns R p' m'" "frame R p m p' m'"
  shows "mgr_op R p m p' xs' m'"
  using assms by (simp add: mgr_op_def)

lemma mgr_op_same:
  assumes "pool_inv p xs" "uncached_plain p" "mgr_wf p m" "owns R p m"
    and "req_to_blocks m' = req_to_blocks m \<or> m' = default_entry rid m"
    and "num_cached_block m' = num_cached_block m" "m_block_size m' = m_block_size m"
      "m_enable_caching m' = m_enable_caching m"
  shows "mgr_op R p m p xs m'"
proof -
  have h: "held m' i = held m i" "blocks_of m' rid' = blocks_of m rid'" for i rid'
    using assms(5) held_cong [of m' m] by auto
  have dk: "distinct (map fst (req_to_blocks m')) = distinct (map fst (req_to_blocks m))" using assms(5) by auto
  have "mgr_wf p m'" using assms(3,6-8) by (simp add: mgr_wf_def h(2) dk)
  moreover have "owns R p m'" "frame R p m p m'" using assms(4) by (simp_all add: owns_def frame_def h(1))
  ultimately show ?thesis using assms(1,2) by (intro mgr_opI)
qed

lemma mgr_op_trans:
  assumes "mgr_op R p m p1 xs1 m1" "mgr_op R p1 m1 p2 xs2 m2"
  shows "mgr_op R p m p2 xs2 m2"
proof -
  have c: "same_config p p1" "same_config p1 p2" using assms by (auto simp: mgr_op_def frame_def)
  then have "same_config p p2" "pool_size p1 = pool_size p" using same_config_trans by (auto simp: same_config_def)
  then have "frame R p m p2 m2" using assms by (auto simp: mgr_op_def frame_def)
  then show ?thesis using assms by (simp add: mgr_op_def)
qed

text \<open>A step of one manager keeps the others well formed.\<close>

lemma other_manager_wf:
  assumes op: "mgr_op R p m p' xs' m'" and own: "owns R p m" and wf: "mgr_wf p m2" and le: "\<And>i. held m2 i \<le> R i"
  shows "mgr_wf p' m2"
proof -
  have cfg: "same_config p p'" using op by (simp add: mgr_op_def frame_def)
  then have sz: "pool_size p' = pool_size p" "enable_caching p' = enable_caching p" by (simp_all add: same_config_def)
  have d: "distinct (map fst (req_to_blocks m2))" using wf by (simp add: mgr_wf_def)
  have "tail_ok p' (cached_count m2 r) (blocks_of m2 r)" for r
    unfolding tail_ok_def
  proof (intro allI impI)
    fix n i assume n: "n < length (blocks_of m2 r)" "cached_count m2 r \<le> int n" "blocks_of m2 r ! n = Blk i" "i \<noteq> 0"
    then have t: "hash_of p i = None" "ref p i = 1" using wf by (auto simp: mgr_wf_def tail_ok_def)
    have mem: "Blk i \<in> set (blocks_of m2 r)" using n nth_mem by force
    then have rng: "i \<in> {0<..<pool_size p}" using wf n(4) by (auto simp: mgr_wf_def block_list_ok_def)
    have "1 \<le> held m2 i" using held_ge [OF d, of r i] count_list_pos [OF mem] by linarith
    then have R: "0 < R i" using le [of i] by linarith
    have "ref p i = R i + held m i" using own rng by (simp add: owns_def)
    then have "held m i = 0" "R i = 1" using R t(2) held_nonneg [of m i] by linarith+
    then have "hash_of p' i = None" "held m' i = 0" using op rng R t(1) by (auto simp: mgr_op_def frame_def)
    moreover have "ref p' i = R i + held m' i" using op rng sz by (auto simp: mgr_op_def owns_def)
    ultimately show "hash_of p' i = None \<and> ref p' i = 1" using \<open>R i = 1\<close> by simp
  qed
  then show ?thesis using wf sz by (simp add: mgr_wf_def block_list_ok_def)
qed

section \<open>Freeing and skipping\<close>

lemma held_ref_pos:
  assumes "owns R p m" "mgr_wf p m" "j \<noteq> 0" "Blk j \<in> set (blocks_of m rid)"
  shows "0 < ref p j"
proof -
  have d: "distinct (map fst (req_to_blocks m))" using assms(2) by (simp add: mgr_wf_def)
  have "j \<in> {0<..<pool_size p}" using assms by (auto simp: mgr_wf_def block_list_ok_def)
  then have "ref p j = R j + held m j" "0 \<le> R j" using assms(1) by (auto simp: owns_def)
  then show ?thesis using held_ge [OF d, of rid j] count_list_pos [OF assms(4)] by linarith
qed

lemma held_refs_pos:
  assumes "owns R p m" "mgr_wf p m" "blocks_of m rid = map Blk js"
  shows "\<forall>j\<in>set js. j \<noteq> 0 \<longrightarrow> 0 < ref p j"
proof (intro ballI impI)
  fix j assume j: "j \<in> set js" "j \<noteq> 0"
  have "Blk j \<in> set (blocks_of m rid)" unfolding assms(3) using j(1) by simp
  then show "0 < ref p j" by (rule held_ref_pos [OF assms(1,2) j(2)])
qed

lemma uncached_plain_hash:
  "uncached_plain p \<Longrightarrow> same_config p p' \<Longrightarrow> (\<And>i. hash_of p' i = hash_of p i \<or> hash_of p' i = None) \<Longrightarrow>
    uncached_plain p'"
  unfolding uncached_plain_def same_config_def by metis

lemma base_free_spec:
  assumes inv: "pool_inv p xs" and pl: "uncached_plain p" and wf: "mgr_wf p m" and own: "owns R p m"
  shows "\<exists>p' ys. base_free rid m p =
      Inr (m\<lparr>req_to_blocks := AList.delete rid (req_to_blocks m),
             num_cached_block := AList.delete rid (num_cached_block m)\<rparr>, p') \<and>
    mgr_op R p m p' (xs @ ys) (m\<lparr>req_to_blocks := AList.delete rid (req_to_blocks m),
             num_cached_block := AList.delete rid (num_cached_block m)\<rparr>)"
proof -
  let ?m = "m\<lparr>req_to_blocks := AList.delete rid (req_to_blocks m),
             num_cached_block := AList.delete rid (num_cached_block m)\<rparr>"
  have d: "distinct (map fst (req_to_blocks m))" using wf by (simp add: mgr_wf_def)
  have "block_list_ok p (blocks_of m rid)" using wf by (simp add: mgr_wf_def)
  then obtain js where js: "blocks_of m rid = map Blk js" "\<forall>j\<in>set js. j < pool_size p"
    "distinct (filter (\<lambda>j. j \<noteq> 0) js)" by (rule block_list_ok_indices)
  have pos: "\<forall>j\<in>set (rev js). j \<noteq> 0 \<longrightarrow> 0 < ref p j" using held_refs_pos [OF own wf js(1)] by simp
  have "distinct (filter (\<lambda>j. j \<noteq> 0) (rev js))" using js(3) by (simp add: rev_filter [symmetric])
  from free_blocks_spec [OF inv _ pos this] js(2) obtain p' ys where p':
    "free_blocks (map Blk (rev js)) p = Inr p'" "pool_inv p' (xs @ ys)" "same_config p p'"
    "\<forall>j. ref p' j = ref p j - int (count_list (rev js) j)" "\<forall>j. hash_of p' j = hash_of p j" by auto
  have up: "updates m rid [] 0 ?m" by (rule updates_delete [OF d]) simp_all
  have cr: "count_list (rev js) j = count_list js j" for j by (induction js) auto
  have "mgr_wf p' ?m" "owns R p' ?m" "frame R p m p' ?m"
    by (rule update_blocks [OF wf own p'(3) up order_refl];
        simp add: p'(4,5) js(1) block_list_ok_def tail_ok_def cr)+
  then have "mgr_op R p m p' (xs @ ys) ?m"
    using p' uncached_plain_hash [OF pl p'(3)] by (intro mgr_opI) auto
  moreover have "base_free rid m p = Inr (?m, p')"
    using p'(1) by (simp add: base_free_def js(1) rev_map)
  ultimately show ?thesis by blast
qed

lemma skip_loop_spec:
  assumes "k \<le> length bs"
  shows "\<exists>a\<le>k. skip_loop nb k bs =
    (rev (take (k - a) (drop a bs)), take a bs @ replicate (k - a) nb @ drop k bs) \<and> nb \<notin> set (take (k - a) (drop a bs))"
  using assms
proof (induction k arbitrary: bs)
  case (Suc k)
  show ?case
  proof (cases "bs ! k = nb")
    case True
    then show ?thesis using Suc.prems by (intro exI [of _ "Suc k"]) simp
  next
    case False
    have k: "k \<le> length (bs[k := nb])" using Suc.prems by simp
    from Suc.IH [OF this] obtain a where a: "a \<le> k"
      "skip_loop nb k (bs[k := nb]) = (rev (take (k - a) (drop a (bs[k := nb]))),
        take a (bs[k := nb]) @ replicate (k - a) nb @ drop k (bs[k := nb]))"
      "nb \<notin> set (take (k - a) (drop a (bs[k := nb])))" by blast
    have t: "take a (bs[k := nb]) = take a bs" using a(1) by (simp add: take_update_cancel)
    have m: "take (k - a) (drop a (bs[k := nb])) = take (k - a) (drop a bs)"
      using a(1) by (simp add: drop_update_swap take_update_cancel)
    have dr: "drop k (bs[k := nb]) = nb # drop (Suc k) bs"
      using Suc.prems by (simp add: drop_update_swap Cons_nth_drop_Suc [symmetric])
    have last: "take (Suc k - a) (drop a bs) = take (k - a) (drop a bs) @ [bs ! k]"
      using a(1) Suc.prems by (simp add: Suc_diff_le take_Suc_conv_app_nth)
    have rep: "replicate (k - a) nb @ nb # drop (Suc k) bs = replicate (Suc k - a) nb @ drop (Suc k) bs"
      using a(1) by (simp add: Suc_diff_le replicate_append_same [symmetric])
    have "skip_loop nb (Suc k) bs =
        (rev (take (Suc k - a) (drop a bs)), take a bs @ replicate (Suc k - a) nb @ drop (Suc k) bs)"
      using False a(2) unfolding t m dr rep last by simp
    then show ?thesis using a False m unfolding last by (intro exI [of _ a]) (auto simp: last)
  qed
qed simp

lemma distinct_nonzero_iff: "distinct (filter (\<lambda>j. j \<noteq> 0) js) \<longleftrightarrow> (\<forall>j::nat. j \<noteq> 0 \<longrightarrow> count_list js j \<le> 1)"
proof
  assume d: "distinct (filter (\<lambda>j. j \<noteq> 0) js)"
  have "count_list js j = count_list (filter (\<lambda>j. j \<noteq> 0) js) j" if "j \<noteq> 0" for j
    using that by (induction js) auto
  then show "\<forall>j. j \<noteq> 0 \<longrightarrow> count_list js j \<le> 1" using d by (simp add: distinct_count_list)
next
  show "\<forall>j. j \<noteq> 0 \<longrightarrow> count_list js j \<le> 1 \<Longrightarrow> distinct (filter (\<lambda>j. j \<noteq> 0) js)"
  proof (induction js)
    case (Cons a js)
    have le: "count_list js j \<le> count_list (a # js) j" for j by simp
    then have "\<forall>j. j \<noteq> 0 \<longrightarrow> count_list js j \<le> 1" using Cons.prems le_trans by blast
    moreover have "a \<notin> set js" if "a \<noteq> 0"
      using Cons.prems [rule_format, OF that] count_list_pos [of a js] by auto
    ultimately show ?case using Cons.IH by auto
  qed simp
qed

text \<open>Some blocks \<open>rm\<close> of a request are given back and replaced by the null block.\<close>

lemma null_out_spec:
  assumes inv: "pool_inv p xs" and pl: "uncached_plain p" and wf: "mgr_wf p m" and own: "owns R p m"
    and js: "blocks_of m rid = map Blk js" and len: "length js' = length js"
    and nths: "\<And>n. n < length js \<Longrightarrow> js' ! n = js ! n \<or> js' ! n = 0"
    and cnt: "\<And>i. i \<noteq> 0 \<Longrightarrow> count_list js i = count_list js' i + count_list rm i" and rm: "0 \<notin> set rm"
    and m': "m' = (default_entry rid m)\<lparr>req_to_blocks := AList.update rid (map Blk js') (req_to_blocks (default_entry rid m))\<rparr>"
  shows "\<exists>p' ys. free_blocks (map Blk rm) p = Inr p' \<and> mgr_op R p m p' (xs @ ys) m'"
proof -
  have d: "distinct (map fst (req_to_blocks m))" using wf by (simp add: mgr_wf_def)
  have "block_list_ok p (map Blk js)" using wf js by (metis mgr_wf_def)
  then have bl: "\<forall>j\<in>set js. j < pool_size p" "\<And>j. j \<noteq> 0 \<Longrightarrow> count_list js j \<le> 1"
    unfolding block_list_ok_map distinct_nonzero_iff by blast+
  have sub: "j \<in> set js" if "j \<in> set rm" for j
    using cnt [of j] that rm by (metis add_is_0 count_list_0_iff)
  have c1: "j \<noteq> 0 \<Longrightarrow> count_list rm j \<le> 1" "j \<noteq> 0 \<Longrightarrow> count_list js' j \<le> 1" for j
    using cnt [of j] bl(2) [of j] by linarith+
  have pos: "\<forall>j\<in>set rm. j \<noteq> 0 \<longrightarrow> 0 < ref p j" using held_refs_pos [OF own wf js] sub by blast
  have dr: "distinct (filter (\<lambda>j. j \<noteq> 0) rm)" using c1(1) unfolding distinct_nonzero_iff by blast
  from free_blocks_spec [OF inv _ pos dr] sub bl(1) obtain p' ys where p':
    "free_blocks (map Blk rm) p = Inr p'" "pool_inv p' (xs @ ys)" "same_config p p'"
    "\<forall>j. ref p' j = ref p j - int (count_list rm j)" "\<forall>j. hash_of p' j = hash_of p j" by blast
  have "updates (default_entry rid m) rid (map Blk js') (cached_count m rid) m'"
    by (rule updates_set_blocks) (simp_all add: d m')
  then have up: "updates m rid (map Blk js') (cached_count m rid) m'" by (simp add: updates_def)
  have s0: "0 < pool_size p" using pool_invD(7) [OF inv] by simp
  have c0: "0 \<le> cached_count m rid" using wf by (simp add: mgr_wf_def)
  have sub': "i \<in> set js" if "i \<in> set js'" "i \<noteq> 0" for i
    using cnt [OF that(2)] that(1) by (metis add_is_0 count_list_0_iff)
  have "j < pool_size p" if "j \<in> set js'" for j using sub' [OF that] bl(1) s0 by (cases "j = 0") auto
  then have bok: "block_list_ok p (map Blk js')" using c1(2) unfolding block_list_ok_map distinct_nonzero_iff by blast
  have refs: "ref p' i = ref p i - int (count_list (blocks_of m rid) (Blk i)) + int (count_list (map Blk js') (Blk i))"
    if "i \<noteq> 0" for i
    using p'(4) cnt [OF that] by (simp add: js)
  have tl: "tail_ok p' (cached_count m rid) (map Blk js')"
    unfolding tail_ok_def
  proof (intro allI impI)
    fix n i assume n: "n < length (map Blk js')" "cached_count m rid \<le> int n" "map Blk js' ! n = Blk i" "i \<noteq> 0"
    have n': "n < length (blocks_of m rid)" using n(1) len js by simp
    have bn: "blocks_of m rid ! n = Blk i" using nths [of n] n len js by auto
    note E = tail_exclusive [OF wf own n' n(2) bn n(4)]
    have "i \<in> set js'" using n by auto
    then have "count_list rm i = 0" using count_list_pos [of i js'] cnt [OF n(4)] bl(2) [OF n(4)] by linarith
    then show "hash_of p' i = None \<and> ref p' i = 1" using p'(4,5) E(4,5) by simp
  qed
  have "mgr_wf p' m'" "owns R p' m'" "frame R p m p' m'"
    by (rule update_blocks [OF wf own p'(3) up c0 bok tl]; use refs p'(5) js sub' in fastforce)+
  then have "mgr_op R p m p' (xs @ ys) m'"
    using p' uncached_plain_hash [OF pl p'(3)] by (intro mgr_opI) auto
  then show ?thesis using p'(1) by blast
qed

lemma base_remove_skipped_spec:
  assumes inv: "pool_inv p xs" and pl: "uncached_plain p" and wf: "mgr_wf p m" and own: "owns R p m"
  shows "\<exists>p' ys m'. base_remove_skipped_blocks rid t m p = Inr (m', p') \<and> mgr_op R p m p' (xs @ ys) m' \<and>
    length (blocks_of m' rid) = length (blocks_of m rid) \<and> (\<exists>b. m' = m\<lparr>req_to_blocks := b\<rparr>)"
proof (cases "get_num_skipped_tokens m t \<le> 0")
  case True
  then have "base_remove_skipped_blocks rid t m p = Inr (m, p)"
    by (simp add: base_remove_skipped_blocks_def)
  moreover have "mgr_op R p m p (xs @ []) m" using mgr_op_same [OF inv pl wf own, of m] by simp
  moreover have "m = m\<lparr>req_to_blocks := req_to_blocks m\<rparr>" by simp
  ultimately show ?thesis by blast
next
  case False
  have "block_list_ok p (blocks_of m rid)" using wf by (simp add: mgr_wf_def)
  then obtain js where js: "blocks_of m rid = map Blk js" by (rule block_list_ok_indices)
  have nb: "null_block p = Blk 0" using pool_invD(8) [OF inv] .
  define k where "k = nat (min (get_num_skipped_tokens m t div m_block_size m) (int (length js)))"
  have kl: "k \<le> length (map Blk js)" by (simp add: k_def)
  from skip_loop_spec [OF kl, of "Blk 0"] obtain a where a: "a \<le> k"
    "skip_loop (Blk 0) k (map Blk js) = (rev (take (k - a) (drop a (map Blk js))),
      take a (map Blk js) @ replicate (k - a) (Blk 0) @ drop k (map Blk js))"
    "Blk 0 \<notin> set (take (k - a) (drop a (map Blk js)))" by blast
  let ?rm = "take (k - a) (drop a js)" and ?js = "take a js @ replicate (k - a) 0 @ drop k js"
  let ?m = "(default_entry rid m)\<lparr>req_to_blocks := AList.update rid (map Blk ?js) (req_to_blocks (default_entry rid m))\<rparr>"
  have split: "take a js @ ?rm @ drop k js = js"
    using a(1) by (metis append_take_drop_id drop_drop le_add_diff_inverse2)
  have cr: "count_list (rev ys) j = count_list ys j" for ys :: "nat list" and j by (induction ys) auto
  have cnt: "count_list js i = count_list ?js i + count_list (rev ?rm) i" if "i \<noteq> 0" for i
    using arg_cong [OF split, of "\<lambda>l. count_list l i"] that by (simp add: count_list_append cr count_notin)
  have len: "length ?js = length js" using a(1) kl by simp
  have nths: "?js ! n = js ! n \<or> ?js ! n = 0" if "n < length js" for n
    using a(1) kl that by (auto simp: nth_append)
  have z: "0 \<notin> set (rev ?rm)" using a(3) by (auto simp: take_map drop_map)
  from null_out_spec [OF inv pl wf own js len nths cnt z refl] obtain p' ys where p':
    "free_blocks (map Blk (rev ?rm)) p = Inr p'" "mgr_op R p m p' (xs @ ys) ?m" by blast
  have "base_remove_skipped_blocks rid t m p = Inr (?m, p')"
    using False p'(1) a(2) js unfolding base_remove_skipped_blocks_def Let_def nb
    by (simp add: k_def [symmetric] rev_map take_map drop_map)
  moreover have "\<exists>b. ?m = m\<lparr>req_to_blocks := b\<rparr>" by (auto simp: default_entry_def)
  moreover have "length (blocks_of ?m rid) = length (blocks_of m rid)" using len js by simp
  ultimately show ?thesis using p'(2) by blast
qed

section \<open>Allocating\<close>

text \<open>
  New blocks are appended to the list of a request, whose blocks \<open>bs\<close> may have been rearranged
  before, as long as the written ones stay past the cached part.
\<close>

lemma append_new_spec:
  assumes inv: "pool_inv p xs" and pl: "uncached_plain p" and wf: "mgr_wf p m" and own: "owns R p m"
    and bs: "block_list_ok p bs" "tail_ok p (cached_count m rid) bs"
    and cnt: "\<And>i. i \<noteq> 0 \<Longrightarrow> count_list bs (Blk i) = count_list (blocks_of m rid) (Blk i)"
    and k: "0 \<le> k" "k \<le> get_num_free_blocks p"
  shows "\<exists>p'. get_new_blocks k p = Inr (map Blk (take (nat k) xs), p') \<and>
    (\<forall>m'. updates m rid (bs @ map Blk (take (nat k) xs)) (cached_count m rid) m' \<longrightarrow>
       mgr_op R p m p' (drop (nat k) xs) m')"
proof -
  let ?new = "take (nat k) xs"
  note P = pool_invD [OF inv]
  have "k \<le> num_free_blocks p" using k(2) by (simp add: get_num_free_blocks_def)
  from get_new_blocks_total [OF inv k(1) this] obtain p' where p':
    "get_new_blocks k p = Inr (map Blk ?new, p')" "pool_inv p' (drop (nat k) xs)" "same_config p p'"
    "\<forall>j. ref p' j = (if j \<in> set ?new then 1 else ref p j)"
    "\<forall>j. hash_of p' j = (if j \<in> set ?new \<and> enable_caching p then None else hash_of p j)" by blast
  have new: "j \<in> {0<..<pool_size p}" "ref p j = 0" "hash_of p' j = None" if "j \<in> set ?new" for j
  proof -
    have x: "j \<in> set xs" using that by (rule in_set_takeD)
    show r: "j \<in> {0<..<pool_size p}" using P(5) x by blast
    show "ref p j = 0" using P(12) [OF r] x by blast
    show "hash_of p' j = None" using p'(5) that pl by (auto simp: uncached_plain_def)
  qed
  have fresh: "Blk j \<notin> set bs" if "j \<in> set ?new" for j
  proof
    assume "Blk j \<in> set bs"
    have nz: "j \<noteq> 0" using new(1) [OF that] by simp
    have "Blk j \<in> set (blocks_of m rid)"
      using cnt [OF nz] \<open>Blk j \<in> set bs\<close> by (metis count_list_0_iff)
    then show False using held_ref_pos [OF own wf nz] new(2) [OF that] by fastforce
  qed
  have "distinct ?new" using P(4) by simp
  then have dn: "distinct (map Blk ?new)" by (simp add: distinct_map inj_on_def)
  have bok: "block_list_ok p (bs @ map Blk ?new)"
  proof -
    have "distinct (filter (\<lambda>b. b \<noteq> Blk 0) (bs @ map Blk ?new))"
      using bs(1) dn fresh by (auto simp: block_list_ok_def)
    moreover have "\<forall>b\<in>set (map Blk ?new). \<exists>i<pool_size p. b = Blk i" using new(1) by auto
    ultimately show ?thesis using bs(1) by (auto simp: block_list_ok_def)
  qed
  have tl: "tail_ok p' (cached_count m rid) (bs @ map Blk ?new)"
    unfolding tail_ok_def
  proof (intro allI impI)
    fix n i assume n: "n < length (bs @ map Blk ?new)" "cached_count m rid \<le> int n"
      "(bs @ map Blk ?new) ! n = Blk i" "i \<noteq> 0"
    show "hash_of p' i = None \<and> ref p' i = 1"
    proof (cases "n < length bs")
      case True
      then have t: "hash_of p i = None" "ref p i = 1" using bs(2) n by (auto simp: tail_ok_def nth_append)
      then have "i \<notin> set ?new" using new(2) by force
      then show ?thesis using t p'(4,5) by simp
    next
      case False
      then have "n - length bs < length (map Blk ?new)" "map Blk ?new ! (n - length bs) = Blk i"
        using n(1,3) unfolding nth_append length_append by (simp_all only: if_False)
      from nth_mem [OF this(1)] have "i \<in> set ?new" unfolding \<open>map Blk ?new ! (n - length bs) = Blk i\<close> by auto
      then show ?thesis using new(3) p'(4) by simp
    qed
  qed
  have cn: "count_list ?new i = (if i \<in> set ?new then 1 else 0)" for i
    by (rule distinct_count_list [OF \<open>distinct ?new\<close>])
  have refs: "ref p' i = ref p i - int (count_list (blocks_of m rid) (Blk i)) +
      int (count_list (bs @ map Blk ?new) (Blk i))" if "i \<in> {0<..<pool_size p}" for i
    using p'(4) cnt [of i] that new(2) [of i] by (simp add: count_list_append cn)
  have mem: "Blk i \<in> set (blocks_of m rid)" if "Blk i \<in> set bs" "i \<noteq> 0" for i
    using cnt [OF that(2)] that(1) by (metis count_list_0_iff)
  have c0: "0 \<le> cached_count m rid" using wf by (simp add: mgr_wf_def)
  have acq: "Blk i \<in> set (blocks_of m rid) \<or> ref p i = 0 \<or> hash_of p i \<noteq> None"
    if "i \<in> {0<..<pool_size p}" "Blk i \<in> set (bs @ map Blk ?new)" for i
    using that mem [of i] new(2) [of i] by auto
  have hsh: "hash_of p' i = hash_of p i \<or> Blk i \<in> set (blocks_of m rid) \<or> ref p i = 0" for i
    using p'(5) new(2) [of i] by auto
  have "mgr_op R p m p' (drop (nat k) xs) m'"
    if up: "updates m rid (bs @ map Blk ?new) (cached_count m rid) m'" for m'
  proof -
    have "mgr_wf p' m'" "owns R p' m'" "frame R p m p' m'"
      by (rule update_blocks [OF wf own p'(3) up c0 bok tl refs acq hsh]; assumption)+
    moreover have "uncached_plain p'" by (rule uncached_plain_hash [OF pl p'(3)]) (use p'(5) in auto)
    ultimately show ?thesis using p'(2) by (intro mgr_opI)
  qed
  then show ?thesis using p'(1) by blast
qed

lemma base_allocate_new_blocks_spec:
  assumes inv: "pool_inv p xs" and pl: "uncached_plain p" and wf: "mgr_wf p m" and own: "owns R p m"
    and k: "k = cdiv ntok (m_block_size m) - int (length (blocks_of m rid))" "k \<le> get_num_free_blocks p"
  shows "\<exists>m' p'. base_allocate_new_blocks rid ntok m p = Inr (map Blk (take (nat k) xs), m', p') \<and>
    mgr_op R p m p' (drop (nat k) xs) m' \<and> m_spec m' = m_spec m \<and>
    updates m rid (blocks_of m rid @ map Blk (take (nat k) xs)) (cached_count m rid) m'"
proof (cases "k \<le> 0")
  case True
  then have "base_allocate_new_blocks rid ntok m p = Inr ([], default_entry rid m, p)"
    using k(1) by (simp add: base_allocate_new_blocks_def Let_def)
  moreover have "mgr_op R p m p xs (default_entry rid m)"
    by (rule mgr_op_same [OF inv pl wf own, where rid = rid]) simp_all
  moreover have "updates m rid (blocks_of m rid) (cached_count m rid) (default_entry rid m)"
    using wf by (simp add: updates_def mgr_wf_def)
  ultimately show ?thesis using True by simp
next
  case False
  have d: "distinct (map fst (req_to_blocks m))" using wf by (simp add: mgr_wf_def)
  have bok: "block_list_ok p (blocks_of m rid)" "tail_ok p (cached_count m rid) (blocks_of m rid)"
    using wf by (auto simp: mgr_wf_def)
  from append_new_spec [OF inv pl wf own bok refl _ k(2)] False obtain p' where p':
    "get_new_blocks k p = Inr (map Blk (take (nat k) xs), p')"
    "\<And>m'. updates m rid (blocks_of m rid @ map Blk (take (nat k) xs)) (cached_count m rid) m' \<Longrightarrow>
       mgr_op R p m p' (drop (nat k) xs) m'" by auto
  let ?new = "map Blk (take (nat k) xs)"
  define m1 where "m1 = set_blocks rid (blocks_of m rid @ ?new) (default_entry rid m)"
  define m' where "m' = (if is_full_spec m
      then m1\<lparr>new_block_ids := new_block_ids m1 @ map (ident_in p') ?new\<rparr> else m1)"
  have "base_allocate_new_blocks rid ntok m p = Inr (?new, m', p')"
    using False p'(1) k(1) by (simp add: base_allocate_new_blocks_def Let_def m'_def m1_def)
  moreover have up: "updates m rid (blocks_of m rid @ ?new) (cached_count m rid) m'"
  proof -
    have "updates (default_entry rid m) rid (blocks_of m rid @ ?new) (cached_count m rid) m'"
      by (rule updates_set_blocks) (simp_all add: d m'_def m1_def)
    then show ?thesis by (simp add: updates_def)
  qed
  moreover have "m_spec m' = m_spec m" by (simp add: m'_def m1_def)
  ultimately show ?thesis using p'(2) by blast
qed

lemma base_allocate_new_blocks_too_many:
  assumes "get_num_free_blocks p < cdiv ntok (m_block_size m) - int (length (blocks_of m rid))"
    and "0 \<le> get_num_free_blocks p"
  shows "base_allocate_new_blocks rid ntok m p = Inl ValueError"
  using assms by (simp add: base_allocate_new_blocks_def Let_def get_new_blocks_def)

section \<open>Taking over cached blocks\<close>

text \<open>Blocks found in the prefix cache: each at most once, and hashed unless null.\<close>

definition computed_ok :: "block_pool \<Rightarrow> node list \<Rightarrow> bool" where
  "computed_ok p cs \<longleftrightarrow> block_list_ok p cs \<and> (\<forall>i. Blk i \<in> set cs \<longrightarrow> i \<noteq> 0 \<longrightarrow> hash_of p i \<noteq> None)"

lemma computed_ok_subset:
  assumes "computed_ok p cs"
  shows "computed_ok p (py_from cs a)"
proof -
  have "distinct (filter P (drop n cs))" if "distinct (filter P cs)" for P n
    using that by (metis append_take_drop_id distinct_append filter_append)
  then show ?thesis using assms set_py_from [of cs a]
    by (auto simp: computed_ok_def block_list_ok_def py_from_def)
qed

lemma evictable_count:
  assumes inv: "pool_inv p xs" and cs: "computed_ok p (map Blk js)"
  shows "get_num_evictable_blocks p (map Blk js) = int (length xs) - int (length (filter (\<lambda>x. x \<notin> set js) xs))"
proof -
  note P = pool_invD [OF inv]
  have js: "\<forall>j\<in>set js. j < pool_size p" "distinct (filter (\<lambda>j. j \<noteq> 0) js)"
    using cs by (auto simp: computed_ok_def block_list_ok_map)
  let ?E = "filter (\<lambda>j. j \<noteq> 0 \<and> ref p j = 0) js"
  have "get_num_evictable_blocks p (map Blk js) = int (length ?E)"
    by (simp add: get_num_evictable_blocks_def filter_map o_def P(10) conj_commute)
  moreover have "distinct ?E"
    using distinct_filter [OF js(2), of "\<lambda>j. ref p j = 0"] by (simp add: conj_commute)
  moreover have "set ?E = set (filter (\<lambda>x. x \<in> set js) xs)"
  proof (intro set_eqI iffI)
    fix j assume "j \<in> set ?E"
    then show "j \<in> set (filter (\<lambda>x. x \<in> set js) xs)" using js(1) P(12) [of j] by auto
  next
    fix j assume "j \<in> set (filter (\<lambda>x. x \<in> set js) xs)"
    then show "j \<in> set ?E" using P(5) P(12) [of j] by auto
  qed
  ultimately have "get_num_evictable_blocks p (map Blk js) = int (length (filter (\<lambda>x. x \<in> set js) xs))"
    using distinct_card [of ?E] distinct_card [OF distinct_filter [OF P(4), of "\<lambda>x. x \<in> set js"]] by simp
  then show ?thesis using sum_length_filter_compl [of "\<lambda>x. x \<in> set js" xs] by linarith
qed

lemma touch_computed_spec:
  assumes inv: "pool_inv p xs" and pl: "uncached_plain p" and wf: "mgr_wf p m" and own: "owns R p m"
    and e: "blocks_of m rid = []" and cs: "computed_ok p (map Blk js)"
    and up: "updates m rid (replicate z (Blk 0) @ map Blk js) (int (z + length js)) m'"
  shows "\<exists>p'. touch (map Blk js) p = Inr p' \<and> mgr_op R p m p' (filter (\<lambda>x. x \<notin> set js) xs) m' \<and>
    (\<forall>i. hash_of p' i = hash_of p i \<and> ref p i \<le> ref p' i)"
proof -
  have js: "\<forall>j\<in>set js. j < pool_size p" "distinct (filter (\<lambda>j. j \<noteq> 0) js)"
    using cs by (auto simp: computed_ok_def block_list_ok_map)
  from touch_spec [OF inv js(1)] obtain p' where p': "touch (map Blk js) p = Inr p'"
    "pool_inv p' (filter (\<lambda>x. x \<notin> set js) xs)" "same_config p p'"
    "\<forall>j. ref p' j = ref p j + int (count_list js j)" "\<forall>j. hash_of p' j = hash_of p j" by blast
  have s0: "0 < pool_size p" using pool_invD(7) [OF inv] by simp
  have "replicate z (Blk 0) @ map Blk js = map Blk (replicate z 0 @ js)" by simp
  then have bok: "block_list_ok p (replicate z (Blk 0) @ map Blk js)"
    using js s0 by (simp only: block_list_ok_map) auto
  have tl: "tail_ok p' (int (z + length js)) (replicate z (Blk 0) @ map Blk js)" by (simp add: tail_ok_def)
  have c0: "0 \<le> int (z + length js)" by simp
  have "mgr_wf p' m'" "owns R p' m'" "frame R p m p' m'"
    by (rule update_blocks [OF wf own p'(3) up c0 bok tl];
        use cs in \<open>force simp: p'(4,5) e count_list_append count_notin computed_ok_def\<close>)+
  then have "mgr_op R p m p' (filter (\<lambda>x. x \<notin> set js) xs) m'"
    using p' uncached_plain_hash [OF pl p'(3)] by (intro mgr_opI) auto
  then show ?thesis using p'(1,4,5) by auto
qed

text \<open>The sizes that \<^verbatim>\<open>allocate_new_computed_blocks\<close> works with.\<close>

definition skipped_blocks :: "manager \<Rightarrow> int \<Rightarrow> int" where
  "skipped_blocks m tot = get_num_skipped_tokens m tot div m_block_size m"

definition kept_computed :: "manager \<Rightarrow> int \<Rightarrow> node list \<Rightarrow> node list" where
  "kept_computed m tot cs = (if skipped_blocks m tot > 0 then py_from cs (skipped_blocks m tot) else cs)"

definition external_blocks :: "manager \<Rightarrow> int \<Rightarrow> int \<Rightarrow> node list \<Rightarrow> int" where
  "external_blocks m tot num_external cs =
     (if (if skipped_blocks m tot > 0 then min (tot - get_num_skipped_tokens m tot) num_external else num_external) > 0
      then cdiv tot (m_block_size m) - (max 0 (skipped_blocks m tot) + int (length (kept_computed m tot cs))) else 0)"

lemma base_allocate_new_computed_spec:
  assumes inv: "pool_inv p xs" and pl: "uncached_plain p" and wf: "mgr_wf p m" and own: "owns R p m"
    and e: "blocks_of m rid = []" and new: "rid \<notin> fst ` set (num_cached_block m)" and cs: "computed_ok p cs"
    and caching: "enable_caching p \<or> kept_computed m (nl + ne) cs = []"
    and L: "L = replicate (nat (skipped_blocks m (nl + ne))) (Blk 0) @ kept_computed m (nl + ne) cs"
    and k: "k = external_blocks m (nl + ne) ne cs" "0 \<le> k"
      "get_num_evictable_blocks p (kept_computed m (nl + ne) cs) + k \<le> get_num_free_blocks p"
  shows "\<exists>m' p' new xs'. base_allocate_new_computed_blocks rid cs nl ne m p = Inr (m', p') \<and>
    mgr_op R p m p' xs' m' \<and> m_spec m' = m_spec m \<and>
    updates m rid (L @ new) (int (length L)) m' \<and> int (length new) = k \<and> rid \<in> fst ` set (num_cached_block m') \<and>
    int (length xs') = int (length xs) - get_num_evictable_blocks p (kept_computed m (nl + ne) cs) - k \<and>
    (ne = 0 \<longrightarrow> (\<forall>i. hash_of p' i = hash_of p i \<and> ref p i \<le> ref p' i))"
proof -
  let ?tot = "nl + ne" and ?kept = "kept_computed m (nl + ne) cs"
  let ?sb = "skipped_blocks m ?tot"
  have d: "distinct (map fst (req_to_blocks m))" using wf by (simp add: mgr_wf_def)
  have nb: "null_block p = Blk 0" using pool_invD(8) [OF inv] .
  have ck: "computed_ok p ?kept" using cs computed_ok_subset by (auto simp: kept_computed_def)
  then have "block_list_ok p ?kept" by (simp add: computed_ok_def)
  then obtain js where js: "?kept = map Blk js" by (rule block_list_ok_indices)
  define m1 where "m1 = (set_blocks rid L (default_entry rid m))
      \<lparr>num_cached_block := AList.update rid (int (length L)) (num_cached_block m)\<rparr>"
  have "updates (default_entry rid m) rid L (int (length L)) m1"
    by (rule updates_set_blocks) (simp_all add: d m1_def)
  then have up1: "updates m rid L (int (length L)) m1" by (simp add: updates_def)
  have cc: "cached_count m1 rid = int (length L)" and b1: "blocks_of m1 rid = L" using up1 by (simp_all add: updates_def)
  have lenL: "int (length L) = max 0 ?sb + int (length ?kept)" by (simp add: L)
  from touch_computed_spec [OF inv pl wf own e, of js "nat ?sb" m1] ck up1 js obtain p1 where p1:
    "touch ?kept p = Inr p1" "mgr_op R p m p1 (filter (\<lambda>x. x \<notin> set js) xs) m1"
    "\<forall>i. hash_of p1 i = hash_of p i \<and> ref p i \<le> ref p1 i"
    by (auto simp: L)
  let ?xs = "filter (\<lambda>x. x \<notin> set js) xs"
  note O = p1(2) [unfolded mgr_op_def]
  have ev: "int (length ?xs) = int (length xs) - get_num_evictable_blocks p ?kept"
    using evictable_count [OF inv, of js] ck js by simp
  have free1: "get_num_free_blocks p1 = int (length ?xs)" and free0: "get_num_free_blocks p = int (length xs)"
    using pool_invD(6) O inv by (auto simp: get_num_free_blocks_def)
  have touch1: "(if m_enable_caching m then touch ?kept p else and_then (py_assert (?kept = [])) (\<lambda>_. Inr p)) = Inr p1"
    using p1(1) caching wf by (auto simp: mgr_wf_def touch_def)
  let ?ext = "if ?sb > 0 then min (?tot - get_num_skipped_tokens m ?tot) ne else ne"
  have body: "base_allocate_new_computed_blocks rid cs nl ne m p =
      (if ?ext > 0
       then and_then (get_new_blocks (cdiv ?tot (m_block_size m) - int (length L)) p1) (\<lambda>(allocated, p2).
         let m2 = set_blocks rid (L @ allocated) m1
         in Inr (if is_full_spec m then m2\<lparr>new_block_ids := new_block_ids m2 @ map (ident_in p2) allocated\<rparr> else m2, p2))
       else Inr (m1, p1))"
    using new e touch1 unfolding base_allocate_new_computed_blocks_def Let_def nb
      skipped_blocks_def [symmetric] kept_computed_def [symmetric] L [symmetric] m1_def
    by simp
  show ?thesis
  proof (cases "?ext > 0")
    case False
    then have k0: "k = 0" using k(1) unfolding external_blocks_def by (simp only: if_False)
    then have "base_allocate_new_computed_blocks rid cs nl ne m p = Inr (m1, p1)" using body False by simp
    moreover have "m_spec m1 = m_spec m" "rid \<in> fst ` set (num_cached_block m1)" by (simp_all add: m1_def dom_update)
    ultimately show ?thesis using p1(2,3) up1 k0 ev
      by (intro exI [of _ m1] exI [of _ p1] exI [of _ "[]"] exI [of _ ?xs]) simp
  next
    case True
    have kk: "k = cdiv ?tot (m_block_size m) - int (length L)"
      using k(1) True unfolding external_blocks_def lenL by (simp only: if_True)
    have bok: "block_list_ok p1 L" "tail_ok p1 (cached_count m1 rid) L"
      using O b1 by (metis mgr_wf_def)+
    have own1: "owns R p1 m1" and wf1: "mgr_wf p1 m1" and inv1: "pool_inv p1 ?xs" and pl1: "uncached_plain p1"
      using O by blast+
    have kf: "k \<le> get_num_free_blocks p1" using k(3) ev free0 free1 by linarith
    from append_new_spec [OF inv1 pl1 wf1 own1 bok _ k(2) kf] b1 obtain p2 where p2:
      "get_new_blocks k p1 = Inr (map Blk (take (nat k) ?xs), p2)"
      "\<And>m'. updates m1 rid (L @ map Blk (take (nat k) ?xs)) (cached_count m1 rid) m' \<Longrightarrow>
        mgr_op R p1 m1 p2 (drop (nat k) ?xs) m'" by auto
    let ?new = "map Blk (take (nat k) ?xs)"
    define m2 where "m2 = set_blocks rid (L @ ?new) m1"
    define m' where "m' = (if is_full_spec m
        then m2\<lparr>new_block_ids := new_block_ids m2 @ map (ident_in p2) ?new\<rparr> else m2)"
    have d1: "distinct (map fst (req_to_blocks m1))" using wf1 by (simp add: mgr_wf_def)
    have up2: "updates m1 rid (L @ ?new) (cached_count m1 rid) m'"
      by (rule updates_set_blocks [OF d1]) (simp_all add: m'_def m2_def)
    have op: "mgr_op R p m p2 (drop (nat k) ?xs) m'" by (rule mgr_op_trans [OF p1(2) p2(2) [OF up2]])
    have up: "updates m rid (L @ ?new) (int (length L)) m'"
      using up1 up2 by (auto simp: updates_def)
    have "base_allocate_new_computed_blocks rid cs nl ne m p = Inr (m', p2)"
      using body True p2(1) kk by (simp add: m'_def m2_def)
    moreover have "m_spec m' = m_spec m" "rid \<in> fst ` set (num_cached_block m')"
      by (simp_all add: m'_def m2_def m1_def dom_update)
    moreover have ln: "int (length ?new) = k" using kf free1 k(2) by simp
    moreover have "int (length (drop (nat k) ?xs)) = int (length xs) - get_num_evictable_blocks p ?kept - k"
      using ln ev k(2) kf free1 by simp
    moreover have "ne \<noteq> 0" using True by (auto split: if_splits)
    ultimately show ?thesis using op up by blast
  qed
qed

section \<open>Caching full blocks\<close>

text \<open>What the request brings along when its first \<open>nf\<close> blocks of size \<open>bs\<close> are cached.\<close>

definition hashes_ready :: "hash_env \<Rightarrow> request \<Rightarrow> int \<Rightarrow> nat \<Rightarrow> hash_list \<Rightarrow> block_pool \<Rightarrow> bool" where
  "hashes_ready env r bs nf hl p \<longleftrightarrow> nf \<le> length (block_hashes r) \<and>
     group_hashes (hash_block_size p) bs (block_hashes r) = Inr hl \<and> hash_list_ok hl \<and>
     nf \<le> length (hash_values hl) \<and> (enable_kv_cache_events p \<longrightarrow> memo_ok env r \<and> mm_wf (mm_features r))"

lemma base_cache_blocks_spec:
  assumes inv: "pool_inv p xs" and caching: "enable_caching p" and wf: "mgr_wf p m" and own: "owns R p m"
    and g: "group_id_ok (m_group_id m)" and nf: "nf = nat (ntok div m_block_size m)"
    and len: "nf \<le> length (blocks_of m (request_id r))" and hr: "hashes_ready env r (m_block_size m) nf hl p"
  shows "\<exists>m' p' memo. base_cache_blocks env r ntok m p = Inr (m', p', r\<lparr>prompt_embeds_per_block_hashes := memo\<rparr>) \<and>
    mgr_op R p m p' xs m' \<and>
    updates m (request_id r) (blocks_of m (request_id r)) (max (cached_count m (request_id r)) (int nf)) m' \<and>
    (\<exists>b c. m' = m\<lparr>req_to_blocks := b, num_cached_block := c\<rparr>) \<and>
    (\<forall>n i. cached_count m (request_id r) \<le> int n \<longrightarrow> n < nf \<longrightarrow> blocks_of m (request_id r) ! n = Blk i \<longrightarrow> i \<noteq> 0 \<longrightarrow>
       hash_of p' i = Some (packed (hash_values hl ! n) (m_group_id m))) \<and>
    (memo_ok env r \<longrightarrow> memo_ok env (r\<lparr>prompt_embeds_per_block_hashes := memo\<rparr>))"
proof -
  let ?rid = "request_id r"
  have d: "distinct (map fst (req_to_blocks m))" and bs0: "0 < m_block_size m" and c0: "0 \<le> cached_count m ?rid"
    and bl: "block_list_ok p (blocks_of m ?rid)" and tl: "tail_ok p (cached_count m ?rid) (blocks_of m ?rid)"
    using wf by (auto simp: mgr_wf_def)
  have pl: "uncached_plain p" using caching by (simp add: uncached_plain_def)
  obtain js where js: "blocks_of m ?rid = map Blk js" "\<forall>j\<in>set js. j < pool_size p"
    "distinct (filter (\<lambda>j. j \<noteq> 0) js)" using bl by (rule block_list_ok_indices)
  define nc where "nc = nat (cached_count m ?rid)"
  have nc: "cached_count m ?rid = int nc" using c0 by (simp add: nc_def)
  show ?thesis
  proof (cases "nc < nf")
    case False
    then have "ntok div m_block_size m \<le> int nc" using nf by linarith
    then have "base_cache_blocks env r ntok m p =
        Inr (m, p, r\<lparr>prompt_embeds_per_block_hashes := prompt_embeds_per_block_hashes r\<rparr>)"
      by (simp add: base_cache_blocks_def nc)
    moreover have "mgr_op R p m p xs m" by (rule mgr_op_same [OF inv pl wf own]) simp_all
    moreover have "updates m ?rid (blocks_of m ?rid) (max (cached_count m ?rid) (int nf)) m"
      using False d nc by (auto simp: updates_def)
    moreover have "\<exists>b c. m = m\<lparr>req_to_blocks := b, num_cached_block := c\<rparr>"
      by (rule exI [of _ "req_to_blocks m"], rule exI [of _ "num_cached_block m"]) simp
    moreover have "\<not> (cached_count m ?rid \<le> int n \<and> n < nf)" for n using False nc by simp
    moreover have "memo_ok env r \<longrightarrow>
        memo_ok env (r\<lparr>prompt_embeds_per_block_hashes := prompt_embeds_per_block_hashes r\<rparr>)" by simp
    ultimately show ?thesis by blast
  next
    case True
    then have nfi: "ntok div m_block_size m = int nf" using nf by linarith
    have seg: "take (nf - nc) (drop nc js) = map ((!) js) [nc..<nf]"
      using len js(1) True by (auto intro!: nth_equalityI)
    have segh: "hash_of p j = None" if "j \<in> set (take (nf - nc) (drop nc js))" "j \<noteq> 0" for j
      using that tl len nc js(1) unfolding seg by (auto simp: tail_ok_def)
    have dseg: "distinct (filter (\<lambda>j. j \<noteq> 0) (take (nf - nc) (drop nc js)))"
      using js(3) by (metis (no_types, lifting) append_take_drop_id distinct_append filter_append)
    have cb: "cacheable env r js nc nf (m_block_size m) hl p"
      using hr len js segh dseg bs0 unfolding cacheable_def hashes_ready_def
      by (auto dest: in_set_takeD in_set_dropD)
    from cache_full_blocks_spec [OF inv g True cb] obtain p' memo where p':
      "cache_full_blocks env r (map Blk js) (int nc) (int nf) (m_block_size m) (m_group_id m) p =
        Inr (p', r\<lparr>prompt_embeds_per_block_hashes := memo\<rparr>)" "pool_inv p' xs" "same_config p p'"
      "\<forall>j. ref p' j = ref p j"
      "\<forall>j. j = 0 \<or> j \<notin> set (take (nf - nc) (drop nc js)) \<longrightarrow> hash_of p' j = hash_of p j"
      "\<forall>n. nc \<le> n \<and> n < nf \<and> js ! n \<noteq> 0 \<longrightarrow> hash_of p' (js ! n) = Some (packed (hash_values hl ! n) (m_group_id m))"
      "memo_ok env r \<longrightarrow> memo_ok env (r\<lparr>prompt_embeds_per_block_hashes := memo\<rparr>)" by blast
    let ?m = "(default_entry ?rid m)\<lparr>num_cached_block := AList.update ?rid (int nf) (num_cached_block m)\<rparr>"
    have up: "updates m ?rid (blocks_of m ?rid) (int nf) ?m"
      using d held_cong [of ?m "default_entry ?rid m"] by (auto simp: updates_def)
    have tl': "tail_ok p' (int nf) (blocks_of m ?rid)"
      unfolding tail_ok_def
    proof (intro allI impI)
      fix n i assume n: "n < length (blocks_of m ?rid)" "int nf \<le> int n" "blocks_of m ?rid ! n = Blk i" "i \<noteq> 0"
      have cn: "cached_count m ?rid \<le> int n" using n(2) nc True by simp
      note E = tail_exclusive [OF wf own n(1) cn n(3,4)]
      have jn: "n < length js" "js ! n = i" using n js(1) by auto
      have "i \<notin> set (take (nf - nc) (drop nc js))"
      proof
        assume "i \<in> set (take (nf - nc) (drop nc js))"
        then obtain k where k: "nc \<le> k" "k < nf" "js ! k = i" unfolding seg by auto
        have "distinct (filter (\<lambda>j. j \<noteq> 0) (take nf js @ drop nf js))" using js(3) by simp
        moreover have "i \<in> set (take nf js)" using k jn n(2) by (auto simp: in_set_conv_nth)
        moreover have "i \<in> set (drop nf js)"
          using jn n(2) by (auto simp: in_set_conv_nth intro!: exI [of _ "n - nf"])
        ultimately show False using n(4) by (auto simp del: append_take_drop_id)
      qed
      then show "hash_of p' i = None \<and> ref p' i = 1" using p'(4,5) E(4,5) by simp
    qed
    have hs: "hash_of p' i = hash_of p i \<or> Blk i \<in> set (blocks_of m ?rid) \<or> ref p i = 0" for i
      using p'(5) js(1) by (auto dest: in_set_takeD in_set_dropD)
    have nf0: "0 \<le> int nf" by simp
    have "mgr_wf p' ?m" "owns R p' ?m" "frame R p m p' ?m"
      by (rule update_blocks [OF wf own p'(3) up nf0 bl tl']; use p'(4) hs in simp)+
    then have "mgr_op R p m p' xs ?m"
      using p'(2,3) caching by (intro mgr_opI) (auto simp: uncached_plain_def same_config_def)
    moreover have "base_cache_blocks env r ntok m p = Inr (?m, p', r\<lparr>prompt_embeds_per_block_hashes := memo\<rparr>)"
      using True nfi p'(1) js(1) by (simp add: base_cache_blocks_def Let_def nc)
    moreover have "updates m ?rid (blocks_of m ?rid) (max (cached_count m ?rid) (int nf)) ?m"
      using up True nc by (simp add: max_def)
    moreover have "?m = m\<lparr>req_to_blocks := req_to_blocks (default_entry ?rid m),
        num_cached_block := AList.update ?rid (int nf) (num_cached_block m)\<rparr>" by (simp add: default_entry_def)
    moreover have "hash_of p' i = Some (packed (hash_values hl ! n) (m_group_id m))"
      if "cached_count m ?rid \<le> int n" "n < nf" "blocks_of m ?rid ! n = Blk i" "i \<noteq> 0" for n i
      using p'(6) [rule_format, of n] that nc js(1) len by auto
    ultimately show ?thesis using p'(7) by blast
  qed
qed

end
