(* ===== verification/KV_Invariant.thy ===== *)
theory KV_Invariant
  imports Manager_Invariant
begin

text \<open>
  Correctness of the KV-cache manager: the reference counts of the pool are the references of the
  requests, the capacity check of \<^verbatim>\<open>allocate_slots\<close> counts exactly what the allocation takes, and no
  call under its caller's duties raises an exception.
\<close>

section \<open>Managers of plain groups\<close>

text \<open>
  Groups with positive windows and chunks; state-space groups outside the \<^verbatim>\<open>align\<close> mode; cross
  attention only without prefix caching, which its manager refuses.
\<close>

definition plain_manager :: "manager \<Rightarrow> bool" where
  "plain_manager m \<longleftrightarrow>
     (case m_spec m of
        SlidingWindowSpec b w \<Rightarrow> 1 \<le> w
      | ChunkedLocalAttentionSpec b c \<Rightarrow> 0 < c
      | MambaSpec b mode n \<Rightarrow> mode \<noteq> ''align'' \<and> 0 \<le> n \<and> m_block_size m = b
      | CrossAttentionSpec b \<Rightarrow> \<not> m_enable_caching m
      | _ \<Rightarrow> True)"

text \<open>The tokens a manager allocates slots for.\<close>

definition slot_tokens :: "manager \<Rightarrow> int \<Rightarrow> int \<Rightarrow> int" where
  "slot_tokens m ntok enc =
     (if is_cross m then enc
      else if is_mamba m \<and> num_speculative_blocks m > 0 then ntok + m_block_size m * num_speculative_blocks m
      else ntok)"

lemma plain_manager_cong:
  assumes "m_spec m' = m_spec m" "m_block_size m' = m_block_size m" "m_enable_caching m' = m_enable_caching m"
  shows "plain_manager m' = plain_manager m" "slot_tokens m' ntok enc = slot_tokens m ntok enc"
    "is_cross m' = is_cross m" "is_mamba m' = is_mamba m" "mamba_cache_mode m' = mamba_cache_mode m"
    "num_speculative_blocks m' = num_speculative_blocks m"
    "get_num_skipped_tokens m' t = get_num_skipped_tokens m t" "skipped_blocks m' t = skipped_blocks m t"
  using assms by (simp_all add: plain_manager_def slot_tokens_def is_cross_def is_mamba_def mamba_cache_mode_def
      num_speculative_blocks_def get_num_skipped_tokens_def skipped_blocks_def cong: kv_cache_spec.case_cong)

lemma skipped_tokens_le:
  assumes "plain_manager m" "0 \<le> t"
  shows "get_num_skipped_tokens m t \<le> t"
proof (cases "m_spec m")
  case (ChunkedLocalAttentionSpec b c)
  then have "0 < c" using assms(1) by (simp add: plain_manager_def)
  then have "t div c * c \<le> t" using le_div_iff_mult_le [of c "t div c" t] by simp
  then show ?thesis using ChunkedLocalAttentionSpec by (simp add: get_num_skipped_tokens_def)
qed (use assms in \<open>auto simp: get_num_skipped_tokens_def plain_manager_def\<close>)

lemma skipped_blocks_le:
  assumes "plain_manager m" "0 \<le> t" "0 < m_block_size m"
  shows "skipped_blocks m t \<le> t div m_block_size m"
  unfolding skipped_blocks_def by (rule zdiv_mono1 [OF skipped_tokens_le [OF assms(1,2)] assms(3)])

lemma mamba_plain:
  assumes "plain_manager m" "is_mamba m"
  shows "mamba_cache_mode m \<noteq> ''align''" "spec_block_size (m_spec m) = m_block_size m"
  using assms by (auto simp: plain_manager_def is_mamba_def mamba_cache_mode_def split: kv_cache_spec.splits)

lemma mamba_not_cross: "is_mamba m \<Longrightarrow> \<not> is_cross m"
  by (simp add: is_mamba_def is_cross_def split: kv_cache_spec.splits)

section \<open>The operations of a plain manager\<close>

lemma free_spec:
  assumes inv: "pool_inv p xs" and pl: "uncached_plain p" and wf: "mgr_wf p m" and own: "owns R p m"
  shows "\<exists>m' p' ys. free rid m p = Inr (m', p') \<and> mgr_op R p m p' (xs @ ys) m' \<and> m_spec m' = m_spec m \<and>
    m_group_id m' = m_group_id m \<and> m_block_size m' = m_block_size m \<and>
    req_to_blocks m' = AList.delete rid (req_to_blocks m) \<and>
    num_cached_block m' = AList.delete rid (num_cached_block m)"
proof -
  define m0 where "m0 = (if is_mamba m \<and> mamba_cache_mode m = ''align''
        then m\<lparr>allocated_block_reqs := allocated_block_reqs m - {rid},
               last_state_block_idx := AList.delete rid (last_state_block_idx m)\<rparr> else m)"
  have op0: "mgr_op R p m p xs m0" by (rule mgr_op_same [OF inv pl wf own]) (simp_all add: m0_def)
  then have "mgr_wf p m0" "owns R p m0" by (simp_all add: mgr_op_def)
  from base_free_spec [OF inv pl this, of rid] obtain p' ys where p':
    "base_free rid m0 p = Inr (m0\<lparr>req_to_blocks := AList.delete rid (req_to_blocks m0),
       num_cached_block := AList.delete rid (num_cached_block m0)\<rparr>, p')"
    "mgr_op R p m0 p' (xs @ ys) (m0\<lparr>req_to_blocks := AList.delete rid (req_to_blocks m0),
       num_cached_block := AList.delete rid (num_cached_block m0)\<rparr>)" by blast
  have "free rid m p = base_free rid m0 p" by (simp add: free_def m0_def)
  then show ?thesis using p' mgr_op_trans [OF op0 p'(2)] by (auto simp: m0_def)
qed

lemma remove_skipped_spec:
  assumes inv: "pool_inv p xs" and pl: "uncached_plain p" and wf: "mgr_wf p m" and own: "owns R p m"
    and pm: "plain_manager m"
  shows "\<exists>p' ys m'. remove_skipped_blocks rid t m p = Inr (m', p') \<and> mgr_op R p m p' (xs @ ys) m' \<and>
    length (blocks_of m' rid) = length (blocks_of m rid) \<and> (\<exists>b. m' = m\<lparr>req_to_blocks := b\<rparr>)"
proof (cases "is_mamba m")
  case False
  then show ?thesis using base_remove_skipped_spec [OF inv pl wf own] by (simp add: remove_skipped_blocks_def)
next
  case True
  let ?n = "max 0 (t - num_speculative_blocks m)"
  obtain p' ys m' where r: "base_remove_skipped_blocks rid ?n m p = Inr (m', p')" "mgr_op R p m p' (xs @ ys) m'"
    "length (blocks_of m' rid) = length (blocks_of m rid)" "\<exists>b. m' = m\<lparr>req_to_blocks := b\<rparr>"
    using base_remove_skipped_spec [OF inv pl wf own, of rid ?n] by blast
  have "remove_skipped_blocks rid t m p = Inr (m', p')"
    using True r(1) mamba_plain(1) [OF pm True]
    by (simp add: remove_skipped_blocks_def mamba_remove_skipped_blocks_def)
  then show ?thesis using r by blast
qed

lemma allocate_new_blocks_spec:
  assumes inv: "pool_inv p xs" and pl: "uncached_plain p" and wf: "mgr_wf p m" and own: "owns R p m"
    and pm: "plain_manager m"
    and k: "k = cdiv (slot_tokens m ntok enc) (m_block_size m) - int (length (blocks_of m rid))"
      "k \<le> get_num_free_blocks p"
  shows "\<exists>m' p'. allocate_new_blocks rid (if is_cross m then enc else ntok) main m p =
      Inr (map Blk (take (nat k) xs), m', p') \<and> mgr_op R p m p' (drop (nat k) xs) m' \<and> m_spec m' = m_spec m \<and>
    updates m rid (blocks_of m rid @ map Blk (take (nat k) xs)) (cached_count m rid) m'"
proof -
  have "allocate_new_blocks rid (if is_cross m then enc else ntok) main m p =
      base_allocate_new_blocks rid (slot_tokens m ntok enc) m p"
    using mamba_plain(1) [OF pm] mamba_not_cross [of m]
    by (simp add: allocate_new_blocks_def mamba_allocate_new_blocks_def slot_tokens_def)
  then show ?thesis using base_allocate_new_blocks_spec [OF inv pl wf own k] by simp
qed

text \<open>What the base class counts, and that it never fails for a request without new hits twice.\<close>

definition need_blocks :: "block_pool \<Rightarrow> manager \<Rightarrow> string \<Rightarrow> int \<Rightarrow> node list \<Rightarrow> int \<Rightarrow> int" where
  "need_blocks p m rid s cs tot =
     (let len = int (length (blocks_of m rid)) in
      if rid \<in> fst ` set (num_cached_block m) then max (cdiv s (m_block_size m) - len) 0
      else max (cdiv s (m_block_size m) - max (skipped_blocks m tot) (int (length cs) + len)) 0 +
        get_num_evictable_blocks p (py_from cs (max 0 (skipped_blocks m tot - len))))"

lemma get_num_spec:
  assumes pm: "plain_manager m" and cs: "rid \<in> fst ` set (num_cached_block m) \<Longrightarrow> cs = []"
    and nx: "\<not> is_cross m" and big: "get_num_free_blocks p \<le> num_gpu_blocks p"
  shows "\<exists>n. get_num_blocks_to_allocate p m rid ntok cs tot main = Inr (n, m) \<and>
    (n = need_blocks p m rid (slot_tokens m ntok enc) cs tot \<or> is_mamba m \<and> get_num_free_blocks p < n)"
proof -
  have base: "base_get_num_blocks_to_allocate p m rid s cs tot = Inr (need_blocks p m rid s cs tot)" for s
    using cs by (simp add: base_get_num_blocks_to_allocate_def need_blocks_def skipped_blocks_def Let_def)
  show ?thesis
  proof (cases "is_mamba m")
    case False
    then show ?thesis using nx by (simp add: get_num_blocks_to_allocate_def base slot_tokens_def)
  next
    case True
    then show ?thesis using mamba_plain [OF pm True] nx big
      by (simp add: get_num_blocks_to_allocate_def mamba_get_num_blocks_to_allocate_def base slot_tokens_def)
  qed
qed

text \<open>
  A request that has no blocks yet takes over the hits \<open>cs\<close>, which stand for its \<open>nl\<close> computed
  tokens, and gets blocks for \<open>ne\<close> external ones.
\<close>

definition new_request :: "block_pool \<Rightarrow> manager \<Rightarrow> string \<Rightarrow> node list \<Rightarrow> int \<Rightarrow> int \<Rightarrow> bool" where
  "new_request p m rid cs nl ne \<longleftrightarrow> rid \<notin> fst ` set (num_cached_block m) \<and> blocks_of m rid = [] \<and>
     computed_ok p cs \<and> (enable_caching p \<or> cs = []) \<and> nl = int (length cs) * m_block_size m \<and> 0 \<le> ne \<and> \<not> is_cross m"

lemma length_py_from: "0 \<le> a \<Longrightarrow> int (length (py_from xs a)) = max 0 (int (length xs) - a)"
  by (simp add: py_from_def py_clip_def min_def)

lemma kept_length:
  "max 0 (skipped_blocks m t) + int (length (kept_computed m t cs)) = max (skipped_blocks m t) (int (length cs))"
  by (auto simp: kept_computed_def length_py_from)

lemma external_blocks_nonneg:
  assumes wf: "mgr_wf p m" and pm: "plain_manager m" and nr: "new_request p m rid cs nl ne"
  shows "0 \<le> external_blocks m (nl + ne) ne cs"
proof -
  let ?b = "m_block_size m" and ?t = "nl + ne"
  have bs: "0 < ?b" using wf by (simp add: mgr_wf_def)
  have n: "nl = int (length cs) * ?b" "0 \<le> ne" using nr by (auto simp: new_request_def)
  have t0: "0 \<le> ?t" using n bs by simp
  have c1: "t div ?b \<le> cdiv t ?b" for t
  proof -
    have "t div ?b * ?b \<le> t" using le_div_iff_mult_le [OF bs, of "t div ?b" t] by simp
    then have "t div ?b * ?b \<le> cdiv t ?b * ?b" using cdiv_bounds(1) [OF bs, of t] by linarith
    then show ?thesis using bs by simp
  qed
  have "int (length cs) \<le> ?t div ?b" using n le_div_iff_mult_le [OF bs, of "int (length cs)" ?t] by simp
  then have "max (skipped_blocks m ?t) (int (length cs)) \<le> cdiv ?t ?b"
    using skipped_blocks_le [OF pm t0 bs] c1 [of ?t] by linarith
  then show ?thesis by (simp add: external_blocks_def kept_length)
qed

lemma allocate_computed_spec:
  assumes inv: "pool_inv p xs" and pl: "uncached_plain p" and wf: "mgr_wf p m" and own: "owns R p m"
    and pm: "plain_manager m" and nr: "new_request p m rid cs nl ne"
    and k: "k = external_blocks m (nl + ne) ne cs"
      "get_num_evictable_blocks p (kept_computed m (nl + ne) cs) + k \<le> get_num_free_blocks p"
  shows "0 \<le> k"
    and "\<exists>m' p' xs'. allocate_new_computed_blocks rid cs nl ne m p = Inr (m', p') \<and> mgr_op R p m p' xs' m' \<and>
      m_spec m' = m_spec m \<and> m_group_id m' = m_group_id m \<and>
      m_block_size m' = m_block_size m \<and> m_enable_caching m' = m_enable_caching m \<and>
      (\<forall>r. r \<noteq> rid \<longrightarrow> blocks_of m' r = blocks_of m r) \<and>
      int (length (blocks_of m' rid)) = max 0 (max (skipped_blocks m (nl + ne)) (int (length cs))) + k \<and>
      int (length xs') = int (length xs) - get_num_evictable_blocks p (kept_computed m (nl + ne) cs) - k \<and>
      (ne = 0 \<longrightarrow> (\<forall>i. hash_of p' i = hash_of p i \<and> ref p i \<le> ref p' i))"
proof -
  let ?b = "m_block_size m" and ?t = "nl + ne"
  have n: "rid \<notin> fst ` set (num_cached_block m)" "blocks_of m rid = []" "computed_ok p cs"
    "enable_caching p \<or> cs = []" "nl = int (length cs) * ?b" "0 \<le> ne" "\<not> is_cross m"
    using nr by (auto simp: new_request_def)
  show k0: "0 \<le> k" unfolding k(1) by (rule external_blocks_nonneg [OF wf pm nr])
  have "enable_caching p \<or> kept_computed m ?t cs = []"
    using n(4) by (auto simp: kept_computed_def py_from_def)
  from base_allocate_new_computed_spec [OF inv pl wf own n(2,1,3) this refl k(1) k0 k(2)]
  obtain m' p' new xs' where r: "base_allocate_new_computed_blocks rid cs nl ne m p = Inr (m', p')"
    "mgr_op R p m p' xs' m'" "m_spec m' = m_spec m"
    "updates m rid ((replicate (nat (skipped_blocks m ?t)) (Blk 0) @ kept_computed m ?t cs) @ new)
      (int (length (replicate (nat (skipped_blocks m ?t)) (Blk 0) @ kept_computed m ?t cs))) m'"
    "int (length new) = k"
    "int (length xs') = int (length xs) - get_num_evictable_blocks p (kept_computed m ?t cs) - k"
    "ne = 0 \<longrightarrow> (\<forall>i. hash_of p' i = hash_of p i \<and> ref p i \<le> ref p' i)"
    by (elim exE conjE) (rule that)
  have "int (length (blocks_of m' rid)) = max 0 (max (skipped_blocks m ?t) (int (length cs))) + k"
  proof -
    have "blocks_of m' rid = (replicate (nat (skipped_blocks m ?t)) (Blk 0) @ kept_computed m ?t cs) @ new"
      using r(4) by (simp add: updates_def)
    then have "int (length (blocks_of m' rid)) = max 0 (skipped_blocks m ?t) + int (length (kept_computed m ?t cs)) + k"
      using r(5) by simp
    then show ?thesis using kept_length [of m ?t cs] by linarith
  qed
  moreover have "allocate_new_computed_blocks rid cs nl ne m p = Inr (m', p')"
    using r(1) n(7) by (simp add: allocate_new_computed_blocks_def)
  ultimately show "\<exists>m' p' xs'. allocate_new_computed_blocks rid cs nl ne m p = Inr (m', p') \<and> mgr_op R p m p' xs' m' \<and>
      m_spec m' = m_spec m \<and> m_group_id m' = m_group_id m \<and>
      m_block_size m' = m_block_size m \<and> m_enable_caching m' = m_enable_caching m \<and>
      (\<forall>r. r \<noteq> rid \<longrightarrow> blocks_of m' r = blocks_of m r) \<and>
      int (length (blocks_of m' rid)) = max 0 (max (skipped_blocks m (nl + ne)) (int (length cs))) + k \<and>
      int (length xs') = int (length xs) - get_num_evictable_blocks p (kept_computed m (nl + ne) cs) - k \<and>
      (ne = 0 \<longrightarrow> (\<forall>i. hash_of p' i = hash_of p i \<and> ref p i \<le> ref p' i))"
    using r(2,3,4,6,7) by (intro exI [of _ m'] exI [of _ p'] exI [of _ xs']) (simp add: updates_def)
qed

section \<open>All managers together\<close>

definition refs_of :: "manager list \<Rightarrow> nat \<Rightarrow> int" where
  "refs_of ms i = sum_list (map (\<lambda>m. held m i) ms)"

definition ms_inv :: "block_pool \<Rightarrow> nat list \<Rightarrow> manager list \<Rightarrow> bool" where
  "ms_inv p xs ms \<longleftrightarrow> pool_inv p xs \<and> uncached_plain p \<and> (\<forall>m\<in>set ms. mgr_wf p m) \<and>
     (\<forall>i\<in>{0<..<pool_size p}. ref p i = refs_of ms i)"

lemma refs_of_simps [simp]:
  "refs_of [] i = 0" "refs_of (m # ms) i = held m i + refs_of ms i" "refs_of (ms @ ms') i = refs_of ms i + refs_of ms' i"
  by (simp_all add: refs_of_def)

lemma refs_of_nonneg: "0 \<le> refs_of ms i"
  by (induction ms) (simp_all add: held_nonneg)

lemma held_le_refs_of: "m \<in> set ms \<Longrightarrow> held m i \<le> refs_of ms i"
proof (induction ms)
  case (Cons a ms)
  then show ?case using held_nonneg [of a i] refs_of_nonneg [of ms i] by auto
qed simp

lemma ms_inv_split:
  assumes "ms_inv p xs (pre @ m # post)"
  shows "pool_inv p xs" "uncached_plain p" "mgr_wf p m" "owns (\<lambda>i. refs_of pre i + refs_of post i) p m"
  using assms by (auto simp: ms_inv_def owns_def refs_of_nonneg add_nonneg_nonneg)

lemma ms_inv_step:
  assumes inv: "ms_inv p xs (pre @ m # post)" and op: "mgr_op (\<lambda>i. refs_of pre i + refs_of post i) p m p' xs' m'"
  shows "ms_inv p' xs' (pre @ m' # post)"
proof -
  let ?R = "\<lambda>i. refs_of pre i + refs_of post i"
  note own = ms_inv_split(4) [OF inv]
  have "mgr_wf p' m2" if "m2 \<in> set pre \<union> set post" for m2
  proof (rule other_manager_wf [OF op own])
    show "mgr_wf p m2" using inv that by (auto simp: ms_inv_def)
    show "held m2 i \<le> refs_of pre i + refs_of post i" for i
      using that held_le_refs_of [of m2 pre i] held_le_refs_of [of m2 post i]
        refs_of_nonneg [of pre i] refs_of_nonneg [of post i] by auto
  qed
  then show ?thesis using op by (auto simp: ms_inv_def mgr_op_def owns_def)
qed

primrec sum_from :: "(nat \<Rightarrow> manager \<Rightarrow> int) \<Rightarrow> nat \<Rightarrow> manager list \<Rightarrow> int" where
  "sum_from c i [] = 0"
| "sum_from c i (m # ms) = c i m + sum_from c (Suc i) ms"

primrec all_from :: "(nat \<Rightarrow> manager \<Rightarrow> bool) \<Rightarrow> nat \<Rightarrow> manager list \<Rightarrow> bool" where
  "all_from P i [] = True"
| "all_from P i (m # ms) = (P i m \<and> all_from P (Suc i) ms)"

lemma all_from_iff: "all_from P i ms \<longleftrightarrow> (\<forall>j<length ms. P (i + j) (ms ! j))"
proof (induction ms arbitrary: i)
  case (Cons m ms)
  show ?case by (auto simp: Cons nth_Cons split: nat.splits)
qed simp

lemma sum_from_mono:
  assumes "all_from (\<lambda>j m. c j m \<le> c' j m) i ms"
  shows "sum_from c i ms \<le> sum_from c' i ms"
  using assms by (induction ms arbitrary: i) (auto intro: add_mono)

text \<open>
  The contract under which the loop over the managers succeeds: each call keeps the invariant of its
  manager, takes no more than its cost from the free list, and leaves the later managers ready at no
  higher cost.
\<close>

locale manager_loop =
  fixes f :: "nat \<Rightarrow> manager \<Rightarrow> block_pool \<Rightarrow> ('a \<times> manager \<times> block_pool) res"
    and ready :: "nat \<Rightarrow> block_pool \<Rightarrow> manager \<Rightarrow> bool"
    and cost :: "nat \<Rightarrow> block_pool \<Rightarrow> manager \<Rightarrow> int"
    and result :: "nat \<Rightarrow> manager \<Rightarrow> 'a \<Rightarrow> manager \<Rightarrow> bool"
  assumes step: "pool_inv p xs \<Longrightarrow> uncached_plain p \<Longrightarrow> mgr_wf p m \<Longrightarrow> owns R p m \<Longrightarrow> ready i p m \<Longrightarrow>
      cost i p m \<le> int (length xs) \<Longrightarrow>
      \<exists>a m' p' xs'. f i m p = Inr (a, m', p') \<and> mgr_op R p m p' xs' m' \<and> result i m a m' \<and>
        int (length xs) - cost i p m \<le> int (length xs') \<and>
        (\<forall>j m2. i < j \<longrightarrow> ready j p m2 \<longrightarrow> ready j p' m2 \<and> cost j p' m2 \<le> cost j p m2)"
    and cost_nonneg: "0 \<le> cost i p m"
begin

lemma total_nonneg: "0 \<le> sum_from (\<lambda>j. cost j p) i ms"
  by (induction ms arbitrary: i) (simp_all add: cost_nonneg)

lemma loop_from:
  assumes "ms_inv p xs (pre @ ms)" and "all_from (\<lambda>j. ready j p) i ms"
    and "sum_from (\<lambda>j. cost j p) i ms \<le> int (length xs)"
  shows "\<exists>as ms' p' xs'. each_manager f i ms p = Inr (as, ms', p') \<and> ms_inv p' xs' (pre @ ms') \<and>
    same_config p p' \<and> length as = length ms \<and> length ms' = length ms \<and>
    (\<forall>j<length ms. result (i + j) (ms ! j) (as ! j) (ms' ! j)) \<and>
    int (length xs) - sum_from (\<lambda>j. cost j p) i ms \<le> int (length xs')"
  using assms
proof (induction ms arbitrary: pre i p xs)
  case Nil
  then show ?case by auto
next
  case (Cons m ms)
  note S = ms_inv_split [OF Cons.prems(1)]
  have "cost i p m \<le> int (length xs)" using Cons.prems(3) total_nonneg [of p "Suc i" ms] by simp
  then obtain a m' p1 xs1 where 1: "f i m p = Inr (a, m', p1)"
    "mgr_op (\<lambda>i. refs_of pre i + refs_of ms i) p m p1 xs1 m'" "result i m a m'"
    "int (length xs) - cost i p m \<le> int (length xs1)"
    "\<forall>j m2. i < j \<longrightarrow> ready j p m2 \<longrightarrow> ready j p1 m2 \<and> cost j p1 m2 \<le> cost j p m2"
    using step [OF S] Cons.prems(2) by fastforce
  have inv1: "ms_inv p1 xs1 ((pre @ [m']) @ ms)" using ms_inv_step [OF Cons.prems(1) 1(2)] by simp
  have "all_from (\<lambda>j. ready j p) (Suc i) ms" using Cons.prems(2) by simp
  then have rd: "ready (Suc i + j) p (ms ! j)" if "j < length ms" for j
    using that by (simp add: all_from_iff)
  have rd1: "all_from (\<lambda>j. ready j p1) (Suc i) ms" using rd 1(5) by (simp add: all_from_iff)
  have "all_from (\<lambda>j m. cost j p1 m \<le> cost j p m) (Suc i) ms" using rd 1(5) by (simp add: all_from_iff)
  then have le: "sum_from (\<lambda>j. cost j p1) (Suc i) ms \<le> sum_from (\<lambda>j. cost j p) (Suc i) ms"
    by (rule sum_from_mono)
  then have "sum_from (\<lambda>j. cost j p1) (Suc i) ms \<le> int (length xs1)" using Cons.prems(3) 1(4) by simp
  from Cons.IH [OF inv1 rd1 this] obtain as ms' p2 xs2 where 2:
    "each_manager f (Suc i) ms p1 = Inr (as, ms', p2)" "ms_inv p2 xs2 ((pre @ [m']) @ ms')" "same_config p1 p2"
    "length as = length ms" "length ms' = length ms"
    "\<forall>j<length ms. result (Suc i + j) (ms ! j) (as ! j) (ms' ! j)"
    "int (length xs1) - sum_from (\<lambda>j. cost j p1) (Suc i) ms \<le> int (length xs2)" by blast
  have "same_config p p1" using 1(2) by (simp add: mgr_op_def frame_def)
  then have cfg: "same_config p p2" using 2(3) same_config_trans by blast
  have res: "\<forall>j<length (m # ms). result (i + j) ((m # ms) ! j) ((a # as) ! j) ((m' # ms') ! j)"
    using 1(3) 2(6) by (auto simp: nth_Cons split: nat.splits)
  have ln: "int (length xs) - sum_from (\<lambda>j. cost j p) i (m # ms) \<le> int (length xs2)"
    using 1(4) 2(7) le by simp
  show ?case
    by (rule exI [of _ "a # as"], rule exI [of _ "m' # ms'"], rule exI [of _ p2], rule exI [of _ xs2])
      (use 1(1) 2 cfg res ln in simp)
qed

lemmas loop = loop_from [where pre = "[]", simplified append_Nil]

end

section \<open>The loops of the coordinator\<close>

text \<open>Freeing a request.\<close>

definition freed :: "string \<Rightarrow> manager \<Rightarrow> manager \<Rightarrow> bool" where
  "freed rid m m' \<longleftrightarrow> m_spec m' = m_spec m \<and> m_group_id m' = m_group_id m \<and> m_block_size m' = m_block_size m \<and>
     req_to_blocks m' = AList.delete rid (req_to_blocks m) \<and>
     num_cached_block m' = AList.delete rid (num_cached_block m)"

interpretation free_loop: manager_loop
  "\<lambda>i m p. and_then (free rid m p) (\<lambda>(m', p'). Inr ((), m', p'))" "\<lambda>i p m. True" "\<lambda>i p m. 0"
  "\<lambda>i m a m'. freed rid m m'" for rid :: string
proof
  fix p xs m R i
  assume A: "pool_inv p xs" "uncached_plain p" "mgr_wf p m" "owns R p m"
  obtain m' p' ys where "free rid m p = Inr (m', p')" "mgr_op R p m p' (xs @ ys) m'" "freed rid m m'"
    using free_spec [OF A, of rid] unfolding freed_def by blast
  then show "\<exists>a m' p' xs'. and_then (free rid m p) (\<lambda>(m', p'). Inr ((), m', p')) = Inr (a, m', p') \<and>
      mgr_op R p m p' xs' m' \<and> freed rid m m' \<and> int (length xs) - 0 \<le> int (length xs') \<and>
      (\<forall>j m2. i < j \<longrightarrow> True \<longrightarrow> True \<and> (0::int) \<le> 0)"
    by (intro exI [of _ "()"] exI [of _ m'] exI [of _ p'] exI [of _ "xs @ ys"]) simp
qed simp

text \<open>Giving back the blocks that attention has left behind.\<close>

definition skipped :: "string \<Rightarrow> manager \<Rightarrow> manager \<Rightarrow> bool" where
  "skipped rid m m' \<longleftrightarrow> length (blocks_of m' rid) = length (blocks_of m rid) \<and> (\<exists>b. m' = m\<lparr>req_to_blocks := b\<rparr>)"

interpretation skip_loop: manager_loop
  "\<lambda>i m p. and_then (remove_skipped_blocks rid t m p) (\<lambda>(m', p'). Inr ((), m', p'))"
  "\<lambda>i p m. plain_manager m" "\<lambda>i p m. 0" "\<lambda>i m a m'. skipped rid m m'" for rid :: string and t :: int
proof
  fix p xs m R i
  assume A: "pool_inv p xs" "uncached_plain p" "mgr_wf p m" "owns R p m" "plain_manager m"
  obtain m' p' ys where "remove_skipped_blocks rid t m p = Inr (m', p')" "mgr_op R p m p' (xs @ ys) m'" "skipped rid m m'"
    using remove_skipped_spec [OF A, of rid t] unfolding skipped_def by blast
  then show "\<exists>a m' p' xs'. and_then (remove_skipped_blocks rid t m p) (\<lambda>(m', p'). Inr ((), m', p')) = Inr (a, m', p') \<and>
      mgr_op R p m p' xs' m' \<and> skipped rid m m' \<and> int (length xs) - 0 \<le> int (length xs') \<and>
      (\<forall>j m2. i < j \<longrightarrow> plain_manager m2 \<longrightarrow> plain_manager m2 \<and> (0::int) \<le> 0)"
    by (intro exI [of _ "()"] exI [of _ m'] exI [of _ p'] exI [of _ "xs @ ys"]) simp
qed simp

text \<open>Allocating new blocks.\<close>

definition missing_blocks :: "string \<Rightarrow> int \<Rightarrow> int \<Rightarrow> manager \<Rightarrow> int" where
  "missing_blocks rid ntok enc m =
     max 0 (cdiv (slot_tokens m ntok enc) (m_block_size m) - int (length (blocks_of m rid)))"

definition extended :: "string \<Rightarrow> int \<Rightarrow> int \<Rightarrow> manager \<Rightarrow> node list \<Rightarrow> manager \<Rightarrow> bool" where
  "extended rid ntok enc m new m' \<longleftrightarrow> m_spec m' = m_spec m \<and> int (length new) = missing_blocks rid ntok enc m \<and>
     updates m rid (blocks_of m rid @ new) (cached_count m rid) m'"

interpretation new_loop: manager_loop
  "\<lambda>i m p. allocate_new_blocks rid (if is_cross m then enc else ntok) main m p"
  "\<lambda>i p m. plain_manager m" "\<lambda>i p m. missing_blocks rid ntok enc m"
  "\<lambda>i m a m'. extended rid ntok enc m a m'" for rid :: string and ntok enc main :: int
proof
  fix p xs m R i
  assume A: "pool_inv p xs" "uncached_plain p" "mgr_wf p m" "owns R p m" "plain_manager m"
    and le: "missing_blocks rid ntok enc m \<le> int (length xs)"
  define k where "k = cdiv (slot_tokens m ntok enc) (m_block_size m) - int (length (blocks_of m rid))"
  have fr: "get_num_free_blocks p = int (length xs)" using pool_invD(6) [OF A(1)] by (simp add: get_num_free_blocks_def)
  have k: "k \<le> get_num_free_blocks p" "int (nat k) = missing_blocks rid ntok enc m"
    using le fr by (auto simp: missing_blocks_def k_def)
  from allocate_new_blocks_spec [OF A k_def k(1), of main] obtain m' p' where r:
    "allocate_new_blocks rid (if is_cross m then enc else ntok) main m p = Inr (map Blk (take (nat k) xs), m', p')"
    "mgr_op R p m p' (drop (nat k) xs) m'" "m_spec m' = m_spec m"
    "updates m rid (blocks_of m rid @ map Blk (take (nat k) xs)) (cached_count m rid) m'" by blast
  have nk: "nat k \<le> length xs" using k(1) fr by linarith
  then have ln: "length (take (nat k) xs) = nat k" by simp
  have "extended rid ntok enc m (map Blk (take (nat k) xs)) m'"
    unfolding extended_def length_map ln k(2) using r(3,4) by blast
  moreover have "int (length xs) - missing_blocks rid ntok enc m \<le> int (length (drop (nat k) xs))"
    unfolding length_drop of_nat_diff [OF nk] k(2) by (rule order_refl)
  ultimately show "\<exists>a m' p' xs'. allocate_new_blocks rid (if is_cross m then enc else ntok) main m p = Inr (a, m', p') \<and>
      mgr_op R p m p' xs' m' \<and> extended rid ntok enc m a m' \<and>
      int (length xs) - missing_blocks rid ntok enc m \<le> int (length xs') \<and>
      (\<forall>j m2. i < j \<longrightarrow> plain_manager m2 \<longrightarrow> plain_manager m2 \<and>
         missing_blocks rid ntok enc m2 \<le> missing_blocks rid ntok enc m2)"
    using r(1,2) by blast
qed (simp add: missing_blocks_def)

text \<open>Taking over the hits of every group.\<close>

definition took_over :: "string \<Rightarrow> int \<Rightarrow> int \<Rightarrow> node list \<Rightarrow> manager \<Rightarrow> manager \<Rightarrow> bool" where
  "took_over rid nl ne cs m m' \<longleftrightarrow> m_spec m' = m_spec m \<and> m_group_id m' = m_group_id m \<and> m_block_size m' = m_block_size m \<and>
     m_enable_caching m' = m_enable_caching m \<and> (\<forall>r. r \<noteq> rid \<longrightarrow> blocks_of m' r = blocks_of m r) \<and>
     int (length (blocks_of m' rid)) =
       max 0 (max (skipped_blocks m (nl + ne)) (int (length cs))) + external_blocks m (nl + ne) ne cs"

lemma external_blocks_none: "external_blocks m t 0 cs = 0"
  by (simp add: external_blocks_def)

lemma evictable_mono:
  assumes "\<And>i. ref p i \<le> ref p' i" "pool_inv p xs" "pool_inv p' xs'" "block_list_ok p bs"
  shows "get_num_evictable_blocks p' bs \<le> get_num_evictable_blocks p bs"
proof -
  have "length (filter P bs) \<le> length (filter Q bs)" if "\<And>b. b \<in> set bs \<Longrightarrow> P b \<Longrightarrow> Q b" for P Q :: "node \<Rightarrow> bool"
    using that by (induction bs) auto
  moreover have "ref_cnt (heap p b) = 0 \<and> \<not> is_null (heap p b)"
    if b: "b \<in> set bs" "ref_cnt (heap p' b) = 0 \<and> \<not> is_null (heap p' b)" for b
  proof -
    obtain i where i: "b = Blk i" "i < pool_size p" using assms(4) b(1) by (auto simp: block_list_ok_def)
    then have "i \<noteq> 0" using b(2) pool_invD(10) [OF assms(3)] by auto
    moreover from this have "0 \<le> ref p i" using pool_invD(11) [OF assms(2)] i(2) by simp
    ultimately show ?thesis using b(2) assms(1) [of i] pool_invD(10) [OF assms(2)] i(1) by auto
  qed
  ultimately show ?thesis by (simp add: get_num_evictable_blocks_def)
qed

lemma computed_ok_cong:
  assumes "\<And>i. hash_of p' i = hash_of p i" "same_config p p'"
  shows "computed_ok p' cs = computed_ok p cs"
  using assms by (simp add: computed_ok_def block_list_ok_def same_config_def)

interpretation computed_loop: manager_loop
  "\<lambda>i m p. and_then (py_index css (int i)) (\<lambda>cs.
     and_then (allocate_new_computed_blocks rid cs nl 0 m p) (\<lambda>(m', p'). Inr ((), m', p')))"
  "\<lambda>i p m. plain_manager m \<and> i < length css \<and> new_request p m rid (css ! i) nl 0 \<and> (\<exists>xs. pool_inv p xs)"
  "\<lambda>i p m. get_num_evictable_blocks p (kept_computed m nl (css ! i))"
  "\<lambda>i m a m'. took_over rid nl 0 (css ! i) m m'" for rid :: string and css :: "node list list" and nl :: int
proof
  fix p xs m R i
  assume A: "pool_inv p xs" "uncached_plain p" "mgr_wf p m" "owns R p m"
    and rd: "plain_manager m \<and> i < length css \<and> new_request p m rid (css ! i) nl 0 \<and> (\<exists>xs. pool_inv p xs)"
    and le: "get_num_evictable_blocks p (kept_computed m nl (css ! i)) \<le> int (length xs)"
  have fr: "get_num_free_blocks p = int (length xs)" using pool_invD(6) [OF A(1)] by (simp add: get_num_free_blocks_def)
  have "get_num_evictable_blocks p (kept_computed m (nl + 0) (css ! i)) + 0 \<le> get_num_free_blocks p"
    using le fr by simp
  moreover have pm: "plain_manager m" and nr: "new_request p m rid (css ! i) nl 0" using rd by blast+
  ultimately obtain m' p' xs' where r: "allocate_new_computed_blocks rid (css ! i) nl 0 m p = Inr (m', p')"
    "mgr_op R p m p' xs' m'" "took_over rid nl 0 (css ! i) m m'"
    "int (length xs') = int (length xs) - get_num_evictable_blocks p (kept_computed m nl (css ! i))"
    "\<forall>i. hash_of p' i = hash_of p i \<and> ref p i \<le> ref p' i"
    using allocate_computed_spec(2) [OF A pm nr external_blocks_none [symmetric]]
    unfolding took_over_def external_blocks_none by (simp only: add_0_right diff_0_right) blast
  have inv': "pool_inv p' xs'" and cfg: "same_config p p'" using r(2) by (auto simp: mgr_op_def frame_def)
  have later: "new_request p' m2 rid (css ! j) nl 0 \<and>
      get_num_evictable_blocks p' (kept_computed m2 nl (css ! j)) \<le> get_num_evictable_blocks p (kept_computed m2 nl (css ! j))"
    if "new_request p m2 rid (css ! j) nl 0" for j m2
  proof
    have c: "computed_ok p (css ! j)" using that by (simp add: new_request_def)
    then have "computed_ok p (kept_computed m2 nl (css ! j))" using computed_ok_subset by (simp add: kept_computed_def)
    then show "get_num_evictable_blocks p' (kept_computed m2 nl (css ! j)) \<le>
        get_num_evictable_blocks p (kept_computed m2 nl (css ! j))"
      using evictable_mono [OF _ A(1) inv'] r(5) by (simp add: computed_ok_def)
    show "new_request p' m2 rid (css ! j) nl 0"
      using that c computed_ok_cong [OF _ cfg] r(5) cfg by (simp add: new_request_def same_config_def)
  qed
  show "\<exists>a m' p' xs'. and_then (py_index css (int i)) (\<lambda>cs.
      and_then (allocate_new_computed_blocks rid cs nl 0 m p) (\<lambda>(m', p'). Inr ((), m', p'))) = Inr (a, m', p') \<and>
      mgr_op R p m p' xs' m' \<and> took_over rid nl 0 (css ! i) m m' \<and>
      int (length xs) - get_num_evictable_blocks p (kept_computed m nl (css ! i)) \<le> int (length xs') \<and>
      (\<forall>j m2. i < j \<longrightarrow>
         plain_manager m2 \<and> j < length css \<and> new_request p m2 rid (css ! j) nl 0 \<and> (\<exists>xs. pool_inv p xs) \<longrightarrow>
         (plain_manager m2 \<and> j < length css \<and> new_request p' m2 rid (css ! j) nl 0 \<and> (\<exists>xs. pool_inv p' xs)) \<and>
         get_num_evictable_blocks p' (kept_computed m2 nl (css ! j)) \<le>
         get_num_evictable_blocks p (kept_computed m2 nl (css ! j)))"
    by (rule exI [of _ "()"], rule exI [of _ m'], rule exI [of _ p'], rule exI [of _ xs'])
      (use r later inv' rd in \<open>auto simp: py_index_nat\<close>)
qed (simp add: get_num_evictable_blocks_def)

text \<open>Caching the full blocks in every group.\<close>

definition cached_to :: "request \<Rightarrow> int \<Rightarrow> manager \<Rightarrow> manager \<Rightarrow> bool" where
  "cached_to r ntok m m' \<longleftrightarrow>
     (\<exists>b c S. m' = m\<lparr>req_to_blocks := b, num_cached_block := c, cached_blocks_this_step := S\<rparr>) \<and>
     updates m (request_id r) (blocks_of m (request_id r))
       (max (cached_count m (request_id r)) (int (nat (ntok div m_block_size m)))) m'"

definition cache_ready :: "hash_env \<Rightarrow> request \<Rightarrow> int \<Rightarrow> block_pool \<Rightarrow> manager \<Rightarrow> bool" where
  "cache_ready env r ntok p m \<longleftrightarrow> plain_manager m \<and> group_id_ok (m_group_id m) \<and>
     nat (ntok div m_block_size m) \<le> length (blocks_of m (request_id r)) \<and>
     (\<exists>hl. hashes_ready env r (m_block_size m) (nat (ntok div m_block_size m)) hl p)"

lemma record_cached_total:
  assumes "\<And>b. b \<in> set bs \<Longrightarrow> \<not> is_null (heap p b) \<Longrightarrow> block_hash (heap p b) \<noteq> None"
  shows "\<exists>S'. record_cached p bs S = Inr S'"
  using assms
proof (induction bs arbitrary: S)
  case (Cons b bs)
  have IH: "\<exists>S'. record_cached p bs S = Inr S'" for S using Cons by simp
  show ?case using IH Cons.prems [of b] by (cases "block_hash (heap p b)") auto
qed simp

lemma cache_blocks_spec:
  assumes inv: "pool_inv p xs" and ca: "enable_caching p" and wf: "mgr_wf p m" and own: "owns R p m"
    and rd: "cache_ready env r ntok p m"
  shows "\<exists>m' p' memo. cache_blocks env r ntok m p = Inr (m', p', r\<lparr>prompt_embeds_per_block_hashes := memo\<rparr>) \<and>
    mgr_op R p m p' xs m' \<and> cached_to r ntok m m' \<and>
    (memo_ok env r \<longrightarrow> memo_ok env (r\<lparr>prompt_embeds_per_block_hashes := memo\<rparr>))"
proof -
  let ?rid = "request_id r" and ?nf = "nat (ntok div m_block_size m)"
  obtain hl where hl: "hashes_ready env r (m_block_size m) ?nf hl p" using rd by (auto simp: cache_ready_def)
  have pm: "plain_manager m" and g: "group_id_ok (m_group_id m)" and len: "?nf \<le> length (blocks_of m ?rid)"
    using rd by (auto simp: cache_ready_def)
  have "m_enable_caching m" using wf ca by (simp add: mgr_wf_def)
  then have nx: "\<not> is_cross m"
    using pm by (auto simp: plain_manager_def is_cross_def split: kv_cache_spec.splits)
  from base_cache_blocks_spec [OF inv ca wf own g refl len hl] obtain m1 p1 memo where 1:
    "base_cache_blocks env r ntok m p = Inr (m1, p1, r\<lparr>prompt_embeds_per_block_hashes := memo\<rparr>)"
    "mgr_op R p m p1 xs m1"
    "updates m ?rid (blocks_of m ?rid) (max (cached_count m ?rid) (int ?nf)) m1"
    "\<exists>b c. m1 = m\<lparr>req_to_blocks := b, num_cached_block := c\<rparr>"
    "\<forall>n i. cached_count m ?rid \<le> int n \<longrightarrow> n < ?nf \<longrightarrow> blocks_of m ?rid ! n = Blk i \<longrightarrow> i \<noteq> 0 \<longrightarrow>
       hash_of p1 i = Some (packed (hash_values hl ! n) (m_group_id m))"
    "memo_ok env r \<longrightarrow> memo_ok env (r\<lparr>prompt_embeds_per_block_hashes := memo\<rparr>)" by blast
  obtain b c where bc: "m1 = m\<lparr>req_to_blocks := b, num_cached_block := c\<rparr>" using 1(4) by blast
  have st: "\<exists>b c S. m1\<lparr>cached_blocks_this_step := S0\<rparr> =
      m\<lparr>req_to_blocks := b, num_cached_block := c, cached_blocks_this_step := S\<rparr>" for S0
    unfolding bc by (intro exI [of _ b] exI [of _ c] exI [of _ S0]) simp
  have op: "mgr_op R p m p1 xs (m1\<lparr>cached_blocks_this_step := S\<rparr>)" for S
    using 1(2) held_cong [of "m1\<lparr>cached_blocks_this_step := S\<rparr>" m1]
    by (simp add: mgr_op_def mgr_wf_def owns_def frame_def)
  have ct: "cached_to r ntok m (m1\<lparr>cached_blocks_this_step := S\<rparr>)" for S
    using 1(3) st [of S] held_cong [of "m1\<lparr>cached_blocks_this_step := S\<rparr>" m1]
    by (simp add: cached_to_def updates_def)
  have same: "m1 = m1\<lparr>cached_blocks_this_step := cached_blocks_this_step m1\<rparr>" by simp
  have "\<exists>S. cache_blocks env r ntok m p =
      Inr (m1\<lparr>cached_blocks_this_step := S\<rparr>, p1, r\<lparr>prompt_embeds_per_block_hashes := memo\<rparr>)"
  proof (cases "is_mamba m \<and> cached_count m1 ?rid > cached_count m ?rid")
    case False
    then have "cache_blocks env r ntok m p = Inr (m1, p1, r\<lparr>prompt_embeds_per_block_hashes := memo\<rparr>)"
      using 1(1) nx by (auto simp: cache_blocks_def mamba_cache_blocks_def)
    then show ?thesis using same by metis
  next
    case True
    let ?c = "nat (cached_count m ?rid)"
    have c0: "cached_count m ?rid = int ?c" using wf by (simp add: mgr_wf_def)
    have c1: "cached_count m1 ?rid = int ?nf" using True 1(3) by (simp add: updates_def max_def split: if_splits)
    have b1: "blocks_of m1 ?rid = blocks_of m ?rid" using 1(3) by (simp add: updates_def)
    have cn: "?c \<le> ?nf" using True c0 c1 by linarith
    have sl: "py_slice (blocks_of m1 ?rid) (cached_count m ?rid) (cached_count m1 ?rid) =
        take (?nf - ?c) (drop ?c (blocks_of m ?rid))"
      using py_slice_nat [OF cn len] c0 c1 b1 by metis
    have "block_hash (heap p1 x) \<noteq> None"
      if x: "x \<in> set (take (?nf - ?c) (drop ?c (blocks_of m ?rid)))" "\<not> is_null (heap p1 x)" for x
    proof -
      obtain n where "n < ?nf - ?c" "x = blocks_of m ?rid ! (?c + n)" using x(1) len by (auto simp: in_set_conv_nth)
      then have n: "?c + n < ?nf" "x = blocks_of m ?rid ! (?c + n)" by simp_all
      obtain i where i: "x = Blk i" using x(1) wf
        by (auto simp: mgr_wf_def block_list_ok_def dest!: in_set_takeD in_set_dropD)
      have "pool_inv p1 xs" using 1(2) by (simp add: mgr_op_def)
      then have "i \<noteq> 0" using x(2) pool_invD(10) i by blast
      then show ?thesis using 1(5) n i c0 by (metis le_add1 of_nat_le_iff option.distinct(1))
    qed
    then obtain S where "record_cached p1 (py_slice (blocks_of m1 ?rid) (cached_count m ?rid) (cached_count m1 ?rid))
        (cached_blocks_this_step m1) = Inr S" unfolding sl using record_cached_total by blast
    then have "cache_blocks env r ntok m p =
        Inr (m1\<lparr>cached_blocks_this_step := S\<rparr>, p1, r\<lparr>prompt_embeds_per_block_hashes := memo\<rparr>)"
      using True 1(1) nx by (simp add: cache_blocks_def mamba_cache_blocks_def)
    then show ?thesis by blast
  qed
  then show ?thesis using op ct 1(6) by blast
qed

lemma cache_ready_memo:
  assumes "cache_ready env r ntok p m" "same_config p p'"
    "memo_ok env r \<longrightarrow> memo_ok env (r\<lparr>prompt_embeds_per_block_hashes := memo\<rparr>)"
  shows "cache_ready env (r\<lparr>prompt_embeds_per_block_hashes := memo\<rparr>) ntok p' m"
  using assms by (auto simp: cache_ready_def hashes_ready_def same_config_def)

lemma cache_managers_spec:
  assumes "ms_inv p xs (pre @ ms)" "enable_caching p" "\<forall>m\<in>set ms. cache_ready env r ntok p m"
  shows "\<exists>ms' p' memo. cache_managers env r ntok ms p = Inr (ms', p', r\<lparr>prompt_embeds_per_block_hashes := memo\<rparr>) \<and>
    ms_inv p' xs (pre @ ms') \<and> same_config p p' \<and> list_all2 (cached_to r ntok) ms ms' \<and>
    (memo_ok env r \<longrightarrow> memo_ok env (r\<lparr>prompt_embeds_per_block_hashes := memo\<rparr>))"
  using assms
proof (induction ms arbitrary: pre p r)
  case Nil
  show ?case using Nil(1)
    by (intro exI [of _ "[]"] exI [of _ p] exI [of _ "prompt_embeds_per_block_hashes r"]) simp
next
  case (Cons m ms)
  note S = ms_inv_split [OF Cons.prems(1)]
  have rd: "cache_ready env r ntok p m" using Cons.prems(3) by simp
  from cache_blocks_spec [OF S(1) Cons.prems(2) S(3,4) rd] obtain m' p1 memo1 where 1:
    "cache_blocks env r ntok m p = Inr (m', p1, r\<lparr>prompt_embeds_per_block_hashes := memo1\<rparr>)"
    "mgr_op (\<lambda>i. refs_of pre i + refs_of ms i) p m p1 xs m'" "cached_to r ntok m m'"
    "memo_ok env r \<longrightarrow> memo_ok env (r\<lparr>prompt_embeds_per_block_hashes := memo1\<rparr>)" by blast
  let ?r = "r\<lparr>prompt_embeds_per_block_hashes := memo1\<rparr>"
  have inv1: "ms_inv p1 xs ((pre @ [m']) @ ms)" using ms_inv_step [OF Cons.prems(1) 1(2)] by simp
  have cfg1: "same_config p p1" using 1(2) by (simp add: mgr_op_def frame_def)
  then have ca1: "enable_caching p1" using Cons.prems(2) by (simp add: same_config_def)
  have rd1: "\<forall>m\<in>set ms. cache_ready env ?r ntok p1 m"
    using Cons.prems(3) cache_ready_memo [OF _ cfg1 1(4)] by simp
  from Cons.IH [OF inv1 ca1 rd1] obtain ms' p2 memo where 2:
    "cache_managers env ?r ntok ms p1 = Inr (ms', p2, ?r\<lparr>prompt_embeds_per_block_hashes := memo\<rparr>)"
    "ms_inv p2 xs ((pre @ [m']) @ ms')" "same_config p1 p2" "list_all2 (cached_to ?r ntok) ms ms'"
    "memo_ok env ?r \<longrightarrow> memo_ok env (?r\<lparr>prompt_embeds_per_block_hashes := memo\<rparr>)" by blast
  have "cached_to ?r ntok = cached_to r ntok" by (intro ext) (simp add: cached_to_def)
  moreover have "same_config p p2" using cfg1 2(3) same_config_trans by blast
  ultimately show ?case using 1 2
    by (intro exI [of _ "m' # ms'"] exI [of _ p2] exI [of _ memo]) simp
qed

end
