(* ===== verification/KV_Correct.thy ===== *)
theory KV_Correct
  imports KV_Invariant
begin

text \<open>
  The KV-cache manager as the scheduler sees it: the invariant of its reachable states, the
  correctness of \<^verbatim>\<open>allocate_slots\<close>, and the properties of the group coordinator.
\<close>

section \<open>The invariant\<close>

definition kv_inv :: "kv_manager \<Rightarrow> nat list \<Rightarrow> bool" where
  "kv_inv k xs \<longleftrightarrow>
     (let c = kv_coordinator k; p = co_pool c; ms = co_managers c
      in ms_inv p xs ms \<and> length ms = length (co_groups c) \<and> 0 < hash_block_size p \<and>
         kv_enable_caching k = enable_caching p \<and>
         (\<forall>m\<in>set ms. plain_manager m \<and> group_id_ok (m_group_id m) \<and>
            (enable_caching p \<longrightarrow> hash_block_size p dvd m_block_size m)))"

abbreviation kv_managers :: "kv_manager \<Rightarrow> manager list" where
  "kv_managers k \<equiv> co_managers (kv_coordinator k)"

text \<open>The invariant survives a step that keeps what it says of the configuration.\<close>

lemma kv_inv_step:
  assumes inv: "kv_inv k xs" and ms: "ms_inv p' xs' ms'" and cfg: "same_config (kv_pool k) p'"
    and len: "length ms' = length (kv_managers k)"
    and keep: "\<And>j. j < length ms' \<Longrightarrow> m_spec (ms' ! j) = m_spec (kv_managers k ! j) \<and>
      m_block_size (ms' ! j) = m_block_size (kv_managers k ! j) \<and> m_group_id (ms' ! j) = m_group_id (kv_managers k ! j)"
  shows "kv_inv (k\<lparr>kv_coordinator := (kv_coordinator k)\<lparr>co_managers := ms', co_pool := p'\<rparr>\<rparr>) xs'"
proof -
  have K: "plain_manager m" "group_id_ok (m_group_id m)" "mgr_wf (kv_pool k) m"
    "enable_caching (kv_pool k) \<longrightarrow> hash_block_size (kv_pool k) dvd m_block_size m" if "m \<in> set (kv_managers k)" for m
    using inv that by (auto simp: kv_inv_def ms_inv_def Let_def)
  have wf': "mgr_wf p' m" if "m \<in> set ms'" for m using ms that by (simp add: ms_inv_def)
  have "plain_manager m \<and> group_id_ok (m_group_id m) \<and> (enable_caching p' \<longrightarrow> hash_block_size p' dvd m_block_size m)"
    if mem': "m \<in> set ms'" for m
  proof -
    obtain j where j: "j < length ms'" "m = ms' ! j" using mem' by (auto simp: in_set_conv_nth)
    then have mem: "kv_managers k ! j \<in> set (kv_managers k)" using len by simp
    have "m_enable_caching m = m_enable_caching (kv_managers k ! j)"
      using wf' [OF mem'] K(3) [OF mem] cfg by (simp add: mgr_wf_def same_config_def)
    then show ?thesis using keep [OF j(1)] K [OF mem] plain_manager_cong(1) [of m "kv_managers k ! j"] cfg j(2)
      by (simp add: same_config_def)
  qed
  then show ?thesis using inv ms cfg len by (simp add: kv_inv_def Let_def same_config_def)
qed

section \<open>Counting\<close>

lemma each_manager_read:
  assumes "\<And>j m. j < length ms \<Longrightarrow> m = ms ! j \<Longrightarrow> \<exists>n. f (i + j) m p = Inr (n, m, p) \<and> Q j n"
  shows "\<exists>ns. each_manager f i ms p = Inr (ns, ms, p) \<and> length ns = length ms \<and> (\<forall>j<length ms. Q j (ns ! j))"
  using assms
proof (induction ms arbitrary: i Q)
  case (Cons m ms)
  obtain n where n: "f i m p = Inr (n, m, p)" "Q 0 n" using Cons.prems [of 0] by auto
  have "\<exists>n. f (Suc i + j) m p = Inr (n, m, p) \<and> Q (Suc j) n" if "j < length ms" "m = ms ! j" for j m
    using Cons.prems [of "Suc j"] that by simp
  from Cons.IH [OF this] obtain ns where ns: "each_manager f (Suc i) ms p = Inr (ns, ms, p)"
    "length ns = length ms" "\<forall>j<length ms. Q (Suc j) (ns ! j)" by blast
  then show ?case using n by (intro exI [of _ "n # ns"]) (auto simp: nth_Cons split: nat.splits)
qed simp

text \<open>The blocks one group needs; a cross-attention group only counts encoder tokens.\<close>

definition group_need :: "block_pool \<Rightarrow> string \<Rightarrow> int \<Rightarrow> int \<Rightarrow> node list list \<Rightarrow> int \<Rightarrow> nat \<Rightarrow> manager \<Rightarrow> int" where
  "group_need p rid s enc css tot j m =
     (if is_cross m then need_blocks p m rid enc [] 0
      else need_blocks p m rid (slot_tokens m s enc) (css ! j) tot)"

lemma need_blocks_nonneg: "0 \<le> need_blocks p m rid s cs tot"
  by (simp add: need_blocks_def Let_def get_num_evictable_blocks_def)

lemma sum_from_eq: "sum_from c i ms = (\<Sum>j<length ms. c (i + j) (ms ! j))"
proof (induction ms arbitrary: i)
  case (Cons m ms)
  show ?case by (simp add: Cons sum.lessThan_Suc_shift del: sum.lessThan_Suc)
qed simp

lemma coord_count:
  assumes inv: "pool_inv p xs" and p: "p = co_pool c" and ms: "ms = co_managers c"
    and pm: "\<forall>m\<in>set ms. plain_manager m" and len: "length css = length ms"
    and cs: "\<And>j. j < length ms \<Longrightarrow> rid \<in> fst ` set (num_cached_block (ms ! j)) \<Longrightarrow> css ! j = []"
  shows "\<exists>n. coord_get_num_blocks_to_allocate rid s css enc tot main c = Inr (n, c) \<and>
    (n = sum_from (group_need p rid s enc css tot) 0 ms \<or> (\<exists>m\<in>set ms. is_mamba m) \<and> get_num_free_blocks p < n)"
proof -
  let ?f = "\<lambda>i m p. if is_cross m
       then and_then (get_num_blocks_to_allocate p m rid enc [] 0 enc) (\<lambda>(n, m'). Inr (n, m', p))
       else and_then (py_index css (int i)) (\<lambda>bs.
            and_then (get_num_blocks_to_allocate p m rid s bs tot main) (\<lambda>(n, m'). Inr (n, m', p)))"
  let ?Q = "\<lambda>j n. 0 \<le> n \<and> (n = group_need p rid s enc css tot j (ms ! j) \<or> is_mamba (ms ! j) \<and> get_num_free_blocks p < n)"
  have free: "get_num_free_blocks p \<le> num_gpu_blocks p" "0 \<le> get_num_free_blocks p"
  proof -
    note P = pool_invD [OF inv]
    have "card (set xs) \<le> card {0<..<pool_size p}" by (rule card_mono) (use P(5) in auto)
    then show "get_num_free_blocks p \<le> num_gpu_blocks p" "0 \<le> get_num_free_blocks p"
      using P(4,6,7) by (simp_all add: get_num_free_blocks_def distinct_card)
  qed
  have "\<exists>n. ?f (0 + j) m p = Inr (n, m, p) \<and> ?Q j n" if j: "j < length ms" "m = ms ! j" for j m
  proof (cases "is_cross m")
    case True
    then have nm: "\<not> is_mamba m" using mamba_not_cross by blast
    have "get_num_blocks_to_allocate p m rid enc [] 0 enc = Inr (need_blocks p m rid enc [] 0, m)"
      using nm by (simp add: get_num_blocks_to_allocate_def base_get_num_blocks_to_allocate_def need_blocks_def
          skipped_blocks_def Let_def)
    then show ?thesis using True j(2) by (simp add: group_need_def need_blocks_nonneg)
  next
    case False
    have "plain_manager m" using pm j by simp
    from get_num_spec [OF this _ False free(1), of rid "css ! j" s tot main enc] cs [OF j(1)] j(2) obtain n where
      n: "get_num_blocks_to_allocate p m rid s (css ! j) tot main = Inr (n, m)"
      "n = need_blocks p m rid (slot_tokens m s enc) (css ! j) tot \<or> is_mamba m \<and> get_num_free_blocks p < n" by auto
    then have "0 \<le> n" using free(2) need_blocks_nonneg by force
    then show ?thesis using n False len j by (simp add: py_index_nat group_need_def)
  qed
  from each_manager_read [of ms ?f 0 p ?Q, OF this] obtain ns where ns:
    "each_manager ?f 0 ms p = Inr (ns, ms, p)" "length ns = length ms" "\<forall>j<length ms. ?Q j (ns ! j)" by blast
  have res: "coord_get_num_blocks_to_allocate rid s css enc tot main c = Inr (sum_list ns, c)"
    using ns(1) by (simp add: coord_get_num_blocks_to_allocate_def on_managers_def p ms)
  have sl: "sum_list ns = (\<Sum>j<length ms. ns ! j)" using ns(2) by (simp add: sum_list_sum_nth atLeast0LessThan)
  show ?thesis
  proof (cases "\<forall>j<length ms. ns ! j = group_need p rid s enc css tot j (ms ! j)")
    case True
    then have "sum_list ns = sum_from (group_need p rid s enc css tot) 0 ms" by (simp add: sl sum_from_eq)
    then show ?thesis using res by blast
  next
    case False
    then obtain j where j: "j < length ms" "get_num_free_blocks p < ns ! j" "is_mamba (ms ! j)" using ns(3) by blast
    have "ns ! j \<le> (\<Sum>j<length ms. ns ! j)" by (rule member_le_sum) (use j ns(3) in auto)
    then show ?thesis using res sl j by (auto intro: nth_mem)
  qed
qed

section \<open>The phases of an allocation\<close>

lemma free_blocks_Nil: "free_blocks [] p = Inr p"
  by (simp add: free_blocks_def append_n_def)

lemma base_remove_skipped_new:
  assumes "blocks_of m rid = []"
  shows "\<exists>b. base_remove_skipped_blocks rid t m p = Inr (m\<lparr>req_to_blocks := b\<rparr>, p)"
proof (cases "get_num_skipped_tokens m t \<le> 0")
  case True
  have "m = m\<lparr>req_to_blocks := req_to_blocks m\<rparr>" by simp
  then show ?thesis using True unfolding base_remove_skipped_blocks_def Let_def by metis
next
  case False
  have e: "skip_loop nb (nat (min x 0)) [] = ([], [])" for nb x by (simp add: min_def)
  have "base_remove_skipped_blocks rid t m p = Inr (set_blocks rid [] (default_entry rid m), p)"
    using False assms by (simp add: base_remove_skipped_blocks_def Let_def e free_blocks_Nil)
  moreover have "set_blocks rid [] (default_entry rid m) =
      m\<lparr>req_to_blocks := AList.update rid [] (req_to_blocks (default_entry rid m))\<rparr>" by (simp add: default_entry_def)
  ultimately show ?thesis by metis
qed

lemma remove_skipped_new:
  assumes "blocks_of m rid = []" "plain_manager m"
  shows "\<exists>m'. remove_skipped_blocks rid t m p = Inr (m', p)"
proof (cases "is_mamba m")
  case True
  obtain b where "base_remove_skipped_blocks rid (max 0 (t - num_speculative_blocks m)) m p =
      Inr (m\<lparr>req_to_blocks := b\<rparr>, p)"
    using base_remove_skipped_new [OF assms(1)] by blast
  then show ?thesis using True mamba_plain(1) [OF assms(2) True]
    by (simp add: remove_skipped_blocks_def mamba_remove_skipped_blocks_def)
qed (use base_remove_skipped_new [OF assms(1)] in \<open>auto simp: remove_skipped_blocks_def\<close>)

lemma each_manager_pool:
  assumes "\<And>j m. m \<in> set ms \<Longrightarrow> \<exists>a m'. f j m p = Inr (a, m', p)" "each_manager f i ms p = Inr (as, ms', p')"
  shows "p' = p"
  using assms
proof (induction ms arbitrary: i as ms')
  case (Cons m ms)
  obtain a m' where "f i m p = Inr (a, m', p)" using Cons.prems(1) [of m i] by auto
  then show ?case using Cons.prems Cons.IH [of "Suc i"]
    by (cases "each_manager f (Suc i) ms p") auto
qed simp

lemma coord_skip:
  assumes inv: "ms_inv p xs ms" and c: "co_pool c = p" "co_managers c = ms" and pm: "\<forall>m\<in>set ms. plain_manager m"
  shows "\<exists>ms' p' xs'. coord_remove_skipped_blocks rid t c = Inr (c\<lparr>co_managers := ms', co_pool := p'\<rparr>) \<and>
    ms_inv p' xs' ms' \<and> same_config p p' \<and> length ms' = length ms \<and> length xs \<le> length xs' \<and>
    (\<forall>j<length ms. skipped rid (ms ! j) (ms' ! j)) \<and>
    ((\<forall>m\<in>set ms. blocks_of m rid = []) \<longrightarrow> p' = p)"
proof -
  let ?f = "\<lambda>i m p. and_then (remove_skipped_blocks rid t m p) (\<lambda>(m', p'). Inr ((), m', p'))"
  have "all_from (\<lambda>j. plain_manager) 0 ms" using pm by (simp add: all_from_iff)
  moreover have "sum_from (\<lambda>j m. 0) 0 ms \<le> int (length xs)" by (simp add: sum_from_eq)
  ultimately obtain as ms' p' xs' where r: "each_manager ?f 0 ms p = Inr (as, ms', p')" "ms_inv p' xs' ms'"
    "same_config p p'" "length ms' = length ms" "\<forall>j<length ms. skipped rid (ms ! j) (ms' ! j)"
    "int (length xs) - sum_from (\<lambda>j m. 0) 0 ms \<le> int (length xs')"
    using skip_loop.loop [OF inv, of 0 rid t] by auto
  have "p' = p" if new: "\<forall>m\<in>set ms. blocks_of m rid = []"
  proof (rule each_manager_pool [OF _ r(1)])
    fix j m assume "m \<in> set ms"
    then obtain m' where "remove_skipped_blocks rid t m p = Inr (m', p)"
      using remove_skipped_new [of m rid t p] new pm by blast
    then show "\<exists>a m'. ?f j m p = Inr (a, m', p)" by simp
  qed
  moreover have "coord_remove_skipped_blocks rid t c = Inr (c\<lparr>co_managers := ms', co_pool := p'\<rparr>)"
    using r(1) c by (simp add: coord_remove_skipped_blocks_def on_managers_def)
  ultimately show ?thesis using r by (simp add: sum_from_eq) blast
qed

text \<open>The hits, with the blocks for external tokens of a single group.\<close>

definition hit_cost :: "block_pool \<Rightarrow> int \<Rightarrow> int \<Rightarrow> node list list \<Rightarrow> nat \<Rightarrow> manager \<Rightarrow> int" where
  "hit_cost p nl ne css j m =
     get_num_evictable_blocks p (kept_computed m (nl + ne) (css ! j)) + external_blocks m (nl + ne) ne (css ! j)"

lemma coord_hits:
  assumes inv: "ms_inv p xs ms" and c: "co_pool c = p" "co_managers c = ms" and pm: "\<forall>m\<in>set ms. plain_manager m"
    and len: "length css = length ms" and nr: "\<And>j. j < length ms \<Longrightarrow> new_request p (ms ! j) rid (css ! j) nl ne"
    and ne: "ne = 0 \<or> length ms = 1" and cost: "sum_from (hit_cost p nl ne css) 0 ms \<le> int (length xs)"
  shows "\<exists>ms' p' xs'. coord_allocate_new_computed_blocks rid css nl ne c = Inr (c\<lparr>co_managers := ms', co_pool := p'\<rparr>) \<and>
    ms_inv p' xs' ms' \<and> same_config p p' \<and> length ms' = length ms \<and>
    (\<forall>j<length ms. took_over rid nl ne (css ! j) (ms ! j) (ms' ! j)) \<and>
    int (length xs) - sum_from (hit_cost p nl ne css) 0 ms \<le> int (length xs')"
proof (cases "ne = 0")
  case True
  have pinv: "pool_inv p xs" using inv by (simp add: ms_inv_def)
  have hc: "hit_cost p nl ne css = (\<lambda>j m. get_num_evictable_blocks p (kept_computed m nl (css ! j)))"
    using True by (simp add: hit_cost_def external_blocks_none fun_eq_iff)
  have "all_from (\<lambda>j m. plain_manager m \<and> j < length css \<and> new_request p m rid (css ! j) nl 0 \<and> (\<exists>xs. pool_inv p xs)) 0 ms"
    using pm len nr True pinv by (auto simp: all_from_iff)
  from computed_loop.loop [OF inv this] cost obtain as ms' p' xs' where r:
    "each_manager (\<lambda>i m p. and_then (py_index css (int i)) (\<lambda>cs.
       and_then (allocate_new_computed_blocks rid cs nl 0 m p) (\<lambda>(m', p'). Inr ((), m', p')))) 0 ms p = Inr (as, ms', p')"
    "ms_inv p' xs' ms'" "same_config p p'" "length ms' = length ms"
    "\<forall>j<length ms. took_over rid nl 0 (css ! j) (ms ! j) (ms' ! j)"
    "int (length xs) - sum_from (hit_cost p nl ne css) 0 ms \<le> int (length xs')" unfolding hc by auto
  have "coord_allocate_new_computed_blocks rid css nl ne c = Inr (c\<lparr>co_managers := ms', co_pool := p'\<rparr>)"
    using r(1) c True by (simp add: coord_allocate_new_computed_blocks_def on_managers_def)
  then show ?thesis using r True by blast
next
  case False
  then obtain m where m: "ms = [m]" using ne by (auto simp: length_Suc_conv)
  have inv1: "ms_inv p xs ([] @ m # [])" using inv m by simp
  note S = ms_inv_split [OF inv1]
  have fr: "get_num_free_blocks p = int (length xs)" using pool_invD(6) [OF S(1)] by (simp add: get_num_free_blocks_def)
  have pm': "plain_manager m" and nr': "new_request p m rid (css ! 0) nl ne" using pm nr [of 0] m by auto
  have cost': "get_num_evictable_blocks p (kept_computed m (nl + ne) (css ! 0)) + external_blocks m (nl + ne) ne (css ! 0)
      \<le> get_num_free_blocks p" using cost m fr by (simp add: hit_cost_def)
  from allocate_computed_spec(2) [OF S pm' nr' refl cost'] obtain m' p' xs' where r:
    "allocate_new_computed_blocks rid (css ! 0) nl ne m p = Inr (m', p')"
    "mgr_op (\<lambda>i. refs_of [] i + refs_of [] i) p m p' xs' m'" "took_over rid nl ne (css ! 0) m m'"
    "int (length xs') = int (length xs) - get_num_evictable_blocks p (kept_computed m (nl + ne) (css ! 0)) -
      external_blocks m (nl + ne) ne (css ! 0)" unfolding took_over_def by blast
  have "ms_inv p' xs' [m']" using ms_inv_step [OF inv1 r(2)] by simp
  moreover have "same_config p p'" using r(2) by (simp add: mgr_op_def frame_def)
  moreover have "py_index css 0 = Inr (css ! 0)" using py_index_nat [of 0 css] len m by simp
  then have "coord_allocate_new_computed_blocks rid css nl ne c = Inr (c\<lparr>co_managers := [m'], co_pool := p'\<rparr>)"
    using r(1) c m by (simp add: coord_allocate_new_computed_blocks_def on_managers_def)
  ultimately show ?thesis using r(3,4) m
    by (intro exI [of _ "[m']"] exI [of _ p'] exI [of _ xs']) (simp add: hit_cost_def)
qed

lemma coord_new:
  assumes inv: "ms_inv p xs ms" and c: "co_pool c = p" "co_managers c = ms" and pm: "\<forall>m\<in>set ms. plain_manager m"
    and cost: "sum_from (\<lambda>j. missing_blocks rid s enc) 0 ms \<le> int (length xs)"
  shows "\<exists>new ms' p' xs'. coord_allocate_new_blocks rid s main enc c = Inr (new, c\<lparr>co_managers := ms', co_pool := p'\<rparr>) \<and>
    ms_inv p' xs' ms' \<and> same_config p p' \<and> length ms' = length ms \<and> length new = length ms \<and>
    (\<forall>j<length ms. extended rid s enc (ms ! j) (new ! j) (ms' ! j))"
proof -
  have "all_from (\<lambda>j. plain_manager) 0 ms" using pm by (simp add: all_from_iff)
  from new_loop.loop [OF inv this cost, of main] obtain new ms' p' xs' where r:
    "each_manager (\<lambda>i m p. allocate_new_blocks rid (if is_cross m then enc else s) main m p) 0 ms p = Inr (new, ms', p')"
    "ms_inv p' xs' ms'" "same_config p p'" "length ms' = length ms" "length new = length ms"
    "\<forall>j<length ms. extended rid s enc (ms ! j) (new ! j) (ms' ! j)" by auto
  then show ?thesis using c by (simp add: coord_allocate_new_blocks_def on_managers_def) blast
qed

section \<open>The capacity check is exact\<close>

lemma need_continuing:
  assumes pm: "plain_manager m" and wf: "mgr_wf p m" and nl: "0 \<le> nl"
    and cov: "\<not> is_cross m \<Longrightarrow> nl \<le> int (length (blocks_of m rid)) * m_block_size m"
    and cs: "css ! j = []"
  shows "group_need p rid s enc css nl j m = missing_blocks rid s enc m"
proof (cases "is_cross m")
  case True
  then have "get_num_skipped_tokens m 0 = 0"
    by (auto simp: is_cross_def get_num_skipped_tokens_def split: kv_cache_spec.splits)
  then show ?thesis using True
    by (simp add: group_need_def need_blocks_def missing_blocks_def slot_tokens_def skipped_blocks_def Let_def
        get_num_evictable_blocks_def py_from_def max.commute)
next
  case False
  have bs: "0 < m_block_size m" using wf by (simp add: mgr_wf_def)
  have "nl div m_block_size m \<le> int (length (blocks_of m rid)) * m_block_size m div m_block_size m"
    by (rule zdiv_mono1 [OF cov [OF False] bs])
  then have "skipped_blocks m nl \<le> int (length (blocks_of m rid))"
    using skipped_blocks_le [OF pm nl bs] bs by simp
  then show ?thesis using False cs
    by (simp add: group_need_def need_blocks_def missing_blocks_def Let_def get_num_evictable_blocks_def
        py_from_def max_def)
qed

lemma slot_tokens_ge:
  assumes "plain_manager m" "mgr_wf p m" "\<not> is_cross m"
  shows "s \<le> slot_tokens m s enc"
  using assms by (simp add: slot_tokens_def mgr_wf_def)

lemma need_hit:
  assumes pm: "plain_manager m" and wf: "mgr_wf p m" and nr: "new_request p m rid (css ! j) nl ne"
    and s: "nl + ne \<le> s" and tk: "took_over rid nl ne (css ! j) m m'"
  shows "group_need p rid s enc css (nl + ne) j m = hit_cost p nl ne css j m + missing_blocks rid s enc m'"
proof -
  let ?b = "m_block_size m" and ?cs = "css ! j" and ?t = "nl + ne"
  let ?S = "cdiv (slot_tokens m s enc) ?b" and ?M = "max (skipped_blocks m ?t) (int (length ?cs))"
  have n: "rid \<notin> fst ` set (num_cached_block m)" "blocks_of m rid = []" "\<not> is_cross m"
    using nr by (auto simp: new_request_def)
  have bs: "0 < ?b" using wf by (simp add: mgr_wf_def)
  have T: "cdiv ?t ?b \<le> ?S" using cdiv_mono [OF bs, of ?t "slot_tokens m s enc"] slot_tokens_ge [OF pm wf n(3), of s enc] s by simp
  have kept: "py_from ?cs (max 0 (skipped_blocks m ?t)) = kept_computed m ?t ?cs"
    by (auto simp: kept_computed_def py_from_def py_clip_def max_def)
  have len': "int (length (blocks_of m' rid)) = ?M + external_blocks m ?t ne ?cs"
    and eq: "m_spec m' = m_spec m" "m_block_size m' = ?b" "m_enable_caching m' = m_enable_caching m"
    using tk by (auto simp: took_over_def)
  have sl: "slot_tokens m' s enc = slot_tokens m s enc" using plain_manager_cong(2) [OF eq] .
  have k: "external_blocks m ?t ne ?cs = 0 \<or> external_blocks m ?t ne ?cs = cdiv ?t ?b - ?M"
    unfolding external_blocks_def kept_length by simp
  have "max (?S - ?M) 0 = external_blocks m ?t ne ?cs + max 0 (?S - (?M + external_blocks m ?t ne ?cs))"
    using k T external_blocks_nonneg [OF wf pm nr] by (auto simp: max_def)
  then show ?thesis
    using n by (simp add: group_need_def need_blocks_def missing_blocks_def hit_cost_def Let_def kept sl eq(2) len')
qed

lemma hashes_ready_exists:
  assumes hb: "0 < hash_block_size p" "hash_block_size p dvd bs" "0 < bs"
    and hs: "int (length (block_hashes r)) = num_tokens r div hash_block_size p" and t: "t \<le> num_tokens r"
    and ev: "enable_kv_cache_events p \<longrightarrow> memo_ok env r \<and> mm_wf (mm_features r)"
  shows "\<exists>hl. hashes_ready env r bs (nat (t div bs)) hl p"
proof -
  let ?h = "hash_block_size p"
  obtain q where q: "bs = ?h * q" using hb(2) by (elim dvdE)
  then have q0: "0 < q" using hb by (simp add: zero_less_mult_iff)
  have tb: "t div bs \<le> num_tokens r div bs" using t hb(3) by (rule zdiv_mono1)
  have dd: "num_tokens r div bs = num_tokens r div ?h div q" using q q0 hb(1) by (simp add: zdiv_zmult2_eq)
  have nn: "0 \<le> num_tokens r div ?h" using hs by linarith
  then have "num_tokens r div ?h div q \<le> num_tokens r div ?h"
    using zdiv_mono2 [OF nn, of 1 q] q0 by simp
  then have nf: "nat (t div bs) \<le> length (block_hashes r)" using tb dd hs by linarith
  show ?thesis
  proof (cases "bs = ?h")
    case True
    then have "hashes_ready env r bs (nat (t div bs)) (Fine (block_hashes r)) p"
      using nf ev by (simp add: hashes_ready_def group_hashes_def hash_list_ok_def hash_values_def)
    then show ?thesis by blast
  next
    case False
    have sc: "scale_factor ?h bs = Inr q" using q hb(1) by (simp add: scale_factor_def)
    have "nat (t div bs) \<le> nat (int (length (block_hashes r)) div q)" using tb dd hs by simp
    then have "hashes_ready env r bs (nat (t div bs)) (Coarse (block_hashes r) q) p"
      using nf ev sc q0 False by (simp add: hashes_ready_def group_hashes_def hash_list_ok_def hash_values_def scaled_len_def)
    then show ?thesis by blast
  qed
qed

section \<open>Allocating slots\<close>

text \<open>Same group, with room for the tokens of the request.\<close>

definition filled :: "string \<Rightarrow> int \<Rightarrow> int \<Rightarrow> manager \<Rightarrow> manager \<Rightarrow> bool" where
  "filled rid s enc m m' \<longleftrightarrow> m_spec m' = m_spec m \<and> m_block_size m' = m_block_size m \<and> m_group_id m' = m_group_id m \<and>
     cdiv (slot_tokens m s enc) (m_block_size m) \<le> int (length (blocks_of m' rid))"

lemma extended_filled:
  assumes "extended rid s enc m1 new m'" "m_spec m1 = m_spec m" "m_block_size m1 = m_block_size m"
    "m_group_id m1 = m_group_id m" "slot_tokens m1 s enc = slot_tokens m s enc"
  shows "filled rid s enc m m'"
proof -
  have "length (blocks_of m' rid) = length (blocks_of m1 rid) + length new"
    using assms(1) by (simp add: extended_def updates_def)
  then show ?thesis using assms unfolding filled_def extended_def updates_def missing_blocks_def by auto
qed

lemma slots_fill:
  assumes inv: "ms_inv p xs ms" and c: "co_pool c = p" "co_managers c = ms" and pm: "\<forall>m\<in>set ms. plain_manager m"
    and len: "length css = length ms" and nl: "0 \<le> nl" and s: "nl + ne \<le> s"
    and cases: "(\<not> called \<and> ne = 0 \<and> (\<forall>j<length ms. css ! j = []) \<and>
        (\<forall>m\<in>set ms. \<not> is_cross m \<longrightarrow> nl \<le> int (length (blocks_of m rid)) * m_block_size m)) \<or>
      (called \<and> (\<forall>j<length ms. new_request p (ms ! j) rid (css ! j) nl ne) \<and> (ne = 0 \<or> length ms = 1))"
    and cost: "sum_from (group_need p rid s enc css (nl + ne)) 0 ms \<le> int (length xs)"
  shows "\<exists>new ms' p' xs'. and_then (if called then coord_allocate_new_computed_blocks rid css nl ne c else Inr c)
      (coord_allocate_new_blocks rid s main enc) = Inr (new, c\<lparr>co_managers := ms', co_pool := p'\<rparr>) \<and>
    ms_inv p' xs' ms' \<and> same_config p p' \<and> length ms' = length ms \<and> length new = length ms \<and>
    (\<forall>j<length ms. filled rid s enc (ms ! j) (ms' ! j))"
  using cases
proof
  assume A: "\<not> called \<and> ne = 0 \<and> (\<forall>j<length ms. css ! j = []) \<and>
        (\<forall>m\<in>set ms. \<not> is_cross m \<longrightarrow> nl \<le> int (length (blocks_of m rid)) * m_block_size m)"
  have "group_need p rid s enc css nl j (ms ! j) = missing_blocks rid s enc (ms ! j)" if "j < length ms" for j
    by (rule need_continuing) (use A pm inv nl that in \<open>auto simp: ms_inv_def\<close>)
  then have "sum_from (\<lambda>j. missing_blocks rid s enc) 0 ms \<le> int (length xs)"
    using cost A by (simp add: sum_from_eq)
  from coord_new [OF inv c pm this, of main] obtain new ms' p' xs' where r:
    "coord_allocate_new_blocks rid s main enc c = Inr (new, c\<lparr>co_managers := ms', co_pool := p'\<rparr>)"
    "ms_inv p' xs' ms'" "same_config p p'" "length ms' = length ms" "length new = length ms"
    "\<forall>j<length ms. extended rid s enc (ms ! j) (new ! j) (ms' ! j)" by blast
  have "\<forall>j<length ms. filled rid s enc (ms ! j) (ms' ! j)" using r(6) extended_filled by blast
  then show ?thesis using r A by auto
next
  assume B: "called \<and> (\<forall>j<length ms. new_request p (ms ! j) rid (css ! j) nl ne) \<and> (ne = 0 \<or> length ms = 1)"
  then have nr: "\<And>j. j < length ms \<Longrightarrow> new_request p (ms ! j) rid (css ! j) nl ne" and ne: "ne = 0 \<or> length ms = 1"
    and cl: called by blast+
  have wf: "mgr_wf p (ms ! j)" and pmj: "plain_manager (ms ! j)" if "j < length ms" for j
    using inv pm that by (auto simp: ms_inv_def)
  have miss0: "0 \<le> missing_blocks rid s enc m" for m by (simp add: missing_blocks_def)
  have le: "hit_cost p nl ne css j (ms ! j) \<le> group_need p rid s enc css (nl + ne) j (ms ! j)" if "j < length ms" for j
  proof -
    let ?m = "ms ! j" and ?L = "nat (max 0 (max (skipped_blocks (ms ! j) (nl + ne)) (int (length (css ! j)))) +
      external_blocks (ms ! j) (nl + ne) ne (css ! j))"
    have e0: "0 \<le> external_blocks ?m (nl + ne) ne (css ! j)"
      by (rule external_blocks_nonneg [OF wf pmj nr]) (rule that)+
    have "took_over rid nl ne (css ! j) ?m (?m\<lparr>req_to_blocks := AList.update rid (replicate ?L (Blk 0)) (req_to_blocks ?m)\<rparr>)"
      using e0 by (simp add: took_over_def)
    from need_hit [OF pmj [OF that] wf [OF that] nr [OF that] s this, of enc] miss0 show ?thesis by simp
  qed
  have "sum_from (hit_cost p nl ne css) 0 ms \<le> sum_from (group_need p rid s enc css (nl + ne)) 0 ms"
    by (rule sum_from_mono) (simp add: all_from_iff le)
  then have hc: "sum_from (hit_cost p nl ne css) 0 ms \<le> int (length xs)" using cost by linarith
  from coord_hits [OF inv c pm len nr ne hc] obtain ms1 p1 xs1 where 1:
    "coord_allocate_new_computed_blocks rid css nl ne c = Inr (c\<lparr>co_managers := ms1, co_pool := p1\<rparr>)"
    "ms_inv p1 xs1 ms1" "same_config p p1" "length ms1 = length ms"
    "\<forall>j<length ms. took_over rid nl ne (css ! j) (ms ! j) (ms1 ! j)"
    "int (length xs) - sum_from (hit_cost p nl ne css) 0 ms \<le> int (length xs1)" by blast
  have K: "m_spec (ms1 ! j) = m_spec (ms ! j)" "m_block_size (ms1 ! j) = m_block_size (ms ! j)"
    "m_enable_caching (ms1 ! j) = m_enable_caching (ms ! j)" "m_group_id (ms1 ! j) = m_group_id (ms ! j)"
    if "j < length ms" for j using 1(5) that by (auto simp: took_over_def)
  have pm1: "\<forall>m\<in>set ms1. plain_manager m"
    using pmj plain_manager_cong(1) [OF K(1-3)] 1(4) by (auto simp: in_set_conv_nth)
  have "group_need p rid s enc css (nl + ne) j (ms ! j) =
      hit_cost p nl ne css j (ms ! j) + missing_blocks rid s enc (ms1 ! j)" if "j < length ms" for j
    by (rule need_hit [OF pmj wf nr s]) (use 1(5) that in auto)
  then have "sum_from (group_need p rid s enc css (nl + ne)) 0 ms =
      sum_from (hit_cost p nl ne css) 0 ms + sum_from (\<lambda>j. missing_blocks rid s enc) 0 ms1"
    using 1(4) by (simp add: sum_from_eq sum.distrib)
  then have "sum_from (\<lambda>j. missing_blocks rid s enc) 0 ms1 \<le> int (length xs1)" using 1(6) cost by linarith
  from coord_new [OF 1(2) _ _ pm1 this, of "c\<lparr>co_managers := ms1, co_pool := p1\<rparr>" main] obtain new ms' p' xs' where r:
    "coord_allocate_new_blocks rid s main enc (c\<lparr>co_managers := ms1, co_pool := p1\<rparr>) =
      Inr (new, c\<lparr>co_managers := ms', co_pool := p'\<rparr>)"
    "ms_inv p' xs' ms'" "same_config p1 p'" "length ms' = length ms1" "length new = length ms1"
    "\<forall>j<length ms1. extended rid s enc (ms1 ! j) (new ! j) (ms' ! j)" by auto
  have "filled rid s enc (ms ! j) (ms' ! j)" if "j < length ms" for j
  proof (rule extended_filled)
    show "extended rid s enc (ms1 ! j) (new ! j) (ms' ! j)" using r(6) 1(4) that by simp
    show "slot_tokens (ms1 ! j) s enc = slot_tokens (ms ! j) s enc"
      by (rule plain_manager_cong(2)) (rule K [OF that])+
  qed (rule K [OF that])+
  moreover have "same_config p p'" using 1(3) r(3) same_config_trans by blast
  ultimately show ?thesis using r 1(1,4) cl by auto
qed

text \<open>
  What the scheduler guarantees when it asks for slots: the tokens fit the model, either the request
  continues, its computed tokens covered by its blocks, or it has no blocks yet and brings the hits
  of every group for its computed tokens; blocks for external tokens are asked for only when there is
  a single group; and the request has been hashed.
\<close>

definition slots_duty ::
  "hash_env \<Rightarrow> request \<Rightarrow> int \<Rightarrow> int \<Rightarrow> kv_cache_blocks \<Rightarrow> int \<Rightarrow> int \<Rightarrow> bool \<Rightarrow> kv_manager \<Rightarrow> bool" where
  "slots_duty env r nnew ncomp cb look ne delay k \<longleftrightarrow>
     (let p = kv_pool k; ms = kv_managers k; rid = request_id r; nl = num_computed_tokens r + ncomp;
          css = kv_blocks (num_kv_cache_groups k) cb
      in 0 \<le> nnew \<and> 0 \<le> look \<and> 0 \<le> ne \<and> 0 \<le> nl \<and> (0 < nnew \<or> 0 < ne) \<and> nl + ne + nnew \<le> kv_max_model_len k \<and>
         ((cb = None \<and> ne = 0 \<and>
            (\<forall>m\<in>set ms. \<not> is_cross m \<longrightarrow> nl \<le> int (length (blocks_of m rid)) * m_block_size m)) \<or>
          ((cb \<noteq> None \<or> 0 < ne) \<and> length css = length ms \<and>
            (\<forall>j<length ms. new_request p (ms ! j) rid (css ! j) nl ne) \<and> (ne = 0 \<or> length ms = 1))) \<and>
         (kv_enable_caching k \<and> \<not> delay \<longrightarrow>
            int (length (block_hashes r)) = num_tokens r div hash_block_size p \<and>
            (enable_kv_cache_events p \<longrightarrow> memo_ok env r \<and> mm_wf (mm_features r))))"

lemma and_then_assoc: "and_then (and_then x f) g = and_then x (\<lambda>y. and_then (f y) g)"
  by (cases x) auto

lemma new_request_skipped:
  assumes "new_request p m rid cs nl ne" "skipped rid m m'"
  shows "new_request p m' rid cs nl ne"
proof -
  obtain b where b: "m' = m\<lparr>req_to_blocks := b\<rparr>" "length (blocks_of m' rid) = length (blocks_of m rid)"
    using assms(2) by (auto simp: skipped_def)
  then have "blocks_of m' rid = []" using assms(1) by (simp add: new_request_def)
  then show ?thesis using assms(1) b(1) by (simp add: new_request_def is_cross_def)
qed

lemma skipped_keeps:
  assumes "skipped rid m m'"
  shows "m_spec m' = m_spec m" "m_block_size m' = m_block_size m" "m_group_id m' = m_group_id m"
    "m_enable_caching m' = m_enable_caching m" "num_cached_block m' = num_cached_block m"
    "length (blocks_of m' rid) = length (blocks_of m rid)"
  using assms by (auto simp: skipped_def)

text \<open>Caching what has been computed, once the slots are there.\<close>

lemma coord_cache:
  assumes inv: "ms_inv p xs ms" and c: "co_pool c = p" "co_managers c = ms" and ca: "enable_caching p"
    and rd: "\<forall>m\<in>set ms. cache_ready env r ntok p m"
  shows "\<exists>ms' p' memo. coord_cache_blocks env r ntok c =
      Inr (c\<lparr>co_managers := ms', co_pool := p'\<rparr>, r\<lparr>prompt_embeds_per_block_hashes := memo\<rparr>) \<and>
    ms_inv p' xs ms' \<and> same_config p p' \<and> length ms' = length ms \<and>
    (\<forall>j<length ms. cached_to r ntok (ms ! j) (ms' ! j))"
proof -
  have inv': "ms_inv p xs ([] @ ms)" using inv by simp
  from cache_managers_spec [OF inv' ca rd] obtain ms' p' memo where r:
    "cache_managers env r ntok ms p = Inr (ms', p', r\<lparr>prompt_embeds_per_block_hashes := memo\<rparr>)"
    "ms_inv p' xs ([] @ ms')" "same_config p p'" "list_all2 (cached_to r ntok) ms ms'" by blast
  then show ?thesis using c by (simp add: coord_cache_blocks_def list_all2_conv_all_nth) metis
qed

lemma cached_to_keeps:
  assumes "cached_to r ntok m m'"
  shows "m_spec m' = m_spec m" "m_block_size m' = m_block_size m" "m_group_id m' = m_group_id m"
    "blocks_of m' rid = blocks_of m rid"
  using assms by (auto simp: cached_to_def updates_def)

lemma filled_cached:
  assumes "filled rid s enc m m1" "cached_to r ntok m1 m'"
  shows "filled rid s enc m m'"
  using assms(1) cached_to_keeps [OF assms(2)] by (simp add: filled_def)

lemma filled_cache_ready:
  assumes fl: "filled (request_id r) s enc m m'" and pm: "plain_manager m'" and wf: "mgr_wf p m'" and nx: "\<not> is_cross m'"
    and g: "group_id_ok (m_group_id m')" and hb: "0 < hash_block_size p" "hash_block_size p dvd m_block_size m'"
    and hs: "int (length (block_hashes r)) = num_tokens r div hash_block_size p"
    and ev: "enable_kv_cache_events p \<longrightarrow> memo_ok env r \<and> mm_wf (mm_features r)"
    and t: "t \<le> num_tokens r" "t \<le> s" and sl: "slot_tokens m s enc = slot_tokens m' s enc"
  shows "cache_ready env r t p m'"
proof -
  let ?b = "m_block_size m'"
  have bs: "0 < ?b" using wf by (simp add: mgr_wf_def)
  have "t div ?b * ?b \<le> t" using le_div_iff_mult_le [OF bs, of "t div ?b" t] by simp
  also have "t \<le> slot_tokens m' s enc" using t(2) slot_tokens_ge [OF pm wf nx, of s enc] by linarith
  also have "\<dots> \<le> cdiv (slot_tokens m' s enc) ?b * ?b" by (rule cdiv_bounds(1) [OF bs])
  finally have "t div ?b \<le> cdiv (slot_tokens m' s enc) ?b" using bs by simp
  moreover have "cdiv (slot_tokens m' s enc) ?b \<le> int (length (blocks_of m' (request_id r)))"
    using fl sl by (simp add: filled_def)
  ultimately have "nat (t div ?b) \<le> length (blocks_of m' (request_id r))" by linarith
  then show ?thesis using pm g hashes_ready_exists [OF hb bs hs t(1) ev] by (simp add: cache_ready_def)
qed

lemma kv_invD:
  assumes "kv_inv k xs"
  shows "ms_inv (kv_pool k) xs (kv_managers k)" "length (kv_managers k) = num_kv_cache_groups k"
    "0 < hash_block_size (kv_pool k)" "kv_enable_caching k = enable_caching (kv_pool k)"
    "\<forall>m\<in>set (kv_managers k). plain_manager m" "\<forall>m\<in>set (kv_managers k). group_id_ok (m_group_id m)"
    "\<forall>m\<in>set (kv_managers k). enable_caching (kv_pool k) \<longrightarrow> hash_block_size (kv_pool k) dvd m_block_size m"
    "pool_inv (kv_pool k) xs" "\<forall>m\<in>set (kv_managers k). mgr_wf (kv_pool k) m"
  using assms by (auto simp: kv_inv_def ms_inv_def Let_def)

lemma not_cross_caching:
  assumes "plain_manager m" "mgr_wf p m" "enable_caching p"
  shows "\<not> is_cross m"
  using assms by (auto simp: plain_manager_def mgr_wf_def is_cross_def split: kv_cache_spec.splits)

text \<open>The slots have been allocated in \<open>k1\<close>; what remains is caching.\<close>

lemma slots_cached:
  assumes inv: "kv_inv k1 xs" and duty: "\<not> (\<not> kv_enable_caching k1 \<or> delay) \<longrightarrow>
      int (length (block_hashes r)) = num_tokens r div hash_block_size (kv_pool k1) \<and>
      (enable_kv_cache_events (kv_pool k1) \<longrightarrow> memo_ok env r \<and> mm_wf (mm_features r))"
    and fl: "\<forall>m\<in>set (kv_managers k1). cdiv (slot_tokens m s enc) (m_block_size m) \<le> int (length (blocks_of m (request_id r)))"
    and t: "t \<le> s"
  shows "\<exists>k' r' xs'. (if \<not> kv_enable_caching k1 \<or> delay then Inr (k1, r)
      else and_then (coord_cache_blocks env r (min t (num_tokens r)) (kv_coordinator k1))
        (\<lambda>(c, r'). Inr (k1\<lparr>kv_coordinator := c\<rparr>, r'))) = Inr (k', r') \<and> kv_inv k' xs' \<and>
    (\<exists>memo. r' = r\<lparr>prompt_embeds_per_block_hashes := memo\<rparr>) \<and>
    (\<forall>m\<in>set (kv_managers k'). cdiv (slot_tokens m s enc) (m_block_size m) \<le> int (length (blocks_of m (request_id r))))"
proof (cases "\<not> kv_enable_caching k1 \<or> delay")
  case True
  have "r = r\<lparr>prompt_embeds_per_block_hashes := prompt_embeds_per_block_hashes r\<rparr>" by simp
  then have "\<exists>memo. r = r\<lparr>prompt_embeds_per_block_hashes := memo\<rparr>" by blast
  then show ?thesis using True inv fl by auto
next
  case False
  note K = kv_invD [OF inv]
  let ?p = "kv_pool k1" and ?ms = "kv_managers k1" and ?t = "min t (num_tokens r)"
  have ca: "enable_caching ?p" using False K(4) by simp
  have rd: "\<forall>m\<in>set ?ms. cache_ready env r ?t ?p m"
  proof
    fix m assume m: "m \<in> set ?ms"
    have nx: "\<not> is_cross m" using not_cross_caching K(5,9) ca m by blast
    have "filled (request_id r) s enc m m" using fl m by (simp add: filled_def)
    then show "cache_ready env r ?t ?p m"
      by (rule filled_cache_ready) (use K m ca duty False t nx in auto)
  qed
  from coord_cache [OF K(1) refl refl ca rd] obtain ms' p' memo where r:
    "coord_cache_blocks env r ?t (kv_coordinator k1) =
      Inr ((kv_coordinator k1)\<lparr>co_managers := ms', co_pool := p'\<rparr>, r\<lparr>prompt_embeds_per_block_hashes := memo\<rparr>)"
    "ms_inv p' xs ms'" "same_config ?p p'" "length ms' = length ?ms"
    "\<forall>j<length ?ms. cached_to r ?t (?ms ! j) (ms' ! j)" by blast
  have keep: "m_spec (ms' ! j) = m_spec (?ms ! j) \<and> m_block_size (ms' ! j) = m_block_size (?ms ! j) \<and>
      m_group_id (ms' ! j) = m_group_id (?ms ! j)" if "j < length ms'" for j
    using cached_to_keeps [of r ?t "?ms ! j" "ms' ! j"] r(4,5) that by simp
  have inv': "kv_inv (k1\<lparr>kv_coordinator := (kv_coordinator k1)\<lparr>co_managers := ms', co_pool := p'\<rparr>\<rparr>) xs"
    by (rule kv_inv_step [OF inv r(2,3,4) keep])
  have "cdiv (slot_tokens m s enc) (m_block_size m) \<le> int (length (blocks_of m (request_id r)))" if m': "m \<in> set ms'" for m
  proof -
    obtain j where j: "j < length ms'" "m = ms' ! j" using m' by (auto simp: in_set_conv_nth)
    have ct: "cached_to r ?t (?ms ! j) m" using r(4,5) j by simp
    note C = cached_to_keeps [OF ct]
    have "m_enable_caching m = m_enable_caching (?ms ! j)" using ct by (simp add: cached_to_def updates_def)
    then have "slot_tokens m s enc = slot_tokens (?ms ! j) s enc" by (rule plain_manager_cong(2) [OF C(1,2)])
    then show ?thesis using fl r(4) j C(2,4) by simp
  qed
  then show ?thesis using False r(1) inv' by auto
qed

lemma allocate_slots_spec:
  assumes inv: "kv_inv k xs" and duty: "slots_duty env r nnew ncomp cb look ne delay k"
    and s: "s = min (num_computed_tokens r + ncomp + ne + nnew + look) (kv_max_model_len k)"
  shows "\<exists>res k' r' xs'. allocate_slots env r nnew ncomp cb look ne delay enc k = Inr (res, k', r') \<and> kv_inv k' xs' \<and>
    (\<exists>memo. r' = r\<lparr>prompt_embeds_per_block_hashes := memo\<rparr>) \<and>
    (res \<noteq> None \<longrightarrow> (\<forall>m\<in>set (kv_managers k').
       cdiv (slot_tokens m s enc) (m_block_size m) \<le> int (length (blocks_of m (request_id r))))) \<and>
    (res = None \<longrightarrow> (\<forall>j<length (kv_managers k).
       length (blocks_of (kv_managers k' ! j) (request_id r)) = length (blocks_of (kv_managers k ! j) (request_id r))) \<and>
       ((\<exists>m\<in>set (kv_managers k'). is_mamba m) \<or> get_num_free_blocks (kv_pool k') <
         sum_from (group_need (kv_pool k') (request_id r) s enc (kv_blocks (num_kv_cache_groups k) cb)
           (num_computed_tokens r + ncomp + ne)) 0 (kv_managers k')))"
proof -
  let ?rid = "request_id r" and ?c = "kv_coordinator k" and ?p = "kv_pool k" and ?ms = "kv_managers k"
  define nl where "nl = num_computed_tokens r + ncomp"
  define css where "css = kv_blocks (num_kv_cache_groups k) cb"
  note K = kv_invD [OF inv]
  note D = duty [unfolded slots_duty_def Let_def, folded nl_def css_def]
  have d: "0 \<le> nnew" "0 \<le> look" "0 \<le> ne" "0 \<le> nl" "0 < nnew \<or> 0 < ne" "nl + ne + nnew \<le> kv_max_model_len k"
    using D by blast+
  have tot: "min (nl + ne) (kv_max_model_len k) = nl + ne" using d by linarith
  have s': "s = min (nl + ne + nnew + look) (kv_max_model_len k)" by (simp add: s nl_def)
  have s1: "nl + ne + nnew \<le> s" "nl + ne \<le> s" unfolding s' using d by linarith+
  define called where "called = (cb \<noteq> None \<or> ne > 0)"
  have lc: "length css = length ?ms" using D K(2) by (auto simp: css_def kv_blocks_def)
  obtain ms1 p1 xs1 where 1: "coord_remove_skipped_blocks ?rid (nl + ne) ?c = Inr (?c\<lparr>co_managers := ms1, co_pool := p1\<rparr>)"
    "ms_inv p1 xs1 ms1" "same_config ?p p1" "length ms1 = length ?ms"
    "\<forall>j<length ?ms. skipped ?rid (?ms ! j) (ms1 ! j)" "(\<forall>m\<in>set ?ms. blocks_of m ?rid = []) \<longrightarrow> p1 = ?p"
    using coord_skip [OF K(1) refl refl K(5), of ?rid "nl + ne"] by blast
  let ?c1 = "?c\<lparr>co_managers := ms1, co_pool := p1\<rparr>"
  have k1: "kv_inv (k\<lparr>kv_coordinator := ?c1\<rparr>) xs1"
    by (rule kv_inv_step [OF inv 1(2,3,4)]) (use 1(4,5) skipped_keeps in auto)
  note K1 = kv_invD [OF k1, simplified]
  have cond: "(\<not> called \<and> ne = 0 \<and> (\<forall>j<length ms1. css ! j = []) \<and>
        (\<forall>m\<in>set ms1. \<not> is_cross m \<longrightarrow> nl \<le> int (length (blocks_of m ?rid)) * m_block_size m)) \<or>
      (called \<and> (\<forall>j<length ms1. new_request p1 (ms1 ! j) ?rid (css ! j) nl ne) \<and> (ne = 0 \<or> length ms1 = 1))"
  proof (cases called)
    case False
    then have A: "cb = None" "ne = 0" "\<forall>m\<in>set ?ms. \<not> is_cross m \<longrightarrow> nl \<le> int (length (blocks_of m ?rid)) * m_block_size m"
      using D by (auto simp: called_def)
    have "nl \<le> int (length (blocks_of m ?rid)) * m_block_size m" if m: "m \<in> set ms1" "\<not> is_cross m" for m
    proof -
      obtain j where j: "j < length ?ms" "m = ms1 ! j" using m(1) 1(4) by (auto simp: in_set_conv_nth)
      note S = skipped_keeps [OF 1(5) [rule_format, OF j(1)]]
      have "\<not> is_cross (?ms ! j)" using m(2) j(2) S(1) by (simp add: is_cross_def)
      then show ?thesis using A(3) j S by simp
    qed
    moreover have "\<forall>j<length ms1. css ! j = []" using A(1) lc 1(4) K(2) by (simp add: css_def kv_blocks_def)
    ultimately show ?thesis using False A(2) by blast
  next
    case True
    then have B: "\<forall>j<length ?ms. new_request ?p (?ms ! j) ?rid (css ! j) nl ne" "ne = 0 \<or> length ?ms = 1"
      using D by (auto simp: called_def)
    have "\<forall>m\<in>set ?ms. blocks_of m ?rid = []" using B(1) by (auto simp: in_set_conv_nth new_request_def)
    then have "p1 = ?p" using 1(6) by blast
    moreover have "new_request ?p (ms1 ! j) ?rid (css ! j) nl ne" if j: "j < length ?ms" for j
      using new_request_skipped [OF B(1) [rule_format, OF j] 1(5) [rule_format, OF j]] .
    ultimately show ?thesis using True B(2) 1(4) by simp
  qed
  have keys: "css ! j = []" if "j < length ms1" "?rid \<in> fst ` set (num_cached_block (ms1 ! j))" for j
    using cond that by (auto simp: new_request_def)
  have pinv1: "pool_inv p1 xs1" using 1(2) by (simp add: ms_inv_def)
  have lc1: "length css = length ms1" using lc 1(4) by simp
  from coord_count [OF pinv1 _ _ K1(5) lc1 keys, where c = ?c1 and s = s and enc = enc and tot = "nl + ne" and main = "nl + ne + nnew"] obtain n where n:
    "coord_get_num_blocks_to_allocate ?rid s css enc (nl + ne) (nl + ne + nnew) ?c1 = Inr (n, ?c1)"
    "n = sum_from (group_need p1 ?rid s enc css (nl + ne)) 0 ms1 \<or> (\<exists>m\<in>set ms1. is_mamba m) \<and> get_num_free_blocks p1 < n" by auto
  have fr: "get_num_free_blocks p1 = int (length xs1)" using pool_invD(6) [OF pinv1] by (simp add: get_num_free_blocks_def)
  define finish where "finish = (\<lambda>(new_blocks, c4). if \<not> kv_enable_caching k \<or> delay
        then Inr (Some (create_kv_cache_blocks new_blocks), k\<lparr>kv_coordinator := c4\<rparr>, r)
        else and_then (coord_cache_blocks env r (min (nl + ne + nnew) (num_tokens r)) c4)
          (\<lambda>(c5, r'). Inr (Some (create_kv_cache_blocks new_blocks), k\<lparr>kv_coordinator := c5\<rparr>, r')))"
  have body: "allocate_slots env r nnew ncomp cb look ne delay enc k =
      (if get_num_free_blocks p1 < n then Inr (None, k\<lparr>kv_coordinator := ?c1\<rparr>, r)
       else and_then (and_then (if called then coord_allocate_new_computed_blocks ?rid css nl ne ?c1 else Inr ?c1)
              (coord_allocate_new_blocks ?rid s (nl + ne + nnew) enc)) finish)"
    using d(5) 1(1) n(1) unfolding allocate_slots_def Let_def nl_def [symmetric] css_def [symmetric] tot s' [symmetric]
      and_then_assoc called_def finish_def
    by auto
  show ?thesis
  proof (cases "get_num_free_blocks p1 < n")
    case True
    then have "allocate_slots env r nnew ncomp cb look ne delay enc k = Inr (None, k\<lparr>kv_coordinator := ?c1\<rparr>, r)"
      using body by simp
    moreover have "\<exists>memo. r = r\<lparr>prompt_embeds_per_block_hashes := memo\<rparr>"
      by (rule exI [of _ "prompt_embeds_per_block_hashes r"]) simp
    moreover have "(\<exists>m\<in>set ms1. is_mamba m) \<or>
        get_num_free_blocks p1 < sum_from (group_need p1 ?rid s enc css (nl + ne)) 0 ms1" using True n(2) by auto
    ultimately show ?thesis using k1 1(5) skipped_keeps(6) by (auto simp: nl_def css_def)
  next
    case False
    then have cost: "sum_from (group_need p1 ?rid s enc css (nl + ne)) 0 ms1 \<le> int (length xs1)" using n(2) fr by simp
    from slots_fill [OF 1(2) _ _ K1(5) lc1 d(4) s1(2) cond cost, where c = ?c1 and main = "nl + ne + nnew"] obtain new ms2 p2 xs2 where 2:
      "and_then (if called then coord_allocate_new_computed_blocks ?rid css nl ne ?c1 else Inr ?c1)
        (coord_allocate_new_blocks ?rid s (nl + ne + nnew) enc) = Inr (new, ?c\<lparr>co_managers := ms2, co_pool := p2\<rparr>)"
      "ms_inv p2 xs2 ms2" "same_config p1 p2" "length ms2 = length ms1"
      "\<forall>j<length ms1. filled ?rid s enc (ms1 ! j) (ms2 ! j)" by auto
    let ?k2 = "k\<lparr>kv_coordinator := ?c\<lparr>co_managers := ms2, co_pool := p2\<rparr>\<rparr>"
    have "kv_inv ((k\<lparr>kv_coordinator := ?c1\<rparr>)\<lparr>kv_coordinator := (kv_coordinator (k\<lparr>kv_coordinator := ?c1\<rparr>))
        \<lparr>co_managers := ms2, co_pool := p2\<rparr>\<rparr>) xs2"
      by (rule kv_inv_step [OF k1]) (use 2 in \<open>auto simp: filled_def\<close>)
    then have k2: "kv_inv ?k2 xs2" by simp
    have fl: "cdiv (slot_tokens m s enc) (m_block_size m) \<le> int (length (blocks_of m ?rid))" if m: "m \<in> set ms2" for m
    proof -
      obtain j where j: "j < length ms1" "m = ms2 ! j" using m 2(4) by (auto simp: in_set_conv_nth)
      have F: "filled ?rid s enc (ms1 ! j) m" using 2(5) j by simp
      have "m_enable_caching m = m_enable_caching (ms1 ! j)"
        using 1(2) 2(2,3) m j by (auto simp: ms_inv_def mgr_wf_def same_config_def)
      then have "slot_tokens m s enc = slot_tokens (ms1 ! j) s enc"
        using F by (intro plain_manager_cong(2)) (simp_all add: filled_def)
      then show ?thesis using F by (simp add: filled_def)
    qed
    have sc: "same_config ?p p2" using 1(3) 2(3) same_config_trans by blast
    have hd: "\<not> (\<not> kv_enable_caching ?k2 \<or> delay) \<longrightarrow>
        int (length (block_hashes r)) = num_tokens r div hash_block_size (kv_pool ?k2) \<and>
        (enable_kv_cache_events (kv_pool ?k2) \<longrightarrow> memo_ok env r \<and> mm_wf (mm_features r))"
      using D sc by (simp add: same_config_def)
    from slots_cached [OF k2 hd _ s1(1), of enc] fl obtain k' r' xs' where 3:
      "(if \<not> kv_enable_caching ?k2 \<or> delay then Inr (?k2, r)
        else and_then (coord_cache_blocks env r (min (nl + ne + nnew) (num_tokens r)) (kv_coordinator ?k2))
          (\<lambda>(c, r'). Inr (?k2\<lparr>kv_coordinator := c\<rparr>, r'))) = Inr (k', r')" "kv_inv k' xs'"
      "\<exists>memo. r' = r\<lparr>prompt_embeds_per_block_hashes := memo\<rparr>"
      "\<forall>m\<in>set (kv_managers k'). cdiv (slot_tokens m s enc) (m_block_size m) \<le> int (length (blocks_of m ?rid))" by auto
    have "finish (new, ?c\<lparr>co_managers := ms2, co_pool := p2\<rparr>) = Inr (Some (create_kv_cache_blocks new), k', r')"
      using 3(1) by (auto simp: finish_def and_then_eq_Inr split: if_splits)
    then have "allocate_slots env r nnew ncomp cb look ne delay enc k = Inr (Some (create_kv_cache_blocks new), k', r')"
      using body False 2(1) by simp
    then show ?thesis using 3(2-4) by blast
  qed
qed

end
