(* ===== verification/KV_System.thy ===== *)
theory KV_System
  imports KV_Correct
begin

text \<open>
  The reachable states of the KV-cache manager: construction, the calls of the scheduler in any
  order and for any requests, and what holds of every such state.
\<close>

section \<open>Construction\<close>

definition plain_spec :: "bool \<Rightarrow> int \<Rightarrow> kv_cache_spec \<Rightarrow> bool" where
  "plain_spec caching context_parallel spec \<longleftrightarrow> 0 < spec_block_size spec \<and>
     (case spec of
        SlidingWindowSpec b w \<Rightarrow> 1 \<le> w
      | ChunkedLocalAttentionSpec b c \<Rightarrow> 0 < c
      | MambaSpec b mode n \<Rightarrow> mode \<noteq> ''align'' \<and> 0 \<le> n \<and> context_parallel = 1
      | CrossAttentionSpec b \<Rightarrow> \<not> caching
      | SinkFullAttentionSpec b s \<Rightarrow> False
      | _ \<Rightarrow> True)"

definition plain_config :: "group_spec list \<Rightarrow> bool \<Rightarrow> int \<Rightarrow> int \<Rightarrow> int \<Rightarrow> bool" where
  "plain_config groups caching dcp pcp hbs \<longleftrightarrow> 0 < dcp \<and> 0 < pcp \<and> 0 < hbs \<and> int (length groups) < 2 ^ 32 \<and>
     (\<forall>g\<in>set groups. plain_spec caching (dcp * pcp) (snd g))"

abbreviation init_manager :: "group_spec \<Rightarrow> bool \<Rightarrow> int \<Rightarrow> int \<Rightarrow> int \<Rightarrow> manager" where
  "init_manager g caching i dcp pcp \<equiv> SingleTypeKVCacheManager (snd g) caching i dcp pcp"

lemma make_managers_plain:
  assumes "\<forall>g\<in>set groups. plain_spec caching cp (snd g)"
  shows "make_managers i groups caching dcp pcp p =
    Inr (map (\<lambda>j. init_manager (groups ! j) caching (i + int j) dcp pcp) [0..<length groups], p)"
  using assms
proof (induction groups arbitrary: i)
  case (Cons g gs)
  have g: "get_manager_for_kv_cache_spec (snd g) caching i dcp pcp p = Inr (init_manager g caching i dcp pcp, p)"
    using Cons.prems by (simp add: get_manager_for_kv_cache_spec_def plain_spec_def Let_def split: kv_cache_spec.splits)
  have "map (\<lambda>j. init_manager ((g # gs) ! j) caching (i + int j) dcp pcp) [0..<length (g # gs)] =
      init_manager g caching i dcp pcp # map (\<lambda>j. init_manager (gs ! j) caching (i + 1 + int j) dcp pcp) [0..<length gs]"
    by (rule nth_equalityI) (auto simp: nth_Cons algebra_simps split: nat.splits simp del: upt_Suc)
  moreover have "make_managers (i + 1) gs caching dcp pcp p =
      Inr (map (\<lambda>j. init_manager (gs ! j) caching (i + 1 + int j) dcp pcp) [0..<length gs], p)"
    using Cons by simp
  ultimately show ?case using g by simp
qed simp

lemma init_manager_plain:
  assumes "plain_spec caching (dcp * pcp) spec" "0 < dcp" "0 < pcp"
  shows "plain_manager (SingleTypeKVCacheManager spec caching i dcp pcp)"
    and "m_block_size (SingleTypeKVCacheManager spec caching i dcp pcp) = spec_block_size spec * (dcp * pcp)"
proof -
  have "1 \<le> dcp * pcp" using assms(2,3) by (simp add: int_one_le_iff_zero_less)
  then have one: "\<not> 1 < dcp * pcp \<Longrightarrow> dcp * pcp = 1" by linarith
  show "m_block_size (SingleTypeKVCacheManager spec caching i dcp pcp) = spec_block_size spec * (dcp * pcp)"
    using one by (simp add: SingleTypeKVCacheManager_def)
  show "plain_manager (SingleTypeKVCacheManager spec caching i dcp pcp)"
    using assms(1) by (auto simp: plain_manager_def plain_spec_def SingleTypeKVCacheManager_def split: kv_cache_spec.splits)
qed

lemma mgr_wf_init:
  assumes "m_block_size (SingleTypeKVCacheManager spec caching i dcp pcp) > 0" "enable_caching p = caching"
  shows "mgr_wf p (SingleTypeKVCacheManager spec caching i dcp pcp)"
  using assms by (simp add: mgr_wf_def SingleTypeKVCacheManager_def block_list_ok_def tail_ok_def dict_get_def)

lemma unitary_block_size_eq:
  assumes "0 < dcp" "0 < pcp"
  shows "unitary_block_size spec dcp pcp = spec_block_size spec * (dcp * pcp)"
proof -
  have "\<not> 1 < dcp \<Longrightarrow> dcp = 1" "\<not> 1 < pcp \<Longrightarrow> pcp = 1" using assms by linarith+
  then show ?thesis by (auto simp: unitary_block_size_def Let_def)
qed

text \<open>The hash granularity divides every block size: the constructors check it.\<close>

lemma coordinator_inv:
  assumes pc: "plain_config groups caching dcp pcp hbs" 
    and co: "get_kv_cache_coordinator groups n eagle caching events dcp pcp hbs ih = Inr c"
  shows "ms_inv (co_pool c) [1..<nat n] (co_managers c)" and "co_groups c = groups"
    and "enable_caching (co_pool c) = caching" and "hash_block_size (co_pool c) = hbs"
    and "co_managers c = map (\<lambda>j. init_manager (groups ! j) caching (int j) dcp pcp) [0..<length groups]"
    and "caching \<Longrightarrow> g \<in> set groups \<Longrightarrow> hbs dvd spec_block_size (snd g) * (dcp * pcp)"
proof -
  have D: "0 < dcp" "0 < pcp" "\<forall>g\<in>set groups. plain_spec caching (dcp * pcp) (snd g)"
    using pc by (simp_all add: plain_config_def)
  have "n > 0" using co
    by (auto simp: get_kv_cache_coordinator_def UnitaryKVCacheCoordinator_def HybridKVCacheCoordinator_def
        KVCacheCoordinator_def BlockPool_def py_assert_def and_then_eq_Inr split: if_splits)
  then obtain p where p: "BlockPool n caching hbs events ih = Inr p" "pool_inv p [1..<nat n]" "enable_caching p = caching"
    "hash_block_size p = hbs" "\<And>i. ref p i = 0" "\<And>i. hash_of p i = None" by (rule BlockPool_inv) blast
  let ?ms = "map (\<lambda>j. init_manager (groups ! j) caching (int j) dcp pcp) [0..<length groups]"
  note mk = make_managers_plain [OF D(3), of 0 dcp pcp p]
  have c: "co_pool c = p \<and> co_managers c = ?ms \<and> co_groups c = groups"
    using co p(1) mk
    by (auto simp: get_kv_cache_coordinator_def UnitaryKVCacheCoordinator_def HybridKVCacheCoordinator_def
        KVCacheCoordinator_def verify_and_split_kv_cache_groups_def py_assert_def and_then_eq_Inr Let_def split: if_splits)
  then show "co_groups c = groups" "enable_caching (co_pool c) = caching" "hash_block_size (co_pool c) = hbs"
    "co_managers c = ?ms" using p by simp_all
  have h0: "held m i = 0" if "m \<in> set ?ms" for m i
    using that by (auto simp: SingleTypeKVCacheManager_def held_def)
  have r0: "refs_of ms i = 0" if "\<forall>m\<in>set ms. held m i = 0" for ms i
    using that by (induction ms) simp_all
  have "refs_of ?ms i = 0" for i by (rule r0) (use h0 in blast)
  moreover have "mgr_wf p m" if mem: "m \<in> set ?ms" for m
  proof -
    obtain j where j: "m = init_manager (groups ! j) caching (int j) dcp pcp" "j < length groups" using mem by auto
    then have "plain_spec caching (dcp * pcp) (snd (groups ! j))" using D(3) by simp
    then have "0 < m_block_size m" using j D init_manager_plain(2) by (simp add: plain_spec_def)
    then show ?thesis using j(1) p(3) mgr_wf_init by blast
  qed
  ultimately show "ms_inv (co_pool c) [1..<nat n] (co_managers c)"
    using c p by (simp add: ms_inv_def uncached_plain_def)
  assume ca: caching and g: "g \<in> set groups"
  show "hbs dvd spec_block_size (snd g) * (dcp * pcp)"
  proof (cases "length groups = 1")
    case True
    then have "groups ! 0 = g" using g by (auto simp: in_set_conv_nth)
    then have "hbs = unitary_block_size (snd g) dcp pcp" using co ca True g
      by (auto simp: get_kv_cache_coordinator_def UnitaryKVCacheCoordinator_def py_assert_def py_index_def
          and_then_eq_Inr split: if_splits)
    then show ?thesis using unitary_block_size_eq D by simp
  next
    case False
    then have "spec_block_size (snd g) mod hbs = 0" using co ca g
      by (auto simp: get_kv_cache_coordinator_def HybridKVCacheCoordinator_def py_assert_def
          and_then_eq_Inr split: if_splits)
    then show ?thesis by (metis dvd_mult2 mod_0_imp_dvd)
  qed
qed

lemma kv_init_inv:
  assumes pc: "plain_config groups caching dcp pcp hbs"
    and k: "KVCacheManager groups n maxlen hbs caching eagle log_stats events dcp pcp ih = Inr k"
  shows "kv_inv k [1..<nat n]"
proof -
  obtain c where c: "get_kv_cache_coordinator groups n eagle caching events dcp pcp hbs ih = Inr c"
    "kv_coordinator k = c" "kv_enable_caching k = caching"
    using k by (auto simp: KVCacheManager_def and_then_eq_Inr)
  note C = coordinator_inv [OF pc c(1)]
  have D: "0 < dcp" "0 < pcp" "0 < hbs" "int (length groups) < 2 ^ 32"
    "\<forall>g\<in>set groups. plain_spec caching (dcp * pcp) (snd g)"
    using pc by (simp_all add: plain_config_def)
  have "plain_manager m \<and> group_id_ok (m_group_id m) \<and> (enable_caching (co_pool c) \<longrightarrow> hash_block_size (co_pool c) dvd m_block_size m)"
    if mem: "m \<in> set (co_managers c)" for m
  proof -
    obtain j where j: "m = init_manager (groups ! j) caching (int j) dcp pcp" "j < length groups" using mem C(5) by auto
    then have ps: "plain_spec caching (dcp * pcp) (snd (groups ! j))" using D(5) by simp
    have "group_id_ok (m_group_id m)" using j D(4) by (simp add: SingleTypeKVCacheManager_def group_id_ok_def)
    moreover have "enable_caching (co_pool c) \<longrightarrow> hash_block_size (co_pool c) dvd m_block_size m"
      unfolding j(1) init_manager_plain(2) [OF ps D(1,2)] C(3,4) using C(6) [of "groups ! j"] j(2) by simp
    ultimately show ?thesis using init_manager_plain(1) [OF ps D(1,2)] j by simp
  qed
  then show ?thesis using C(1-5) c(2,3) D(3) by (simp add: kv_inv_def Let_def)
qed

section \<open>The operations keep the invariant\<close>

lemma kv_inv_stats [simp]: "kv_inv (k\<lparr>prefix_stats := s\<rparr>) xs = kv_inv k xs"
  by (simp add: kv_inv_def)

lemma kv_inv_same [simp]: "kv_inv (k\<lparr>kv_coordinator := kv_coordinator k\<rparr>) xs = kv_inv k xs"
  by simp

lemma kv_free_spec:
  assumes inv: "kv_inv k xs"
  shows "\<exists>ms' p' xs'. kv_free r k = Inr (k\<lparr>kv_coordinator := (kv_coordinator k)\<lparr>co_managers := ms', co_pool := p'\<rparr>\<rparr>) \<and>
    kv_inv (k\<lparr>kv_coordinator := (kv_coordinator k)\<lparr>co_managers := ms', co_pool := p'\<rparr>\<rparr>) xs' \<and>
    same_config (kv_pool k) p' \<and> length ms' = length (kv_managers k) \<and>
    (\<forall>j<length ms'. freed (request_id r) (kv_managers k ! j) (ms' ! j))"
proof -
  note K = kv_invD [OF inv]
  have "sum_from (\<lambda>j m. 0) 0 (kv_managers k) \<le> int (length xs)" by (simp add: sum_from_eq)
  moreover have "all_from (\<lambda>j m. True) 0 (kv_managers k)" by (simp add: all_from_iff)
  ultimately obtain as ms' p' xs' where r:
    "each_manager (\<lambda>i m p. and_then (free (request_id r) m p) (\<lambda>(m', p'). Inr ((), m', p'))) 0 (kv_managers k) (kv_pool k) =
      Inr (as, ms', p')" "ms_inv p' xs' ms'" "same_config (kv_pool k) p'" "length ms' = length (kv_managers k)"
    "\<forall>j<length (kv_managers k). freed (request_id r) (kv_managers k ! j) (ms' ! j)"
    using free_loop.loop [OF K(1), where rid = "request_id r" and i = 0] by blast
  have "kv_inv (k\<lparr>kv_coordinator := (kv_coordinator k)\<lparr>co_managers := ms', co_pool := p'\<rparr>\<rparr>) xs'"
    by (rule kv_inv_step [OF inv r(2,3,4)]) (use r(4,5) in \<open>auto simp: freed_def\<close>)
  moreover have "kv_free r k = Inr (k\<lparr>kv_coordinator := (kv_coordinator k)\<lparr>co_managers := ms', co_pool := p'\<rparr>\<rparr>)"
    using r(1) by (simp add: kv_free_def coord_free_def on_managers_def)
  moreover have "\<forall>j<length ms'. freed (request_id r) (kv_managers k ! j) (ms' ! j)" using r(4,5) by simp
  ultimately show ?thesis using r(3,4) by blast
qed

lemma kv_skip_inv:
  assumes inv: "kv_inv k xs"
  shows "\<exists>k' xs'. kv_remove_skipped_blocks rid t k = Inr k' \<and> kv_inv k' xs'"
proof -
  note K = kv_invD [OF inv]
  from coord_skip [OF K(1) refl refl K(5), of rid t] obtain ms' p' xs' where 1:
    "coord_remove_skipped_blocks rid t (kv_coordinator k) = Inr ((kv_coordinator k)\<lparr>co_managers := ms', co_pool := p'\<rparr>)"
    "ms_inv p' xs' ms'" "same_config (kv_pool k) p'" "length ms' = length (kv_managers k)"
    "\<forall>j<length (kv_managers k). skipped rid (kv_managers k ! j) (ms' ! j)" by blast
  have "kv_inv (k\<lparr>kv_coordinator := (kv_coordinator k)\<lparr>co_managers := ms', co_pool := p'\<rparr>\<rparr>) xs'"
    by (rule kv_inv_step [OF inv 1(2,3,4)]) (use 1(4,5) skipped_keeps in auto)
  then show ?thesis using 1(1) by (auto simp: kv_remove_skipped_blocks_def)
qed

text \<open>Hashes may disappear and bookkeeping lists may change without touching the references.\<close>

lemma ms_inv_unhash:
  assumes "ms_inv p xs ms" "pool_inv p' xs" "same_config p p'" "\<forall>j. ref p' j = ref p j"
    and "\<forall>j. hash_of p' j = None \<or> hash_of p' j = hash_of p j"
  shows "ms_inv p' xs ms"
proof -
  have "tail_ok p' c bs" if "tail_ok p c bs" for c bs
    using that assms(4,5) unfolding tail_ok_def by metis
  then show ?thesis using assms
    unfolding ms_inv_def mgr_wf_def block_list_ok_def uncached_plain_def same_config_def by auto
qed

lemma ms_inv_map:
  assumes "ms_inv p xs ms" and "\<forall>m\<in>set ms. mgr_wf p (g m) \<and> (\<forall>i. held (g m) i = held m i)"
  shows "ms_inv p xs (map g ms)"
proof -
  have "refs_of (map g ms) i = refs_of ms i" for i
    using assms(2) by (induction ms) simp_all
  then show ?thesis using assms by (auto simp: ms_inv_def)
qed

lemma kv_inv_pool:
  assumes inv: "kv_inv k xs" and "pool_inv p' xs" "same_config (kv_pool k) p'" "\<forall>j. ref p' j = ref (kv_pool k) j"
    and "\<forall>j. hash_of p' j = None \<or> hash_of p' j = hash_of (kv_pool k) j"
  shows "kv_inv (k\<lparr>kv_coordinator := (kv_coordinator k)\<lparr>co_pool := p'\<rparr>\<rparr>) xs"
proof -
  have "ms_inv p' xs (kv_managers k)" using ms_inv_unhash [OF kv_invD(1) [OF inv]] assms by blast
  from kv_inv_step [OF inv this assms(3)] show ?thesis by simp
qed

lemma kv_inv_map:
  assumes inv: "kv_inv k xs" and g: "\<forall>m. mgr_wf (kv_pool k) m \<longrightarrow> mgr_wf (kv_pool k) (g m) \<and> (\<forall>i. held (g m) i = held m i) \<and>
      m_spec (g m) = m_spec m \<and> m_block_size (g m) = m_block_size m \<and> m_group_id (g m) = m_group_id m"
  shows "kv_inv (k\<lparr>kv_coordinator := (kv_coordinator k)\<lparr>co_managers := map g (kv_managers k)\<rparr>\<rparr>) xs"
proof -
  note K = kv_invD [OF inv]
  have "ms_inv (kv_pool k) xs (map g (kv_managers k))" by (rule ms_inv_map [OF K(1)]) (use K(9) g in blast)
  from kv_inv_step [OF inv this] show ?thesis using K(9) g by simp
qed

lemma mgr_wf_fields [simp]:
  "mgr_wf p (m\<lparr>new_block_ids := x\<rparr>) = mgr_wf p m" "held (m\<lparr>new_block_ids := x\<rparr>) = held m"
  "mgr_wf p (m\<lparr>cached_blocks_this_step := y\<rparr>) = mgr_wf p m" "held (m\<lparr>cached_blocks_this_step := y\<rparr>) = held m"
  by (auto simp: mgr_wf_def held_def fun_eq_iff)

lemma mgr_wf_default_entry: "mgr_wf p m \<Longrightarrow> mgr_wf p (default_entry rid m)"
  by (auto simp: mgr_wf_def)

lemma coord_count_state:
  assumes pm: "\<forall>m\<in>set (co_managers c). plain_manager m"
    and r: "coord_get_num_blocks_to_allocate rid s css enc tot main c = Inr (n, c')"
  shows "c' = c"
proof -
  have one: "m' = m" if "get_num_blocks_to_allocate p m rid s bs tot main = Inr (n, m')" "plain_manager m" for p m s bs tot main n m'
    using that by (auto simp: get_num_blocks_to_allocate_def is_mamba_def plain_manager_def mamba_get_num_blocks_to_allocate_def
        mamba_cache_mode_def Let_def and_then_eq_Inr split: kv_cache_spec.splits if_splits)
  have "ms' = ms \<and> p' = p" if "each_manager f i ms p = Inr (as, ms', p')"
      "\<And>i m p a m' p'. m \<in> set ms \<Longrightarrow> f i m p = Inr (a, m', p') \<Longrightarrow> m' = m \<and> p' = p" for f i ms p and as :: "int list" and ms' p'
    using that
  proof (induction ms arbitrary: i p as ms' p')
    case (Cons m ms)
    from Cons.prems(1) obtain a m' p1 as2 ms2 where 1: "f i m p = Inr (a, m', p1)" "each_manager f (Suc i) ms p1 = Inr (as2, ms2, p')"
      "ms' = m' # ms2" by (auto simp: and_then_eq_Inr)
    have "m' = m \<and> p1 = p" using Cons.prems(2) [OF _ 1(1)] by simp
    moreover have "ms2 = ms \<and> p' = p1" by (rule Cons.IH [OF 1(2)], rule Cons.prems(2)) auto
    ultimately show ?case using 1(3) by simp
  qed simp
  note each = this
  let ?f = "\<lambda>i m p. if is_cross m
       then and_then (get_num_blocks_to_allocate p m rid enc [] 0 enc) (\<lambda>(n, m'). Inr (n, m', p))
       else and_then (py_index css (int i)) (\<lambda>bs.
            and_then (get_num_blocks_to_allocate p m rid s bs tot main) (\<lambda>(n, m'). Inr (n, m', p)))"
  from r obtain as ms' p' where e: "each_manager ?f 0 (co_managers c) (co_pool c) = Inr (as, ms', p')"
    "c' = c\<lparr>co_managers := ms', co_pool := p'\<rparr>"
    by (auto simp: coord_get_num_blocks_to_allocate_def on_managers_def and_then_eq_Inr)
  have "ms' = co_managers c \<and> p' = co_pool c"
    by (rule each [OF e(1)]) (use pm one in \<open>auto simp: and_then_eq_Inr split: if_splits\<close>)
  then show ?thesis using e(2) by simp
qed

section \<open>Reachable states\<close>

text \<open>
  The calls the scheduler makes, in any order and for any requests. A call with a precondition states
  it: slots are allocated under \<open>slots_duty\<close>, an explicit caching call needs the blocks and hashes of
  the tokens it names, and evicted identifiers are identifiers of blocks.
\<close>

inductive kv_reach :: "hash_env \<Rightarrow> kv_manager \<Rightarrow> bool" for env where
  kv_init: "plain_config groups caching dcp pcp hbs \<Longrightarrow>
    KVCacheManager groups n maxlen hbs caching eagle log_stats events dcp pcp ih = Inr k \<Longrightarrow> kv_reach env k"
| kv_lookup: "kv_reach env k \<Longrightarrow> get_computed_blocks r k = Inr (res, k') \<Longrightarrow> kv_reach env k'"
| kv_fits: "kv_reach env k \<Longrightarrow> can_fit_full_sequence r ncomp cb ne enc k = Inr (res, k') \<Longrightarrow> kv_reach env k'"
| kv_alloc: "kv_reach env k \<Longrightarrow> slots_duty env r nnew ncomp cb look ne delay k \<Longrightarrow>
    allocate_slots env r nnew ncomp cb look ne delay enc k = Inr (res, k', r') \<Longrightarrow> kv_reach env k'"
| kv_release: "kv_reach env k \<Longrightarrow> kv_free r k = Inr k' \<Longrightarrow> kv_reach env k'"
| kv_skip: "kv_reach env k \<Longrightarrow> kv_remove_skipped_blocks rid t k = Inr k' \<Longrightarrow> kv_reach env k'"
| kv_evict: "kv_reach env k \<Longrightarrow> \<forall>j\<in>set js. j < pool_size (kv_pool k) \<Longrightarrow>
    kv_evict_blocks (map int js) k = Inr k' \<Longrightarrow> kv_reach env k'"
| kv_reset: "kv_reach env k \<Longrightarrow> kv_reset_prefix_cache k = Inr (res, k') \<Longrightarrow> kv_reach env k'"
| kv_common: "kv_reach env k \<Longrightarrow> kv_get_num_common_prefix_blocks rid k = (ns, k') \<Longrightarrow> kv_reach env k'"
| kv_events: "kv_reach env k \<Longrightarrow> kv_take_events k = (es, k') \<Longrightarrow> kv_reach env k'"
| kv_cache: "kv_reach env k \<Longrightarrow> \<forall>m\<in>set (kv_managers k). cache_ready env r t (kv_pool k) m \<Longrightarrow>
    kv_cache_blocks_op env r t k = Inr (k', r') \<Longrightarrow> kv_reach env k'"
| kv_new_ids: "kv_reach env k \<Longrightarrow> kv_take_new_block_ids k = (ids, k') \<Longrightarrow> kv_reach env k'"
| kv_stats: "kv_reach env k \<Longrightarrow> make_prefix_cache_stats k = (st, k') \<Longrightarrow> kv_reach env k'"
| kv_step: "kv_reach env k \<Longrightarrow> kv_reach env (kv_new_step_starts k)"

lemma kv_lookup_coordinator:
  "get_computed_blocks r k = Inr (res, k') \<Longrightarrow> \<exists>s. k' = k\<lparr>prefix_stats := s\<rparr>"
  by (auto simp: get_computed_blocks_def Let_def and_then_eq_Inr split: if_splits)
     (metis kv_manager.surjective kv_manager.update_convs(5))+

lemma kv_evict_inv:
  assumes inv: "kv_inv k xs" and js: "\<forall>j\<in>set js. j < pool_size (kv_pool k)"
    and k': "kv_evict_blocks (map int js) k = Inr k'"
  shows "kv_inv k' xs"
proof -
  obtain p' where p': "evict_blocks (map int js) (kv_pool k) = Inr p'" "pool_inv p' xs" "same_config (kv_pool k) p'"
    "\<forall>j. ref p' j = ref (kv_pool k) j" "\<forall>j. hash_of p' j = (if j \<in> set js then None else hash_of (kv_pool k) j)"
    using evict_blocks_spec [OF kv_invD(8) [OF inv] js] by blast
  have "kv_inv (k\<lparr>kv_coordinator := (kv_coordinator k)\<lparr>co_pool := p'\<rparr>\<rparr>) xs"
    by (rule kv_inv_pool [OF inv p'(2,3,4)]) (use p'(5) in simp)
  then show ?thesis using k' p'(1) by (simp add: kv_evict_blocks_def)
qed

lemma kv_reset_inv:
  assumes inv: "kv_inv k xs" and k': "kv_reset_prefix_cache k = Inr (res, k')"
  shows "kv_inv k' xs"
proof -
  obtain ok p' where r: "reset_prefix_cache (kv_pool k) = (ok, p')" by force
  note R = reset_prefix_cache_spec [OF kv_invD(8) [OF inv] r]
  have "kv_inv (k\<lparr>kv_coordinator := (kv_coordinator k)\<lparr>co_pool := p'\<rparr>\<rparr>) xs"
    by (rule kv_inv_pool [OF inv R(2,3)]) (use R(4,5) in auto)
  then show ?thesis using k' r
    by (auto simp: kv_reset_prefix_cache_def Let_def and_then_eq_Inr split: if_splits)
qed

lemma kv_common_inv:
  assumes inv: "kv_inv k xs" and k': "kv_get_num_common_prefix_blocks rid k = (ns, k')"
  shows "kv_inv k' xs"
proof -
  let ?g = "\<lambda>m. snd (get_num_common_prefix_blocks (kv_pool k) m rid)"
  have g: "?g m = m \<or> ?g m = default_entry rid m" for m
    by (auto simp: get_num_common_prefix_blocks_def Let_def split: kv_cache_spec.splits)
  have "kv_inv (k\<lparr>kv_coordinator := (kv_coordinator k)\<lparr>co_managers := map ?g (kv_managers k)\<rparr>\<rparr>) xs"
  proof (rule kv_inv_map [OF inv], intro allI impI)
    fix m assume wf: "mgr_wf (kv_pool k) m"
    from g [of m] show "mgr_wf (kv_pool k) (?g m) \<and> (\<forall>i. held (?g m) i = held m i) \<and> m_spec (?g m) = m_spec m \<and>
        m_block_size (?g m) = m_block_size m \<and> m_group_id (?g m) = m_group_id m"
      using wf mgr_wf_default_entry [OF wf] by (elim disjE) auto
  qed
  then show ?thesis using inv k'
    by (auto simp: kv_get_num_common_prefix_blocks_def coord_get_num_common_prefix_blocks_def Let_def comp_def split: if_splits)
qed

lemma kv_cache_op_inv:
  assumes inv: "kv_inv k xs" and rd: "\<forall>m\<in>set (kv_managers k). cache_ready env r t (kv_pool k) m"
    and k': "kv_cache_blocks_op env r t k = Inr (k', r')"
  shows "kv_inv k' xs"
proof (cases "kv_enable_caching k")
  case True
  note K = kv_invD [OF inv]
  have ca: "enable_caching (kv_pool k)" using True K(4) by simp
  from coord_cache [OF K(1) refl refl ca rd] obtain ms' p' memo where r:
    "coord_cache_blocks env r t (kv_coordinator k) =
      Inr ((kv_coordinator k)\<lparr>co_managers := ms', co_pool := p'\<rparr>, r\<lparr>prompt_embeds_per_block_hashes := memo\<rparr>)"
    "ms_inv p' xs ms'" "same_config (kv_pool k) p'" "length ms' = length (kv_managers k)"
    "\<forall>j<length (kv_managers k). cached_to r t (kv_managers k ! j) (ms' ! j)" by blast
  have "kv_inv (k\<lparr>kv_coordinator := (kv_coordinator k)\<lparr>co_managers := ms', co_pool := p'\<rparr>\<rparr>) xs"
    by (rule kv_inv_step [OF inv r(2,3,4)]) (use cached_to_keeps r(4,5) in auto)
  then show ?thesis using k' r(1) True by (simp add: kv_cache_blocks_op_def)
qed (use k' inv in \<open>simp add: kv_cache_blocks_op_def\<close>)

lemma kv_reach_inv: "kv_reach env k \<Longrightarrow> \<exists>xs. kv_inv k xs"
proof (induction rule: kv_reach.induct)
  case (kv_init groups caching dcp pcp hbs n maxlen eagle log_stats events ih k)
  then show ?case using kv_init_inv by blast
next
  case (kv_lookup k r res k')
  then show ?case using kv_lookup_coordinator by fastforce
next
  case (kv_fits k r ncomp cb ne enc res k')
  then obtain xs where inv: "kv_inv k xs" by blast
  from kv_fits.hyps(2) obtain n c where "coord_get_num_blocks_to_allocate (request_id r) (min (num_tokens r) (kv_max_model_len k))
      (kv_blocks (num_kv_cache_groups k) cb) enc (min (num_computed_tokens r + ncomp + ne) (kv_max_model_len k))
      (min (num_tokens r) (kv_max_model_len k)) (kv_coordinator k) = Inr (n, c)" "k' = k\<lparr>kv_coordinator := c\<rparr>"
    by (auto simp: can_fit_full_sequence_def Let_def and_then_eq_Inr)
  then show ?case using coord_count_state [OF kv_invD(5) [OF inv]] inv by fastforce
next
  case (kv_alloc k r nnew ncomp cb look ne delay enc res k' r')
  then obtain xs where "kv_inv k xs" by blast
  then obtain res2 k2 r2 xs' where "allocate_slots env r nnew ncomp cb look ne delay enc k = Inr (res2, k2, r2)" "kv_inv k2 xs'"
    using allocate_slots_spec [OF _ kv_alloc.hyps(2) refl, of xs enc] by blast
  then show ?case using kv_alloc.hyps(3) by auto
next
  case (kv_release k r k')
  then obtain xs where "kv_inv k xs" by blast
  from kv_free_spec [OF this, of r] show ?case using kv_release.hyps(2) by (elim exE conjE) auto
next
  case (kv_skip k rid t k')
  then obtain xs where "kv_inv k xs" by blast
  from kv_skip_inv [OF this, of rid t] show ?case using kv_skip.hyps(2) by auto
next
  case (kv_events k es k')
  then obtain xs where inv: "kv_inv k xs" by blast
  obtain q where q: "snd (take_events (kv_pool k)) = (kv_pool k)\<lparr>kv_event_queue := q\<rparr>"
  proof (cases "enable_kv_cache_events (kv_pool k)")
    case True
    then show ?thesis by (intro that [of "[]"]) (simp add: take_events_def)
  next
    case False
    then show ?thesis by (intro that [of "kv_event_queue (kv_pool k)"]) (simp add: take_events_def)
  qed
  have "pool_inv ((kv_pool k)\<lparr>kv_event_queue := q\<rparr>) xs"
    using kv_invD(8) [OF inv] cache_ok_cong [of "(kv_pool k)\<lparr>kv_event_queue := q\<rparr>" "kv_pool k"]
    by (simp add: pool_inv_def blocks_ok_def)
  then have "kv_inv (k\<lparr>kv_coordinator := (kv_coordinator k)\<lparr>co_pool := (kv_pool k)\<lparr>kv_event_queue := q\<rparr>\<rparr>\<rparr>) xs"
    by (rule kv_inv_pool [OF inv]) (simp_all add: same_config_def)
  then show ?case using kv_events.hyps(2) q by (auto simp: kv_take_events_def split: prod.splits)
next
  case (kv_new_ids k ids k')
  then obtain xs where inv: "kv_inv k xs" by blast
  have "kv_inv (k\<lparr>kv_coordinator := (kv_coordinator k)\<lparr>co_managers := map (\<lambda>m. snd (take_new_block_ids m)) (kv_managers k)\<rparr>\<rparr>) xs"
    by (rule kv_inv_map [OF inv]) (simp add: take_new_block_ids_def)
  then show ?case using kv_new_ids.hyps(2) by (auto simp: kv_take_new_block_ids_def Let_def)
next
  case (kv_step k)
  then obtain xs where inv: "kv_inv k xs" by blast
  have "kv_inv (k\<lparr>kv_coordinator := (kv_coordinator k)\<lparr>co_managers := map new_step_starts (kv_managers k)\<rparr>\<rparr>) xs"
    by (rule kv_inv_map [OF inv]) (simp add: new_step_starts_def)
  then show ?case by (auto simp: kv_new_step_starts_def coord_new_step_starts_def)
next
  case (kv_stats k st k')
  then show ?case by (auto simp: make_prefix_cache_stats_def split: if_splits)
next
  case (kv_cache k r t k' r')
  then obtain xs where "kv_inv k xs" by blast
  from kv_cache_op_inv [OF this kv_cache.hyps(2,3)] show ?case by blast
qed (use kv_evict_inv kv_reset_inv kv_common_inv in blast)+

section \<open>Releasing every request\<close>

lemma freed_blocks: "freed rid m m' \<Longrightarrow> blocks_of m' rid' = (if rid' = rid then [] else blocks_of m rid')"
  by (simp add: freed_def dict_get_def delete_conv')

lemma free_all_spec:
  assumes "kv_inv k xs"
  shows "\<exists>k' xs'. fold_res kv_free rs k = Inr k' \<and> kv_inv k' xs' \<and> same_config (kv_pool k) (kv_pool k') \<and>
    length (kv_managers k') = length (kv_managers k) \<and>
    (\<forall>j<length (kv_managers k). \<forall>rid. blocks_of (kv_managers k' ! j) rid =
       (if rid \<in> request_id ` set rs then [] else blocks_of (kv_managers k ! j) rid))"
  using assms
proof (induction rs arbitrary: k xs)
  case Nil
  then show ?case by auto
next
  case (Cons r rs)
  from kv_free_spec [OF Cons.prems, of r] obtain k1 xs1 where 1: "kv_free r k = Inr k1" "kv_inv k1 xs1"
    "same_config (kv_pool k) (kv_pool k1)" "length (kv_managers k1) = length (kv_managers k)"
    "\<forall>j<length (kv_managers k1). freed (request_id r) (kv_managers k ! j) (kv_managers k1 ! j)" by force
  from Cons.IH [OF 1(2)] obtain k2 xs2 where 2: "fold_res kv_free rs k1 = Inr k2" "kv_inv k2 xs2"
    "same_config (kv_pool k1) (kv_pool k2)" "length (kv_managers k2) = length (kv_managers k1)"
    "\<forall>j<length (kv_managers k1). \<forall>rid. blocks_of (kv_managers k2 ! j) rid =
       (if rid \<in> request_id ` set rs then [] else blocks_of (kv_managers k1 ! j) rid)" by blast
  have "blocks_of (kv_managers k2 ! j) rid = (if rid \<in> request_id ` set (r # rs) then [] else blocks_of (kv_managers k ! j) rid)"
    if j: "j < length (kv_managers k)" for j rid
    using 2(5) 1(4) j freed_blocks [of "request_id r" "kv_managers k ! j" "kv_managers k1 ! j" rid] 1(5) by (cases "rid = request_id r") simp_all
  moreover have "same_config (kv_pool k) (kv_pool k2)" using 1(3) 2(3) same_config_trans by blast
  ultimately show ?case using 1(1,4) 2(1,2,4) by auto
qed

lemma sum_list_zero: "(\<And>x. x \<in> set xs \<Longrightarrow> f x = 0) \<Longrightarrow> sum_list (map f xs) = (0 :: int)"
  by (induction xs) simp_all

lemma held_zero:
  assumes "distinct (map fst (req_to_blocks m))" "\<forall>rid. blocks_of m rid = []"
  shows "held m i = 0"
proof -
  have "bs = []" if "(rid, bs) \<in> set (req_to_blocks m)" for rid bs
    using assms that by (auto simp: dict_get_def dest: map_of_is_SomeI split: option.splits)
  then have "\<forall>e\<in>set (req_to_blocks m). int (count_list (snd e) (Blk i)) = 0" by fastforce
  then show ?thesis unfolding held_def by (intro sum_list_zero) auto
qed

lemma all_free:
  assumes inv: "kv_inv k xs" and e: "\<forall>m\<in>set (kv_managers k). \<forall>rid. blocks_of m rid = []"
  shows "\<forall>i\<in>{0<..<pool_size (kv_pool k)}. ref (kv_pool k) i = 0"
    and "get_num_free_blocks (kv_pool k) = num_gpu_blocks (kv_pool k) - 1"
proof -
  note K = kv_invD [OF inv] and P = pool_invD [OF kv_invD(8) [OF inv]]
  have "held m i = 0" if "m \<in> set (kv_managers k)" for m i
    using held_zero K(9) e that by (simp add: mgr_wf_def)
  then have "refs_of (kv_managers k) i = 0" for i by (auto simp: refs_of_def intro!: sum_list_zero)
  then show z: "\<forall>i\<in>{0<..<pool_size (kv_pool k)}. ref (kv_pool k) i = 0" using K(1) by (simp add: ms_inv_def)
  then have "set xs = {0<..<pool_size (kv_pool k)}" using P(5,12) by auto
  then have "length xs = card {0<..<pool_size (kv_pool k)}" using P(4) distinct_card by metis
  then show "get_num_free_blocks (kv_pool k) = num_gpu_blocks (kv_pool k) - 1"
    using P(6,7) by (simp add: get_num_free_blocks_def)
qed

section \<open>Properties\<close>

definition small_group :: group_spec where
  "small_group = (\<lparr>num_kv_heads = 1, head_size = 1, spec_dtype = ''half'', page_size_padded = None, head_size_v = 1,
     full_sliding_window = None, full_attention_chunk_size = None, cache_dtype_str = None, mamba_shapes = [],
     mamba_dtypes = [], mamba_type = []\<rparr>, FullAttentionSpec 2)"

text \<open>A manager of five usable blocks of two tokens, and the state after a request got slots for five tokens.\<close>

definition small_kv :: kv_manager where
  "small_kv = (case KVCacheManager [small_group] 6 100 2 True False True False 1 1 False of Inr k \<Rightarrow> k | Inl _ \<Rightarrow> undefined)"

definition small_request :: request where
  "small_request = (base_request ''a'' [1, 2, 3, 4, 5])\<lparr>block_hashes := [[0], [1]]\<rparr>"

definition busy_kv :: kv_manager where
  "busy_kv = (case allocate_slots unary_env small_request 5 0 None 0 0 False 0 small_kv of Inr (_, k, _) \<Rightarrow> k | Inl _ \<Rightarrow> undefined)"

lemma small_config: "plain_config [small_group] True 1 1 2"
  by (simp add: plain_config_def plain_spec_def small_group_def)

lemma small_kv:
  shows "kv_reach unary_env small_kv" and "kv_inv small_kv [1..<6]"
    and "kv_pool small_kv = (case BlockPool 6 True 2 False False of Inr p \<Rightarrow> p | Inl _ \<Rightarrow> undefined)"
    and "kv_managers small_kv = [SingleTypeKVCacheManager (FullAttentionSpec 2) True 0 1 1]"
    and "kv_max_model_len small_kv = 100" "kv_enable_caching small_kv" "num_kv_cache_groups small_kv = 1"
    and "enable_kv_cache_events (kv_pool small_kv) = False" "hash_block_size (kv_pool small_kv) = 2"
proof -
  obtain p where p: "BlockPool 6 True 2 False False = Inr p" "enable_kv_cache_events p = False" "hash_block_size p = 2"
    by (rule BlockPool_inv [of 6 True 2 False False]) auto
  have mk: "make_managers 0 [small_group] True 1 1 p = Inr ([SingleTypeKVCacheManager (FullAttentionSpec 2) True 0 1 1], p)"
    by (simp add: get_manager_for_kv_cache_spec_def small_group_def Let_def)
  let ?k = "\<lparr>kv_coordinator = \<lparr>co_kind = Unitary, co_groups = [small_group], co_pool = p,
        co_managers = [SingleTypeKVCacheManager (FullAttentionSpec 2) True 0 1 1], co_use_eagle = False,
        co_enable_caching = True, co_dcp = 1, co_pcp = 1, co_hash_block_size = 2, attention_groups = [], lcm_block_size = 1\<rparr>,
      kv_max_model_len = 100, kv_enable_caching = True, kv_log_stats = True, prefix_stats = Some PrefixCacheStats\<rparr>"
  have "unitary_block_size (snd small_group) 1 1 = 2" by (simp add: unitary_block_size_def small_group_def)
  then have k': "KVCacheManager [small_group] 6 100 2 True False True False 1 1 False = Inr ?k"
    using p mk by (simp add: KVCacheManager_def get_kv_cache_coordinator_def UnitaryKVCacheCoordinator_def
        KVCacheCoordinator_def py_assert_def py_index_def)
  then have eq: "small_kv = ?k" by (simp add: small_kv_def)
  have k: "KVCacheManager [small_group] 6 100 2 True False True False 1 1 False = Inr small_kv" using k' eq by simp
  show "kv_reach unary_env small_kv" by (rule kv_reach.kv_init [OF small_config k])
  show "kv_inv small_kv [1..<6]" using kv_init_inv [OF small_config k] by simp
  show "kv_pool small_kv = (case BlockPool 6 True 2 False False of Inr p \<Rightarrow> p | Inl _ \<Rightarrow> undefined)"
    "kv_managers small_kv = [SingleTypeKVCacheManager (FullAttentionSpec 2) True 0 1 1]"
    "kv_max_model_len small_kv = 100" "kv_enable_caching small_kv" "num_kv_cache_groups small_kv = 1"
    "enable_kv_cache_events (kv_pool small_kv) = False" "hash_block_size (kv_pool small_kv) = 2"
    using p by (simp_all add: eq)
qed

lemma small_duty: "slots_duty unary_env small_request 5 0 None 0 0 False small_kv"
  using small_kv(4-9)
  by (simp add: slots_duty_def Let_def small_request_def base_request_def num_tokens_def SingleTypeKVCacheManager_def dict_get_def)

lemma busy_kv:
  shows "kv_reach unary_env busy_kv"
proof -
  obtain res k' r' where a: "allocate_slots unary_env small_request 5 0 None 0 0 False 0 small_kv = Inr (res, k', r')"
    using allocate_slots_spec [OF small_kv(2) small_duty refl, of 0] by blast
  then have "busy_kv = k'" by (simp add: busy_kv_def)
  then show ?thesis using kv_reach.kv_alloc [OF small_kv(1) small_duty a] by simp
qed







end
