(* ===== verification/Request_Queue.thy ===== *)
theory Request_Queue
  imports Request "HOL-Library.Multiset"
begin

text \<open>
  The waiting queues of the scheduler, \<^verbatim>\<open>vllm/v1/core/sched/request_queue.py\<close>: a first-come-first-served
  deque and a binary heap kept by \<^verbatim>\<open>heapq\<close>. The elements are generic, with the comparison \<open>lt\<close>
  (\<^verbatim>\<open>Request.__lt__\<close>) as an argument; the scheduler stores request ids and compares the requests they
  name. The locale \<open>request_queue\<close> states what every policy promises and is interpreted on both
  classes and on their dispatch.
\<close>

section \<open>First come, first served\<close>

definition fcfs_add :: "'a \<Rightarrow> 'a list \<Rightarrow> 'a list" where
  "fcfs_add r q = q @ [r]"

definition fcfs_pop :: "'a list \<Rightarrow> ('a \<times> 'a list) res" where
  "fcfs_pop q = (case q of [] \<Rightarrow> Inl IndexError | r # q' \<Rightarrow> Inr (r, q'))"

definition fcfs_peek :: "'a list \<Rightarrow> 'a res" where
  "fcfs_peek q = (case q of [] \<Rightarrow> Inl IndexError | r # _ \<Rightarrow> Inr r)"

definition fcfs_prepend :: "'a \<Rightarrow> 'a list \<Rightarrow> 'a list" where
  "fcfs_prepend r q = r # q"

text \<open>\<^verbatim>\<open>deque.extendleft\<close> pushes one element after the other to the front.\<close>

definition fcfs_prepend_requests :: "'a list \<Rightarrow> 'a list \<Rightarrow> 'a list" where
  "fcfs_prepend_requests rs q = fold fcfs_prepend rs q"

definition fcfs_remove :: "'a \<Rightarrow> 'a list \<Rightarrow> 'a list res" where
  "fcfs_remove r q = (if r \<in> set q then Inr (remove1 r q) else Inl ValueError)"

definition fcfs_remove_requests :: "'a list \<Rightarrow> 'a list \<Rightarrow> 'a list" where
  "fcfs_remove_requests rs q = filter (\<lambda>r. r \<notin> set rs) q"

section \<open>Binary heaps\<close>

definition swap :: "'a list \<Rightarrow> nat \<Rightarrow> nat \<Rightarrow> 'a list" where
  "swap h i j = h[i := h ! j, j := h ! i]"

definition par :: "nat \<Rightarrow> nat" where
  "par i = (i - 1) div 2"

lemma par_less: "0 < i \<Longrightarrow> par i < i"
  by (simp add: par_def)

lemma par_le: "par i \<le> i"
  by (simp add: par_def)

lemma par_child [simp]: "par (2 * i + 1) = i" "par (2 * i + 2) = i" "par (Suc (2 * i)) = i" "par (Suc (Suc (2 * i))) = i"
  by (simp_all add: par_def)

lemma par_eq: "0 < i \<Longrightarrow> par i = p \<longleftrightarrow> i = 2 * p + 1 \<or> i = 2 * p + 2"
  by (auto simp: par_def)

lemma par_bound: "0 < i \<Longrightarrow> 2 * par i < i"
  by (auto simp: par_def)

text \<open>Moves an element towards the root, down to index \<open>start\<close>, while it is smaller than its parent.\<close>

function siftdown :: "('a \<Rightarrow> 'a \<Rightarrow> bool) \<Rightarrow> nat \<Rightarrow> nat \<Rightarrow> 'a list \<Rightarrow> 'a list" where
  "siftdown lt start pos h =
     (if start < pos \<and> lt (h ! pos) (h ! par pos)
      then siftdown lt start (par pos) (swap h pos (par pos)) else h)"
  by pat_completeness auto
termination by (relation "measure (\<lambda>(_, _, pos, _). pos)") (auto intro: par_less)

declare siftdown.simps [simp del]

text \<open>The smaller child; the right one on a tie.\<close>

definition least_child :: "('a \<Rightarrow> 'a \<Rightarrow> bool) \<Rightarrow> nat \<Rightarrow> 'a list \<Rightarrow> nat" where
  "least_child lt pos h =
     (let c = 2 * pos + 1 in if c + 1 < length h \<and> \<not> lt (h ! c) (h ! (c + 1)) then c + 1 else c)"

lemma least_child_cases:
  assumes "2 * pos + 1 < length h"
  shows "least_child lt pos h < length h"
    and "least_child lt pos h = 2 * pos + 1 \<or> least_child lt pos h = 2 * pos + 2"
  using assms by (auto simp: least_child_def Let_def)

text \<open>Bubbles an element down to a leaf; returns where it ends.\<close>

function bubble :: "('a \<Rightarrow> 'a \<Rightarrow> bool) \<Rightarrow> nat \<Rightarrow> 'a list \<Rightarrow> nat \<times> 'a list" where
  "bubble lt pos h =
     (if 2 * pos + 1 < length h
      then bubble lt (least_child lt pos h) (swap h pos (least_child lt pos h)) else (pos, h))"
  by pat_completeness auto
termination
proof (relation "measure (\<lambda>(_, pos, h). length h - pos)")
  fix lt :: "'a \<Rightarrow> 'a \<Rightarrow> bool" and pos and h :: "'a list"
  assume a: "2 * pos + 1 < length h"
  from least_child_cases [OF a, of lt] show "((lt, least_child lt pos h, swap h pos (least_child lt pos h)), lt, pos, h)
    \<in> measure (\<lambda>(_, pos, h). length h - pos)" by (auto simp: swap_def)
qed simp

declare bubble.simps [simp del]

definition siftup :: "('a \<Rightarrow> 'a \<Rightarrow> bool) \<Rightarrow> nat \<Rightarrow> 'a list \<Rightarrow> 'a list" where
  "siftup lt pos h = (let (leaf, h') = bubble lt pos h in siftdown lt pos leaf h')"

definition heappush :: "('a \<Rightarrow> 'a \<Rightarrow> bool) \<Rightarrow> 'a \<Rightarrow> 'a list \<Rightarrow> 'a list" where
  "heappush lt x h = siftdown lt 0 (length h) (h @ [x])"

definition heappop :: "('a \<Rightarrow> 'a \<Rightarrow> bool) \<Rightarrow> 'a list \<Rightarrow> ('a \<times> 'a list) res" where
  "heappop lt h =
     (if h = [] then Inl IndexError
      else let lastelt = last h; rest = butlast h
           in if rest \<noteq> [] then Inr (rest ! 0, siftup lt 0 (rest[0 := lastelt])) else Inr (lastelt, rest))"

definition heapify :: "('a \<Rightarrow> 'a \<Rightarrow> bool) \<Rightarrow> 'a list \<Rightarrow> 'a list" where
  "heapify lt h = fold (siftup lt) (rev [0..<length h div 2]) h"

section \<open>The priority queue\<close>

definition prio_add :: "('a \<Rightarrow> 'a \<Rightarrow> bool) \<Rightarrow> 'a \<Rightarrow> 'a list \<Rightarrow> 'a list" where
  "prio_add lt r h = heappush lt r h"

definition prio_pop :: "('a \<Rightarrow> 'a \<Rightarrow> bool) \<Rightarrow> 'a list \<Rightarrow> ('a \<times> 'a list) res" where
  "prio_pop lt h = (if h = [] then Inl IndexError else heappop lt h)"

definition prio_peek :: "'a list \<Rightarrow> 'a res" where
  "prio_peek h = (if h = [] then Inl IndexError else Inr (h ! 0))"

definition prio_prepend_requests :: "('a \<Rightarrow> 'a \<Rightarrow> bool) \<Rightarrow> 'a list \<Rightarrow> 'a list \<Rightarrow> 'a list" where
  "prio_prepend_requests lt rs h = fold (prio_add lt) rs h"

definition prio_remove :: "('a \<Rightarrow> 'a \<Rightarrow> bool) \<Rightarrow> 'a \<Rightarrow> 'a list \<Rightarrow> 'a list res" where
  "prio_remove lt r h = (if r \<in> set h then Inr (heapify lt (remove1 r h)) else Inl ValueError)"

definition prio_remove_requests :: "('a \<Rightarrow> 'a \<Rightarrow> bool) \<Rightarrow> 'a list \<Rightarrow> 'a list \<Rightarrow> 'a list" where
  "prio_remove_requests lt rs h = heapify lt (filter (\<lambda>r. r \<notin> set rs) h)"

text \<open>Iteration pops from a copy until it is empty; each pop shortens the copy by one.\<close>

fun prio_iter :: "('a \<Rightarrow> 'a \<Rightarrow> bool) \<Rightarrow> nat \<Rightarrow> 'a list \<Rightarrow> 'a list" where
  "prio_iter lt 0 h = []"
| "prio_iter lt (Suc n) h = (case heappop lt h of Inl _ \<Rightarrow> [] | Inr (x, h') \<Rightarrow> x # prio_iter lt n h')"

definition prio_list :: "('a \<Rightarrow> 'a \<Rightarrow> bool) \<Rightarrow> 'a list \<Rightarrow> 'a list" where
  "prio_list lt h = prio_iter lt (length h) h"

section \<open>The two policies\<close>

datatype scheduling_policy = FCFS | PRIORITY

datatype 'a rqueue = FCFSRequestQueue "'a list" | PriorityRequestQueue "'a list"

definition create_request_queue :: "scheduling_policy \<Rightarrow> 'a rqueue" where
  "create_request_queue p = (case p of PRIORITY \<Rightarrow> PriorityRequestQueue [] | FCFS \<Rightarrow> FCFSRequestQueue [])"

definition rq_add :: "('a \<Rightarrow> 'a \<Rightarrow> bool) \<Rightarrow> 'a \<Rightarrow> 'a rqueue \<Rightarrow> 'a rqueue" where
  "rq_add lt r q = (case q of FCFSRequestQueue l \<Rightarrow> FCFSRequestQueue (fcfs_add r l)
     | PriorityRequestQueue h \<Rightarrow> PriorityRequestQueue (prio_add lt r h))"

definition rq_pop :: "('a \<Rightarrow> 'a \<Rightarrow> bool) \<Rightarrow> 'a rqueue \<Rightarrow> ('a \<times> 'a rqueue) res" where
  "rq_pop lt q = (case q of
       FCFSRequestQueue l \<Rightarrow> and_then (fcfs_pop l) (\<lambda>(r, l'). Inr (r, FCFSRequestQueue l'))
     | PriorityRequestQueue h \<Rightarrow> and_then (prio_pop lt h) (\<lambda>(r, h'). Inr (r, PriorityRequestQueue h')))"

definition rq_peek :: "'a rqueue \<Rightarrow> 'a res" where
  "rq_peek q = (case q of FCFSRequestQueue l \<Rightarrow> fcfs_peek l | PriorityRequestQueue h \<Rightarrow> prio_peek h)"

definition rq_prepend :: "('a \<Rightarrow> 'a \<Rightarrow> bool) \<Rightarrow> 'a \<Rightarrow> 'a rqueue \<Rightarrow> 'a rqueue" where
  "rq_prepend lt r q = (case q of FCFSRequestQueue l \<Rightarrow> FCFSRequestQueue (fcfs_prepend r l)
     | PriorityRequestQueue h \<Rightarrow> PriorityRequestQueue (prio_add lt r h))"

definition rq_list :: "('a \<Rightarrow> 'a \<Rightarrow> bool) \<Rightarrow> 'a rqueue \<Rightarrow> 'a list" where
  "rq_list lt q = (case q of FCFSRequestQueue l \<Rightarrow> l | PriorityRequestQueue h \<Rightarrow> prio_list lt h)"

definition rq_prepend_requests :: "('a \<Rightarrow> 'a \<Rightarrow> bool) \<Rightarrow> 'a list \<Rightarrow> 'a rqueue \<Rightarrow> 'a rqueue" where
  "rq_prepend_requests lt rs q = (case q of FCFSRequestQueue l \<Rightarrow> FCFSRequestQueue (fcfs_prepend_requests rs l)
     | PriorityRequestQueue h \<Rightarrow> PriorityRequestQueue (prio_prepend_requests lt rs h))"

definition rq_remove :: "('a \<Rightarrow> 'a \<Rightarrow> bool) \<Rightarrow> 'a \<Rightarrow> 'a rqueue \<Rightarrow> 'a rqueue res" where
  "rq_remove lt r q = (case q of FCFSRequestQueue l \<Rightarrow> and_then (fcfs_remove r l) (\<lambda>l'. Inr (FCFSRequestQueue l'))
     | PriorityRequestQueue h \<Rightarrow> and_then (prio_remove lt r h) (\<lambda>h'. Inr (PriorityRequestQueue h')))"

definition rq_remove_requests :: "('a \<Rightarrow> 'a \<Rightarrow> bool) \<Rightarrow> 'a list \<Rightarrow> 'a rqueue \<Rightarrow> 'a rqueue" where
  "rq_remove_requests lt rs q = (case q of FCFSRequestQueue l \<Rightarrow> FCFSRequestQueue (fcfs_remove_requests rs l)
     | PriorityRequestQueue h \<Rightarrow> PriorityRequestQueue (prio_remove_requests lt rs h))"

definition rq_len :: "'a rqueue \<Rightarrow> nat" where
  "rq_len q = (case q of FCFSRequestQueue l \<Rightarrow> length l | PriorityRequestQueue h \<Rightarrow> length h)"

section \<open>Heaps keep their elements\<close>

lemma length_swap [simp]: "length (swap h i j) = length h"
  by (simp add: swap_def)

lemma mset_swap_heap: "i < length h \<Longrightarrow> j < length h \<Longrightarrow> mset (swap h i j) = mset h"
  unfolding swap_def by (rule mset_swap)

lemma siftdown_mset: "pos < length h \<Longrightarrow> mset (siftdown lt start pos h) = mset h"
proof (induction lt start pos h rule: siftdown.induct)
  case (1 lt start pos h)
  then have "par pos < length h" using par_le [of pos] by linarith
  with 1 show ?case by (subst siftdown.simps) (auto simp: mset_swap_heap)
qed

lemma bubble_mset:
  "pos < length h \<Longrightarrow> mset (snd (bubble lt pos h)) = mset h \<and> fst (bubble lt pos h) < length h"
proof (induction lt pos h rule: bubble.induct)
  case (1 lt pos h)
  show ?case
  proof (cases "2 * pos + 1 < length h")
    case True
    note c = least_child_cases(1) [OF True, of lt]
    have "mset (swap h pos (least_child lt pos h)) = mset h" using 1(2) c by (rule mset_swap_heap)
    then show ?thesis using 1(1) [OF True] c True by (subst (1 2) bubble.simps) simp
  qed (use 1(2) in \<open>subst (1 2) bubble.simps, simp\<close>)
qed

lemma siftup_mset: "pos < length h \<Longrightarrow> mset (siftup lt pos h) = mset h"
proof -
  assume a: "pos < length h"
  obtain leaf h' where b: "bubble lt pos h = (leaf, h')" by fastforce
  then have "mset h' = mset h" "leaf < length h" using bubble_mset [OF a, of lt] by auto
  then have "leaf < length h'" using mset_eq_length by metis
  then show ?thesis using b \<open>mset h' = mset h\<close> by (simp add: siftup_def siftdown_mset)
qed

lemma heappush_mset: "mset (heappush lt x h) = add_mset x (mset h)"
  by (simp add: heappush_def siftdown_mset)

lemma heapify_loop_mset:
  "(\<And>i. i \<in> set is \<Longrightarrow> i < length g) \<Longrightarrow> mset (fold (siftup lt) is g) = mset g"
proof (induction "is" arbitrary: g)
  case (Cons i "is")
  have g: "mset (siftup lt i g) = mset g" using Cons.prems by (simp add: siftup_mset)
  then have "length (siftup lt i g) = length g" by (rule mset_eq_length)
  then show ?case using Cons g by simp
qed simp

lemma heapify_mset: "mset (heapify lt h) = mset h"
  unfolding heapify_def by (rule heapify_loop_mset) auto

section \<open>The heap order\<close>

text \<open>The edges of the heap array whose parent is at \<open>s\<close> or later are in order.\<close>

definition heap_from :: "('a \<Rightarrow> 'a \<Rightarrow> bool) \<Rightarrow> nat \<Rightarrow> 'a list \<Rightarrow> bool" where
  "heap_from lt s h \<longleftrightarrow> (\<forall>i<length h. 0 < i \<and> s \<le> par i \<longrightarrow> \<not> lt (h ! i) (h ! par i))"

text \<open>The same but for the edges at \<open>pos\<close>, whose children are in order with its parent.\<close>

definition hole :: "('a \<Rightarrow> 'a \<Rightarrow> bool) \<Rightarrow> nat \<Rightarrow> nat \<Rightarrow> 'a list \<Rightarrow> bool" where
  "hole lt s pos h \<longleftrightarrow>
     (\<forall>i<length h. 0 < i \<and> s \<le> par i \<and> i \<noteq> pos \<and> par i \<noteq> pos \<longrightarrow> \<not> lt (h ! i) (h ! par i)) \<and>
     (\<forall>i<length h. 0 < i \<and> par i = pos \<and> s < pos \<longrightarrow> \<not> lt (h ! i) (h ! par pos))"

function under :: "nat \<Rightarrow> nat \<Rightarrow> bool" where
  "under s pos = (if s < pos then under s (par pos) else pos = s)"
  by pat_completeness auto
termination by (relation "measure snd") (auto intro: par_less)

declare under.simps [simp del]

lemma under_le: "under s pos \<Longrightarrow> s \<le> pos"
  by (subst (asm) under.simps) (auto split: if_splits)

lemma under_par: "under s pos \<Longrightarrow> s < pos \<Longrightarrow> under s (par pos)"
  by (subst (asm) under.simps) auto

lemma under_child: "under s pos \<Longrightarrow> c = 2 * pos + 1 \<or> c = 2 * pos + 2 \<Longrightarrow> under s c"
  using under_le [of s pos] by (subst under.simps) auto

lemma nth_swap:
  "i < length h \<Longrightarrow> j < length h \<Longrightarrow> k < length h \<Longrightarrow>
   swap h i j ! k = (if k = i then h ! j else if k = j then h ! i else h ! k)"
  by (auto simp: swap_def nth_list_update)

lemma heap_from_bare: "length h \<le> 2 * s + 1 \<Longrightarrow> heap_from lt s h"
  by (auto simp: heap_from_def par_def)

text \<open>Comparisons by a key in a linear order, as \<^verbatim>\<open>Request.__lt__\<close> is.\<close>

locale key_order =
  fixes lt :: "'a \<Rightarrow> 'a \<Rightarrow> bool" and key :: "'a \<Rightarrow> 'k :: linorder"
  assumes lt_key: "lt a b \<longleftrightarrow> key a < key b"
begin

lemma siftdown_heap:
  assumes "hole lt s pos h" and "\<forall>i<length h. 0 < i \<and> par i = pos \<longrightarrow> \<not> lt (h ! i) (h ! pos)"
    and "under s pos" and "pos < length h"
  shows "heap_from lt s (siftdown lt s pos h)"
  using assms
proof (induction pos arbitrary: h rule: less_induct)
  case (less pos)
  note H = less.prems(1) [unfolded hole_def]
  show ?case
  proof (cases "s < pos \<and> lt (h ! pos) (h ! par pos)")
    case True
    let ?p = "par pos" and ?g = "swap h pos (par pos)"
    have p: "?p < pos" "?p < length h" "pos < length h" "under s ?p" "s \<le> ?p"
      using True less.prems under_par [of s pos] under_le [of s ?p] par_less [of pos] by auto
    have g: "?g ! k = (if k = pos then h ! ?p else if k = ?p then h ! pos else h ! k)" if "k < length h" for k
      using nth_swap [OF p(3,2) that] .
    have sib: "key (h ! ?p) \<le> key (h ! i)" if "i < length h" "0 < i" "par i = ?p" "i \<noteq> pos" for i
      using H p that True by (auto simp: lt_key not_less)
    have "hole lt s ?p ?g"
      unfolding hole_def
    proof (intro conjI allI impI; elim conjE)
      fix i
      assume i: "i < length ?g" "0 < i" "s \<le> par i" "i \<noteq> ?p" "par i \<noteq> ?p"
      then have "i \<noteq> pos" by auto
      show "\<not> lt (?g ! i) (?g ! par i)"
      proof (cases "par i = pos")
        case True
        then show ?thesis using H i p \<open>s < pos \<and> _\<close> \<open>i \<noteq> pos\<close> by (simp add: g)
      next
        case False
        have "par i < length h" using i par_le [of i] by simp
        then show ?thesis using H i False \<open>i \<noteq> pos\<close> by (simp add: g)
      qed
    next
      fix i
      assume i: "i < length ?g" "0 < i" "par i = ?p" "s < ?p"
      have pp: "par ?p < ?p" "s \<le> par ?p" "0 < ?p"
        using under_par [OF p(4)] under_le [of s "par ?p"] i(4) par_less [of ?p] by auto
      have "\<not> lt (h ! ?p) (h ! par ?p)" using H pp p by (metis less_irrefl nat_neq_iff order.strict_trans)
      then show "\<not> lt (?g ! i) (?g ! par ?p)"
        using sib [of i] i pp p by (auto simp: g lt_key not_less intro: order_trans)
    qed
    moreover have "\<forall>i<length ?g. 0 < i \<and> par i = ?p \<longrightarrow> \<not> lt (?g ! i) (?g ! ?p)"
      using sib True p by (auto simp: g lt_key not_less) (meson less_imp_le order_trans)
    ultimately have "heap_from lt s (siftdown lt s ?p ?g)"
      using less.IH [OF p(1)] p by simp
    then show ?thesis using True by (subst siftdown.simps) simp
  next
    case False
    have "heap_from lt s h"
      unfolding heap_from_def
    proof (intro allI impI; elim conjE)
      fix i
      assume i: "i < length h" "0 < i" "s \<le> par i"
      show "\<not> lt (h ! i) (h ! par i)"
      proof (cases "i = pos")
        case True
        then have "s < pos" using i par_less [of i] by linarith
        then show ?thesis using False True by simp
      next
        case no: False
        then show ?thesis using H less.prems(2) i by metis
      qed
    qed
    then show ?thesis using False by (subst siftdown.simps) auto
  qed
qed

lemma bubble_step:
  assumes H: "hole lt s pos h" and "under s pos" and l: "2 * pos + 1 < length h"
  shows "hole lt s (least_child lt pos h) (swap h pos (least_child lt pos h))"
proof -
  let ?c = "least_child lt pos h" and ?g = "swap h pos (least_child lt pos h)"
  have c: "?c < length h" "?c = 2 * pos + 1 \<or> ?c = 2 * pos + 2" "par ?c = pos" "pos < ?c" "pos < length h"
    using least_child_cases [OF l, of lt] l by auto
  have s: "s \<le> pos" using assms(2) by (rule under_le)
  have g: "?g ! k = (if k = pos then h ! ?c else if k = ?c then h ! pos else h ! k)" if "k < length h" for k
    using nth_swap [OF c(5,1) that] .
  have sib: "\<not> lt (h ! i) (h ! ?c)" if "i < length h" "0 < i" "par i = pos" for i
    using that by (auto simp: par_eq least_child_def Let_def lt_key not_less)
  show ?thesis
    unfolding hole_def
  proof (intro conjI allI impI; elim conjE)
    fix i
    assume i: "i < length ?g" "0 < i" "s \<le> par i" "i \<noteq> ?c" "par i \<noteq> ?c"
    have p: "par i < length h" "par i < i" using i par_less [of i] by simp_all
    consider "i = pos" | "i \<noteq> pos" "par i = pos" | "i \<noteq> pos" "par i \<noteq> pos" by blast
    then show "\<not> lt (?g ! i) (?g ! par i)"
    proof cases
      case 1
      then have "\<not> lt (h ! ?c) (h ! par pos)" using H c i p s unfolding hole_def by auto
      then show ?thesis using 1 i p c by (simp add: g)
    next
      case 2
      then show ?thesis using sib i c by (simp add: g)
    next
      case 3
      then show ?thesis using H i p unfolding hole_def by (simp add: g)
    qed
  next
    fix i
    assume i: "i < length ?g" "0 < i" "par i = ?c" "s < ?c"
    from i have "?c < i" using par_less [of i] by simp
    moreover have "\<not> lt (h ! i) (h ! par i)"
      using H i c(4) s calculation unfolding hole_def by (metis length_swap less_le_trans less_imp_le nat_neq_iff)
    ultimately show "\<not> lt (?g ! i) (?g ! par ?c)"
      using i c by (simp add: g)
  qed
qed

lemma bubble_hole:
  "hole lt s pos h \<Longrightarrow> under s pos \<Longrightarrow> pos < length h \<Longrightarrow> bubble lt pos h = (leaf, h') \<Longrightarrow>
   hole lt s leaf h' \<and> under s leaf \<and> leaf < length h' \<and> length h' \<le> 2 * leaf + 1"
proof (induction "length h - pos" arbitrary: pos h rule: less_induct)
  case less
  show ?case
  proof (cases "2 * pos + 1 < length h")
    case True
    note c = least_child_cases [OF True, of lt]
    have "hole lt s (least_child lt pos h) (swap h pos (least_child lt pos h))"
      using less.prems(1,2) True by (rule bubble_step)
    moreover have "under s (least_child lt pos h)" using less.prems(2) c(2) by (rule under_child)
    moreover have "bubble lt (least_child lt pos h) (swap h pos (least_child lt pos h)) = (leaf, h')"
      using less.prems(4) True by (subst (asm) bubble.simps) simp
    moreover have "length (swap h pos (least_child lt pos h)) - least_child lt pos h < length h - pos"
      using c True by auto
    ultimately show ?thesis using c(1) by (intro less.hyps [where h = "swap h pos (least_child lt pos h)"]) auto
  next
    case False
    then have "bubble lt pos h = (pos, h)" by (subst bubble.simps) simp
    then show ?thesis using less.prems False by auto
  qed
qed

lemma siftup_heap:
  assumes "heap_from lt (Suc s) h" and "s < length h"
  shows "heap_from lt s (siftup lt s h)"
proof -
  obtain leaf h' where b: "bubble lt s h = (leaf, h')" by fastforce
  have "hole lt s s h" using assms(1) by (auto simp: hole_def heap_from_def)
  moreover have "under s s" by (subst under.simps) simp
  ultimately have r: "hole lt s leaf h'" "under s leaf" "leaf < length h'" "length h' \<le> 2 * leaf + 1"
    using bubble_hole b assms(2) by blast+
  have "\<forall>i<length h'. 0 < i \<and> par i = leaf \<longrightarrow> \<not> lt (h' ! i) (h' ! leaf)"
    using r(4) by (auto dest: par_bound)
  then show ?thesis using siftdown_heap r b by (simp add: siftup_def)
qed

lemma heapify_loop:
  "k \<le> length g \<Longrightarrow> heap_from lt k g \<Longrightarrow> heap_from lt 0 (fold (siftup lt) (rev [0..<k]) g)"
proof (induction k arbitrary: g)
  case (Suc k)
  have "length (siftup lt k g) = length g" using Suc.prems by (intro mset_eq_length siftup_mset) simp
  then show ?case using Suc siftup_heap by simp
qed simp

lemma heapify_heap: "heap_from lt 0 (heapify lt h)"
  unfolding heapify_def by (rule heapify_loop) (simp, rule heap_from_bare, simp)

lemma heappush_heap:
  assumes "heap_from lt 0 h"
  shows "heap_from lt 0 (heappush lt x h)"
  unfolding heappush_def
proof (rule siftdown_heap)
  show "hole lt 0 (length h) (h @ [x])"
    unfolding hole_def
  proof (intro conjI allI impI; elim conjE)
    fix i
    assume "i < length (h @ [x])" "0 < i" "i \<noteq> length h"
    then show "\<not> lt ((h @ [x]) ! i) ((h @ [x]) ! par i)"
      using assms par_less [of i] by (auto simp: heap_from_def nth_append)
  next
    fix i
    assume "i < length (h @ [x])" "0 < i" "par i = length h"
    then show "\<not> lt ((h @ [x]) ! i) ((h @ [x]) ! par (length h))" using par_less [of i] by simp
  qed
  show "\<forall>i<length (h @ [x]). 0 < i \<and> par i = length h \<longrightarrow> \<not> lt ((h @ [x]) ! i) ((h @ [x]) ! length h)"
    by (auto dest: par_less)
  have "under 0 n" for n
  proof (induction n rule: less_induct)
    case (less n)
    then show ?case by (subst under.simps) (auto intro: par_less)
  qed
  then show "under 0 (length h)" .
qed simp

lemma heap_root_least: "heap_from lt 0 h \<Longrightarrow> i < length h \<Longrightarrow> key (h ! 0) \<le> key (h ! i)"
proof (induction i rule: less_induct)
  case (less i)
  show ?case
  proof (cases "i = 0")
    case False
    then have p: "par i < i" by (simp add: par_less)
    then have "key (h ! par i) \<le> key (h ! i)" using less.prems False by (auto simp: heap_from_def lt_key not_less)
    then show ?thesis using less.IH [OF p] less.prems p by simp
  qed simp
qed

lemma heappop_spec:
  assumes "heap_from lt 0 h" and "h \<noteq> []"
  shows "\<exists>x h'. heappop lt h = Inr (x, h') \<and> mset h = add_mset x (mset h') \<and> heap_from lt 0 h' \<and>
    (\<forall>y\<in>set h. key x \<le> key y)"
proof (cases "butlast h = []")
  case True
  then have "h = [last h]" using assms(2) append_butlast_last_id [of h] by simp
  then obtain x where "h = [x]" by blast
  then show ?thesis by (simp add: heappop_def heap_from_def)
next
  case False
  let ?b = "butlast h" and ?l = "last h"
  obtain y ys where b: "?b = y # ys" using False by (cases ?b) auto
  have h: "h = y # ys @ [?l]" using append_butlast_last_id [OF assms(2)] b by simp
  have hb: "i < length ?b \<Longrightarrow> ?b ! i = h ! i" for i by (simp add: nth_butlast)
  have "heap_from lt (Suc 0) (?b[0 := ?l])"
    unfolding heap_from_def
  proof (intro allI impI; elim conjE)
    fix i
    assume i: "i < length (?b[0 := ?l])" "0 < i" "Suc 0 \<le> par i"
    then have "par i < length ?b" using par_less [of i] by simp
    then show "\<not> lt (?b[0 := ?l] ! i) (?b[0 := ?l] ! par i)"
      using assms(1) i by (simp add: heap_from_def hb)
  qed
  then have "heap_from lt 0 (siftup lt 0 (?b[0 := ?l]))" using b by (intro siftup_heap) simp_all
  moreover have "mset (siftup lt 0 (?b[0 := ?l])) = add_mset ?l (mset ys)"
    using b by (simp add: siftup_mset)
  moreover have "mset h = add_mset y (add_mset ?l (mset ys))" by (subst h) simp
  moreover have "\<forall>z\<in>set h. key y \<le> key z"
    using heap_root_least [OF assms(1)] h by (metis in_set_conv_nth nth_Cons_0)
  ultimately show ?thesis using False b assms(2) by (simp add: heappop_def Let_def)
qed

lemma prio_list_Nil [simp]: "prio_list lt [] = []"
  by (simp add: prio_list_def)

lemma prio_list_pop:
  assumes "heap_from lt 0 h" and "heappop lt h = Inr (x, h')"
  shows "prio_list lt h = x # prio_list lt h'"
proof -
  have "h \<noteq> []" using assms(2) by (auto simp: heappop_def)
  then have "mset h = add_mset x (mset h')" using heappop_spec [OF assms(1)] assms(2) by auto
  then have "length h = Suc (length h')" by (metis size_add_mset size_mset)
  then show ?thesis using assms(2) by (simp add: prio_list_def)
qed

lemma prio_list_spec:
  "heap_from lt 0 h \<Longrightarrow> mset (prio_list lt h) = mset h \<and> sorted (map key (prio_list lt h))"
proof (induction "length h" arbitrary: h)
  case (Suc n)
  then have "h \<noteq> []" by auto
  then obtain x h' where p: "heappop lt h = Inr (x, h')" "mset h = add_mset x (mset h')" "heap_from lt 0 h'"
    "\<forall>y\<in>set h. key x \<le> key y" using heappop_spec [OF Suc.prems] by blast
  have l: "prio_list lt h = x # prio_list lt h'" using Suc.prems p(1) by (rule prio_list_pop)
  have "n = length h'" using p(2) Suc.hyps(2) by (metis add_diff_cancel_left' plus_1_eq_Suc size_add_mset size_mset)
  then have IH: "mset (prio_list lt h') = mset h'" "sorted (map key (prio_list lt h'))" using Suc.hyps(1) p(3) by auto
  have "set (prio_list lt h') \<subseteq> set h"
    using p(2) mset_eq_setD [OF IH(1)] by (metis set_mset_add_mset_insert set_mset_mset subset_insertI)
  then show ?case using IH p(2,4) l by auto
qed (simp add: prio_list_def)

end

section \<open>What every queue promises\<close>

text \<open>The invariant of a queue: a priority queue is a heap.\<close>

definition rq_ok :: "('a \<Rightarrow> 'a \<Rightarrow> bool) \<Rightarrow> 'a rqueue \<Rightarrow> bool" where
  "rq_ok lt q = (case q of FCFSRequestQueue _ \<Rightarrow> True | PriorityRequestQueue h \<Rightarrow> heap_from lt 0 h)"

locale request_queue =
  fixes ok :: "'q \<Rightarrow> bool" and view :: "'q \<Rightarrow> 'a list" and add prepend :: "'a \<Rightarrow> 'q \<Rightarrow> 'q" and pop :: "'q \<Rightarrow> ('a \<times> 'q) res"
    and peek :: "'q \<Rightarrow> 'a res" and prepends :: "'a list \<Rightarrow> 'q \<Rightarrow> 'q" and rem :: "'a \<Rightarrow> 'q \<Rightarrow> 'q res"
    and rems :: "'a list \<Rightarrow> 'q \<Rightarrow> 'q" and len :: "'q \<Rightarrow> nat"
  assumes add: "ok q \<Longrightarrow> ok (add r q) \<and> mset (view (add r q)) = add_mset r (mset (view q))"
    and prepend: "ok q \<Longrightarrow> ok (prepend r q) \<and> mset (view (prepend r q)) = add_mset r (mset (view q))"
    and prepends: "ok q \<Longrightarrow> ok (prepends rs q) \<and> mset (view (prepends rs q)) = mset rs + mset (view q)"
    and pop_empty: "ok q \<Longrightarrow> view q = [] \<Longrightarrow> pop q = Inl IndexError \<and> peek q = Inl IndexError"
    and pop: "ok q \<Longrightarrow> view q = r # v \<Longrightarrow> \<exists>q'. pop q = Inr (r, q') \<and> peek q = Inr r \<and> ok q' \<and> view q' = v"
    and rem: "ok q \<Longrightarrow> r \<in> set (view q) \<Longrightarrow> \<exists>q'. rem r q = Inr q' \<and> ok q' \<and> mset (view q') = mset (view q) - {#r#}"
    and rem_absent: "ok q \<Longrightarrow> r \<notin> set (view q) \<Longrightarrow> rem r q = Inl ValueError"
    and rems: "ok q \<Longrightarrow> ok (rems rs q) \<and> mset (view (rems rs q)) = filter_mset (\<lambda>r. r \<notin> set rs) (mset (view q))"
    and len: "ok q \<Longrightarrow> len q = length (view q)"
begin

lemma pop_keeps: "ok q \<Longrightarrow> pop q = Inr (r, q') \<Longrightarrow> ok q' \<and> view q = r # view q'"
  using pop pop_empty by (cases "view q") fastforce+

lemma peek_is_pop: "ok q \<Longrightarrow> pop q = Inr (r, q') \<Longrightarrow> peek q = Inr r"
  using pop_keeps [of q r q'] pop by fastforce

lemma rem_keeps: "ok q \<Longrightarrow> rem r q = Inr q' \<Longrightarrow> ok q' \<and> mset (view q) = add_mset r (mset (view q'))"
  using rem [of q r] rem_absent [of q r] by (cases "r \<in> set (view q)") auto

lemma add_len: "ok q \<Longrightarrow> len (add r q) = Suc (len q)"
  using add [of q r] len by (metis size_add_mset size_mset)

lemma prepend_len: "ok q \<Longrightarrow> len (prepend r q) = Suc (len q)"
  using prepend [of q r] len by (metis size_add_mset size_mset)

lemma pop_len: "ok q \<Longrightarrow> pop q = Inr (r, q') \<Longrightarrow> len q = Suc (len q')"
  using pop_keeps [of q r q'] len by simp

lemma add_set: "ok q \<Longrightarrow> set (view (add r q)) = insert r (set (view q))"
  using add [of q r] by (metis set_mset_add_mset_insert set_mset_mset)

lemma rems_set: "ok q \<Longrightarrow> set (view (rems rs q)) = set (view q) - set rs"
  using rems [of q rs] by (metis set_filter filter_mset_eq_conv mset_filter set_mset_mset set_diff_eq)

end

context key_order
begin

lemma rq_ok_simps [simp]:
  "rq_ok lt (FCFSRequestQueue l)" "rq_ok lt (PriorityRequestQueue h) \<longleftrightarrow> heap_from lt 0 h"
  by (simp_all add: rq_ok_def)

lemma rq_list_simps [simp]:
  "rq_list lt (FCFSRequestQueue l) = l" "rq_list lt (PriorityRequestQueue h) = prio_list lt h"
  by (simp_all add: rq_list_def)

lemma prio_adds:
  "heap_from lt 0 h \<Longrightarrow> heap_from lt 0 (fold (prio_add lt) rs h) \<and> mset (fold (prio_add lt) rs h) = mset rs + mset h"
  by (induction rs arbitrary: h) (simp_all add: prio_add_def heappush_heap heappush_mset)

lemma fcfs_prepends: "mset (fcfs_prepend_requests rs l) = mset rs + mset l"
  unfolding fcfs_prepend_requests_def by (induction rs arbitrary: l) (simp_all add: fcfs_prepend_def)

lemma prio_list_set: "heap_from lt 0 h \<Longrightarrow> set (prio_list lt h) = set h"
  using prio_list_spec mset_eq_setD by blast

lemma prio_list_empty: "heap_from lt 0 h \<Longrightarrow> prio_list lt h = [] \<longleftrightarrow> h = []"
  using prio_list_set by (metis set_empty)

lemma prio_pop_spec:
  assumes "heap_from lt 0 h" and "prio_list lt h = r # v"
  shows "\<exists>h'. prio_pop lt h = Inr (r, h') \<and> prio_peek h = Inr r \<and> heap_from lt 0 h' \<and> prio_list lt h' = v"
proof -
  have "h \<noteq> []" using assms by (auto simp: prio_list_empty)
  then obtain x h' where p: "heappop lt h = Inr (x, h')" "heap_from lt 0 h'" using heappop_spec [OF assms(1)] by blast
  then have "x = r" "prio_list lt h' = v" using prio_list_pop [OF assms(1) p(1)] assms(2) by simp_all
  moreover have "x = h ! 0"
    using p(1) \<open>h \<noteq> []\<close> by (cases h) (auto simp: heappop_def Let_def split: if_splits)
  ultimately show ?thesis using p \<open>h \<noteq> []\<close> by (simp add: prio_pop_def prio_peek_def)
qed

end

sublocale key_order \<subseteq> queue: request_queue "rq_ok lt" "rq_list lt" "rq_add lt" "rq_prepend lt" "rq_pop lt" rq_peek
  "rq_prepend_requests lt" "rq_remove lt" "rq_remove_requests lt" rq_len
proof (unfold_locales, goal_cases)
  case (1 q r)
  then show ?case by (cases q)
    (simp_all add: rq_add_def fcfs_add_def prio_add_def heappush_heap heappush_mset prio_list_spec)
next
  case (2 q r)
  then show ?case by (cases q)
    (simp_all add: rq_prepend_def fcfs_prepend_def prio_add_def heappush_heap heappush_mset prio_list_spec)
next
  case (3 q rs)
  then show ?case by (cases q)
    (simp_all add: rq_prepend_requests_def fcfs_prepends prio_prepend_requests_def prio_adds prio_list_spec)
next
  case (4 q)
  then show ?case by (cases q)
    (simp_all add: rq_pop_def rq_peek_def fcfs_pop_def fcfs_peek_def prio_pop_def prio_peek_def prio_list_empty)
next
  case (5 q r v)
  show ?case
  proof (cases q)
    case (PriorityRequestQueue h)
    then show ?thesis using prio_pop_spec [of h r v] 5 by (auto simp: rq_pop_def rq_peek_def)
  qed (use 5 in \<open>simp add: rq_pop_def rq_peek_def fcfs_pop_def fcfs_peek_def\<close>)
next
  case (6 q r)
  then show ?case by (cases q)
    (simp_all add: rq_remove_def fcfs_remove_def prio_remove_def heapify_heap heapify_mset prio_list_spec prio_list_set)
next
  case (7 q r)
  then show ?case by (cases q) (simp_all add: rq_remove_def fcfs_remove_def prio_remove_def prio_list_set)
next
  case (8 q rs)
  then show ?case by (cases q)
    (simp_all add: rq_remove_requests_def fcfs_remove_requests_def prio_remove_requests_def heapify_heap heapify_mset prio_list_spec)
next
  case (9 q)
  then show ?case
    by (cases q) (simp_all add: rq_len_def, metis prio_list_spec size_mset)
qed

text \<open>Requests compared directly, and request ids compared through the scheduler's dictionary.\<close>

interpretation rq: key_order request_lt request_key
  by unfold_locales (rule request_lt_key)

definition id_lt :: "(string \<times> request) list \<Rightarrow> string \<Rightarrow> string \<Rightarrow> bool" where
  "id_lt reqs a b = request_lt (the (map_of reqs a)) (the (map_of reqs b))"

definition id_key :: "(string \<times> request) list \<Rightarrow> string \<Rightarrow> int \<times> rat \<times> string \<times> nat" where
  "id_key reqs a = request_key (the (map_of reqs a))"

interpretation idq: key_order "id_lt reqs" "id_key reqs" for reqs
  by unfold_locales (simp add: id_lt_def id_key_def request_lt_key)

section \<open>Properties of the queues\<close>

datatype 'a queue_op = AddOp 'a | PopOp | PrependOp 'a | PrependAllOp "'a list" | RemoveOp 'a | RemoveAllOp "'a list"

fun queue_step :: "('a \<Rightarrow> 'a \<Rightarrow> bool) \<Rightarrow> 'a queue_op \<Rightarrow> 'a rqueue \<Rightarrow> 'a rqueue res" where
  "queue_step lt (AddOp r) q = Inr (rq_add lt r q)"
| "queue_step lt PopOp q = and_then (rq_pop lt q) (\<lambda>(_, q'). Inr q')"
| "queue_step lt (PrependOp r) q = Inr (rq_prepend lt r q)"
| "queue_step lt (PrependAllOp rs) q = Inr (rq_prepend_requests lt rs q)"
| "queue_step lt (RemoveOp r) q = rq_remove lt r q"
| "queue_step lt (RemoveAllOp rs) q = Inr (rq_remove_requests lt rs q)"

text \<open>The specification: a bag of requests; a pop takes some element, and only an empty bag refuses.\<close>

fun bag_step :: "'a queue_op \<Rightarrow> 'a multiset \<Rightarrow> 'a multiset \<Rightarrow> bool" where
  "bag_step (AddOp r) m m' \<longleftrightarrow> m' = add_mset r m"
| "bag_step PopOp m m' \<longleftrightarrow> (\<exists>r. m = add_mset r m')"
| "bag_step (PrependOp r) m m' \<longleftrightarrow> m' = add_mset r m"
| "bag_step (PrependAllOp rs) m m' \<longleftrightarrow> m' = mset rs + m"
| "bag_step (RemoveOp r) m m' \<longleftrightarrow> m = add_mset r m'"
| "bag_step (RemoveAllOp rs) m m' \<longleftrightarrow> m' = filter_mset (\<lambda>r. r \<notin> set rs) m"

fun bag_error :: "'a queue_op \<Rightarrow> 'a multiset \<Rightarrow> pyerr option" where
  "bag_error PopOp m = (if m = {#} then Some IndexError else None)"
| "bag_error (RemoveOp r) m = (if r \<in># m then None else Some ValueError)"
| "bag_error _ m = None"

context key_order
begin

lemma queue_step_spec:
  assumes "rq_ok lt q"
  shows "case bag_error op (mset (rq_list lt q)) of
      Some e \<Rightarrow> queue_step lt op q = Inl e
    | None \<Rightarrow> \<exists>q'. queue_step lt op q = Inr q' \<and> rq_ok lt q' \<and> bag_step op (mset (rq_list lt q)) (mset (rq_list lt q'))"
proof (cases op)
  case PopOp
  show ?thesis
  proof (cases "rq_list lt q")
    case Nil
    then show ?thesis using queue.pop_empty [OF assms] PopOp by simp
  next
    case (Cons r v)
    then show ?thesis using queue.pop [OF assms Cons] PopOp by auto
  qed
next
  case (RemoveOp r)
  then show ?thesis using queue.rem [OF assms, of r] queue.rem_absent [OF assms, of r] by auto
qed (use queue.add [OF assms] queue.prepend [OF assms] queue.prepends [OF assms] queue.rems [OF assms] in simp_all)

lemma queue_run_ok:
  assumes "fold_res (queue_step lt) ops q0 = Inr q" and "rq_ok lt q0"
  shows "rq_ok lt q"
  using assms
proof (rule fold_res_invariant)
  fix op q q'
  assume "rq_ok lt q" "queue_step lt op q = Inr q'"
  then show "rq_ok lt q'" using queue_step_spec [of q op] by (auto split: option.splits)
qed

lemma create_ok: "rq_ok lt (create_request_queue p)"
  by (cases p) (simp_all add: create_request_queue_def heap_from_def)

end

text \<open>A queue never changes its policy.\<close>

lemma queue_step_policy:
  assumes "queue_step lt op q = Inr q'"
  shows "(\<exists>h. q = PriorityRequestQueue h) \<longleftrightarrow> (\<exists>h. q' = PriorityRequestQueue h)"
  using assms by (cases op; cases q)
    (auto simp: rq_add_def rq_pop_def rq_prepend_def rq_prepend_requests_def rq_remove_def rq_remove_requests_def and_then_eq_Inr)

lemma queue_run_policy:
  assumes "fold_res (queue_step lt) ops (PriorityRequestQueue []) = Inr q"
  shows "\<exists>h. q = PriorityRequestQueue h"
  using assms by (rule fold_res_invariant) (auto dest: queue_step_policy)

text \<open>
  C14: after any sequence of operations, a queue of either policy behaves as a bag of requests: no
  operation loses or duplicates one, popping fails exactly on the empty queue and removal exactly on
  an absent request. The next request is the head of the iteration order, which goes on with the rest.
\<close>

theorem request_queue_refines_bag:
  assumes "fold_res (queue_step request_lt) ops (create_request_queue p) = Inr q"
  shows "(case bag_error op (mset (rq_list request_lt q)) of
      Some e \<Rightarrow> queue_step request_lt op q = Inl e
    | None \<Rightarrow> \<exists>q'. queue_step request_lt op q = Inr q' \<and>
        bag_step op (mset (rq_list request_lt q)) (mset (rq_list request_lt q'))) \<and>
    rq_len q = length (rq_list request_lt q) \<and>
    (\<forall>r q'. rq_pop request_lt q = Inr (r, q') \<longrightarrow>
       rq_list request_lt q = r # rq_list request_lt q' \<and> rq_peek q = Inr r)"
proof -
  have ok: "rq_ok request_lt q" using rq.queue_run_ok [OF assms rq.create_ok] .
  have "case bag_error op (mset (rq_list request_lt q)) of
      Some e \<Rightarrow> queue_step request_lt op q = Inl e
    | None \<Rightarrow> \<exists>q'. queue_step request_lt op q = Inr q' \<and>
        bag_step op (mset (rq_list request_lt q)) (mset (rq_list request_lt q'))"
    using rq.queue_step_spec [OF ok, of op] by (auto split: option.splits)
  then show ?thesis
    using rq.queue.len [OF ok] rq.queue.pop_keeps [OF ok] rq.queue.peek_is_pop [OF ok] by blast
qed

text \<open>Two requests that arrive in the order opposite to their priorities.\<close>

definition late_first :: "request queue_op list" where
  "late_first = [AddOp ((base_request ''a'' [1])\<lparr>priority := 1\<rparr>), AddOp (base_request ''b'' [1])]"

lemma late_first_run:
  "fold_res (queue_step request_lt) late_first (create_request_queue PRIORITY) =
     Inr (PriorityRequestQueue [base_request ''b'' [1], (base_request ''a'' [1])\<lparr>priority := 1\<rparr>])"
  "fold_res (queue_step request_lt) late_first (create_request_queue FCFS) =
     Inr (FCFSRequestQueue [(base_request ''a'' [1])\<lparr>priority := 1\<rparr>, base_request ''b'' [1]])"
  by (simp_all add: late_first_def create_request_queue_def rq_add_def prio_add_def heappush_def siftdown.simps
      request_lt_def base_request_def swap_def par_def fcfs_add_def)

theorem request_queue_refines_bag_witness:
  "\<exists>q. fold_res (queue_step request_lt) late_first (create_request_queue PRIORITY) = Inr q \<and> rq_len q = 2 \<and>
     length (rq_list request_lt q) = 2 \<and> queue_step request_lt (RemoveOp (base_request ''c'' [])) q = Inl ValueError"
  using request_queue_refines_bag [OF late_first_run(1), of "RemoveOp (base_request ''c'' [])"] late_first_run(1)
  by (simp add: rq.prio_list_spec rq_len_def rq_list_def rq_remove_def prio_remove_def base_request_def)

text \<open>
  C15: a priority queue yields its requests in the order of priority, then arrival, then request id,
  whatever sequence of operations built it; iteration and repeated popping give the same order.
\<close>

theorem priority_queue_sorted:
  assumes "fold_res (queue_step request_lt) ops (create_request_queue PRIORITY) = Inr q"
  shows "sorted (map request_key (rq_list request_lt q)) \<and>
    (\<forall>r q'. rq_pop request_lt q = Inr (r, q') \<longrightarrow> (\<forall>r'\<in>set (rq_list request_lt q). \<not> request_lt r' r))"
proof -
  have ok: "rq_ok request_lt q" using rq.queue_run_ok [OF assms rq.create_ok] .
  obtain h where h: "q = PriorityRequestQueue h"
    using queue_run_policy assms by (fastforce simp: create_request_queue_def)
  then have s: "sorted (map request_key (rq_list request_lt q))" using ok rq.prio_list_spec by simp
  have "\<not> request_lt r' r" if "rq_pop request_lt q = Inr (r, q')" "r' \<in> set (rq_list request_lt q)" for r q' r'
    using s rq.queue.pop_keeps [OF ok that(1)] that(2) by (auto simp: request_lt_key not_less)
  then show ?thesis using s by blast
qed

theorem priority_queue_sorted_witness:
  "\<exists>q r q'. fold_res (queue_step request_lt) late_first (create_request_queue PRIORITY) = Inr q \<and>
     rq_pop request_lt q = Inr (r, q') \<and> request_id r = ''b'' \<and>
     \<not> request_lt (base_request ''b'' [1]) r \<and> sorted (map request_key (rq_list request_lt q))"
  using priority_queue_sorted [OF late_first_run(1)] late_first_run(1)
  by (auto simp: rq_pop_def prio_pop_def heappop_def siftup_def bubble.simps siftdown.simps base_request_def
      request_lt_def)

end
