(* ===== verification/Encoder_Cache.thy ===== *)
theory Encoder_Cache
  imports Request
begin

text \<open>
  The cache of multi-modal encoder outputs, \<^verbatim>\<open>vllm/v1/core/encoder_cache_manager.py\<close>, with the two
  methods of the scheduler that drive it (\<^verbatim>\<open>_try_schedule_encoder_inputs\<close> and \<^verbatim>\<open>_free_encoder_inputs\<close>)
  and the reads of the model runner (\<^verbatim>\<open>_gather_mm_embeddings\<close>), which must find what they need.
  Sets of input ids, which Python iterates in ascending order for these small integers, are sorted
  lists.
\<close>

section \<open>EncoderCacheManager\<close>

record encoder_cache =
  ec_cache_size :: int
  ec_num_free_slots :: int
  ec_num_freeable_slots :: int
  ec_cached :: "(string \<times> string set) list"
  ec_freeable :: "(string \<times> int) list"
  ec_freed :: "string list"

definition EncoderCacheManager :: "int \<Rightarrow> encoder_cache" where
  "EncoderCacheManager n = \<lparr>ec_cache_size = n, ec_num_free_slots = n, ec_num_freeable_slots = n,
     ec_cached = [], ec_freeable = [], ec_freed = []\<rparr>"

definition ec_reset :: "encoder_cache \<Rightarrow> encoder_cache" where
  "ec_reset c = c\<lparr>ec_cached := [], ec_freeable := [], ec_freed := [],
     ec_num_free_slots := ec_cache_size c, ec_num_freeable_slots := ec_cache_size c\<rparr>"

definition ec_check_and_update_cache :: "request \<Rightarrow> int \<Rightarrow> encoder_cache \<Rightarrow> (bool \<times> encoder_cache) res" where
  "ec_check_and_update_cache r i c =
     and_then (py_index (mm_features r) i) (\<lambda>f.
       let mm_hash = mm_identifier f
       in case map_of (ec_cached c) mm_hash of
            None \<Rightarrow> Inr (False, c)
          | Some refs \<Rightarrow>
              and_then (if refs = {}
                then (case map_of (ec_freeable c) mm_hash of
                    None \<Rightarrow> Inl KeyError
                  | Some n \<Rightarrow> Inr (c\<lparr>ec_freeable := AList.delete mm_hash (ec_freeable c),
                                     ec_num_freeable_slots := ec_num_freeable_slots c - n\<rparr>))
                else Inr c)
              (\<lambda>c'. Inr (True, c'\<lparr>ec_cached := AList.update mm_hash (insert (request_id r) refs) (ec_cached c')\<rparr>)))"

text \<open>The eviction loop, by recursion on the entries still freeable; an empty dictionary raises.\<close>

fun evict_loop :: "int \<Rightarrow> (string \<times> int) list \<Rightarrow> encoder_cache \<Rightarrow> encoder_cache res" where
  "evict_loop n [] c = (if n > ec_num_free_slots c then Inl KeyError else Inr (c\<lparr>ec_freeable := []\<rparr>))"
| "evict_loop n ((h, k) # fs) c =
     (if n > ec_num_free_slots c
      then if h \<in> fst ` set (ec_cached c)
           then evict_loop n fs (c\<lparr>ec_cached := AList.delete h (ec_cached c), ec_freed := ec_freed c @ [h],
                                    ec_num_free_slots := ec_num_free_slots c + k\<rparr>)
           else Inl KeyError
      else Inr (c\<lparr>ec_freeable := (h, k) # fs\<rparr>))"

definition ec_can_allocate :: "request \<Rightarrow> int \<Rightarrow> int \<Rightarrow> int \<Rightarrow> encoder_cache \<Rightarrow> (bool \<times> encoder_cache) res" where
  "ec_can_allocate r i encoder_compute_budget num_embeds_to_schedule c =
     and_then (get_num_encoder_embeds r i) (\<lambda>num_embeds.
       if num_embeds > encoder_compute_budget then Inr (False, c)
       else let num_embeds = num_embeds + num_embeds_to_schedule
         in if num_embeds \<le> ec_num_free_slots c then Inr (True, c)
            else if num_embeds > ec_num_freeable_slots c then Inr (False, c)
            else and_then (evict_loop num_embeds (ec_freeable c) c) (\<lambda>c'. Inr (True, c')))"

definition ec_allocate :: "request \<Rightarrow> int \<Rightarrow> encoder_cache \<Rightarrow> encoder_cache res" where
  "ec_allocate r i c =
     and_then (py_index (mm_features r) i) (\<lambda>f.
       let mm_hash = mm_identifier f;
           c1 = (if mm_hash \<in> fst ` set (ec_cached c) then c
                 else c\<lparr>ec_cached := AList.update mm_hash {} (ec_cached c)\<rparr>)
       in and_then (get_num_encoder_embeds r i) (\<lambda>n.
          and_then (py_assert (ec_num_free_slots c1 \<ge> n)) (\<lambda>_.
          and_then (py_assert (ec_num_freeable_slots c1 \<ge> n)) (\<lambda>_.
          Inr (c1\<lparr>ec_cached := AList.update mm_hash (insert (request_id r) (dict_get (ec_cached c1) mm_hash {})) (ec_cached c1),
                  ec_num_free_slots := ec_num_free_slots c1 - n,
                  ec_num_freeable_slots := ec_num_freeable_slots c1 - n\<rparr>)))))"

definition ec_get_cached_input_ids :: "request \<Rightarrow> encoder_cache \<Rightarrow> nat list" where
  "ec_get_cached_input_ids r c =
     filter (\<lambda>i. mm_identifier (mm_features r ! i) \<in> fst ` set (ec_cached c)) [0..<length (mm_features r)]"

definition ec_free_encoder_input :: "request \<Rightarrow> int \<Rightarrow> encoder_cache \<Rightarrow> encoder_cache res" where
  "ec_free_encoder_input r i c =
     and_then (py_index (mm_features r) i) (\<lambda>f.
       let mm_hash = mm_identifier f; refs = dict_get (ec_cached c) mm_hash {}
       in if refs = {} then Inr c
          else let refs' = refs - {request_id r}; c1 = c\<lparr>ec_cached := AList.update mm_hash refs' (ec_cached c)\<rparr>
            in if refs' = {}
               then and_then (get_num_encoder_embeds r i) (\<lambda>n.
                 Inr (c1\<lparr>ec_freeable := AList.update mm_hash n (ec_freeable c1),
                         ec_num_freeable_slots := ec_num_freeable_slots c1 + n\<rparr>))
               else Inr c1)"

definition ec_free :: "request \<Rightarrow> encoder_cache \<Rightarrow> encoder_cache res" where
  "ec_free r c = fold_res (\<lambda>i. ec_free_encoder_input r (int i)) (ec_get_cached_input_ids r c) c"

definition ec_get_freed_mm_hashes :: "encoder_cache \<Rightarrow> string list \<times> encoder_cache" where
  "ec_get_freed_mm_hashes c = (ec_freed c, c\<lparr>ec_freed := []\<rparr>)"

definition compute_mm_encoder_budget :: "bool \<Rightarrow> int \<Rightarrow> int \<Rightarrow> int \<Rightarrow> (string \<times> int) list \<Rightarrow> (int \<times> int) res" where
  "compute_mm_encoder_budget disable_chunked_mm_input max_num_batched_tokens max_num_encoder_input_tokens
       encoder_cache_size mm_max_toks_per_item =
     (if mm_max_toks_per_item = [] then Inr (0, 0)
      else let max_tokens_per_mm_item = Max (set (map snd mm_max_toks_per_item))
        in if disable_chunked_mm_input \<and> max_tokens_per_mm_item > max_num_batched_tokens then Inl ValueError
           else Inr (max max_num_encoder_input_tokens max_tokens_per_mm_item, max encoder_cache_size max_tokens_per_mm_item))"

section \<open>EncoderDecoderCacheManager\<close>

record encdec_cache =
  ed_cache_size :: int
  ed_num_free_slots :: int
  ed_allocated :: "string list"
  ed_to_free :: "string list"

definition EncoderDecoderCacheManager :: "int \<Rightarrow> encdec_cache" where
  "EncoderDecoderCacheManager n =
     \<lparr>ed_cache_size = n, ed_num_free_slots = n, ed_allocated = [], ed_to_free = []\<rparr>"

definition ed_reset :: "encdec_cache \<Rightarrow> encdec_cache" where
  "ed_reset c = c\<lparr>ed_num_free_slots := ed_cache_size c, ed_allocated := [], ed_to_free := []\<rparr>"

definition ed_can_allocate :: "request \<Rightarrow> int \<Rightarrow> int \<Rightarrow> int \<Rightarrow> encdec_cache \<Rightarrow> bool res" where
  "ed_can_allocate r i encoder_compute_budget num_embeds_to_schedule c =
     and_then (get_num_encoder_embeds r i) (\<lambda>n.
       if n > encoder_compute_budget then Inr False else Inr (n + num_embeds_to_schedule \<le> ed_num_free_slots c))"

definition ed_allocate :: "request \<Rightarrow> int \<Rightarrow> encdec_cache \<Rightarrow> encdec_cache res" where
  "ed_allocate r i c =
     and_then (get_num_encoder_embeds r i) (\<lambda>n.
     and_then (py_index (mm_features r) i) (\<lambda>f.
       Inr (c\<lparr>ed_num_free_slots := ed_num_free_slots c - n, ed_allocated := ed_allocated c @ [mm_identifier f]\<rparr>)))"

definition ed_free_encoder_input :: "request \<Rightarrow> int \<Rightarrow> encdec_cache \<Rightarrow> encdec_cache res" where
  "ed_free_encoder_input r i c =
     and_then (get_num_encoder_embeds r i) (\<lambda>n. Inr (c\<lparr>ed_num_free_slots := ed_num_free_slots c + n\<rparr>))"

definition ed_free :: "request \<Rightarrow> encdec_cache \<Rightarrow> encdec_cache res" where
  "ed_free r c = fold_res (\<lambda>i. ed_free_encoder_input r (int i)) [0..<length (mm_features r)] c"

definition ed_get_cached_input_ids :: "request \<Rightarrow> nat list" where
  "ed_get_cached_input_ids r = [0..<length (mm_features r)]"

definition ed_get_freed_mm_hashes :: "encdec_cache \<Rightarrow> string list \<times> encdec_cache" where
  "ed_get_freed_mm_hashes c = (ed_to_free c, c\<lparr>ed_to_free := ed_allocated c, ed_allocated := []\<rparr>)"

section \<open>Either manager\<close>

datatype encoder_manager = MMCache encoder_cache | EncDecCache encdec_cache

definition em_check_and_update_cache :: "request \<Rightarrow> int \<Rightarrow> encoder_manager \<Rightarrow> (bool \<times> encoder_manager) res" where
  "em_check_and_update_cache r i m = (case m of
       MMCache c \<Rightarrow> and_then (ec_check_and_update_cache r i c) (\<lambda>(b, c'). Inr (b, MMCache c'))
     | EncDecCache c \<Rightarrow> Inr (False, m))"

definition em_can_allocate :: "request \<Rightarrow> int \<Rightarrow> int \<Rightarrow> int \<Rightarrow> encoder_manager \<Rightarrow> (bool \<times> encoder_manager) res" where
  "em_can_allocate r i budget to_schedule m = (case m of
       MMCache c \<Rightarrow> and_then (ec_can_allocate r i budget to_schedule c) (\<lambda>(b, c'). Inr (b, MMCache c'))
     | EncDecCache c \<Rightarrow> and_then (ed_can_allocate r i budget to_schedule c) (\<lambda>b. Inr (b, m)))"

definition em_allocate :: "request \<Rightarrow> int \<Rightarrow> encoder_manager \<Rightarrow> encoder_manager res" where
  "em_allocate r i m = (case m of
       MMCache c \<Rightarrow> and_then (ec_allocate r i c) (\<lambda>c'. Inr (MMCache c'))
     | EncDecCache c \<Rightarrow> and_then (ed_allocate r i c) (\<lambda>c'. Inr (EncDecCache c')))"

definition em_free_encoder_input :: "request \<Rightarrow> int \<Rightarrow> encoder_manager \<Rightarrow> encoder_manager res" where
  "em_free_encoder_input r i m = (case m of
       MMCache c \<Rightarrow> and_then (ec_free_encoder_input r i c) (\<lambda>c'. Inr (MMCache c'))
     | EncDecCache c \<Rightarrow> and_then (ed_free_encoder_input r i c) (\<lambda>c'. Inr (EncDecCache c')))"

definition em_free :: "request \<Rightarrow> encoder_manager \<Rightarrow> encoder_manager res" where
  "em_free r m = (case m of
       MMCache c \<Rightarrow> and_then (ec_free r c) (\<lambda>c'. Inr (MMCache c'))
     | EncDecCache c \<Rightarrow> and_then (ed_free r c) (\<lambda>c'. Inr (EncDecCache c')))"

definition em_get_cached_input_ids :: "request \<Rightarrow> encoder_manager \<Rightarrow> nat list" where
  "em_get_cached_input_ids r m = (case m of MMCache c \<Rightarrow> ec_get_cached_input_ids r c | EncDecCache _ \<Rightarrow> ed_get_cached_input_ids r)"

definition em_get_freed_mm_hashes :: "encoder_manager \<Rightarrow> string list \<times> encoder_manager" where
  "em_get_freed_mm_hashes m = (case m of
       MMCache c \<Rightarrow> map_prod id MMCache (ec_get_freed_mm_hashes c)
     | EncDecCache c \<Rightarrow> map_prod id EncDecCache (ed_get_freed_mm_hashes c))"

definition em_reset :: "encoder_manager \<Rightarrow> encoder_manager" where
  "em_reset m = (case m of MMCache c \<Rightarrow> MMCache (ec_reset c) | EncDecCache c \<Rightarrow> EncDecCache (ed_reset c))"

section \<open>The scheduler's side\<close>

text \<open>\<^verbatim>\<open>PlaceholderRange.get_embeds_indices_in_range\<close>; index \<open>-1\<close> of the running count is its last entry.\<close>

definition embeds_cumsum :: "bool list \<Rightarrow> int list" where
  "embeds_cumsum m = map (\<lambda>j. int (length (filter id (take (Suc j) m)))) [0..<length m]"

definition get_embeds_indices_in_range :: "mm_feature \<Rightarrow> int \<Rightarrow> int \<Rightarrow> (int \<times> int) res" where
  "get_embeds_indices_in_range f start_idx end_idx =
     (case is_embed f of
        None \<Rightarrow> Inr (start_idx, end_idx)
      | Some m \<Rightarrow>
          and_then (if start_idx > 0 then py_index (embeds_cumsum m) (start_idx - 1) else Inr 0) (\<lambda>a.
          and_then (py_index (embeds_cumsum m) (end_idx - 1)) (\<lambda>b. Inr (a, b))))"

record encoder_plan =
  ep_inputs :: "nat list"
  ep_num_new_tokens :: int
  ep_budget :: int
  ep_external :: "nat list"
  ep_hashes :: "string set"
  ep_num_embeds :: int

text \<open>The part of the loop body after the cache lookup, with the rest of the loop as \<open>continue\<close>.\<close>

definition schedule_input ::
  "bool \<Rightarrow> (string \<Rightarrow> bool) \<Rightarrow> request \<Rightarrow> int \<Rightarrow> int \<Rightarrow> nat \<Rightarrow> mm_feature \<Rightarrow>
   (encoder_plan \<times> encoder_manager \<Rightarrow> (encoder_plan \<times> encoder_manager) res) \<Rightarrow>
   encoder_plan \<times> encoder_manager \<Rightarrow> (encoder_plan \<times> encoder_manager) res" where
  "schedule_input disable has_item r computed shift i f continue s = (case s of (p, m) \<Rightarrow>
     let start_pos = mm_offset f; len = mm_length f; n = get_num_embeds f; new = ep_num_new_tokens p
     in if disable \<and> computed < start_pos \<and> computed + new < start_pos + len
        then Inr (p\<lparr>ep_num_new_tokens := max 0 (start_pos - (computed + shift))\<rparr>, m)
        else and_then (em_can_allocate r (int i) (ep_budget p) (ep_num_embeds p) m) (\<lambda>(fits, m).
          if \<not> fits
          then Inr (p\<lparr>ep_num_new_tokens :=
                 (if computed + shift < start_pos then start_pos - (computed + shift) else 0)\<rparr>, m)
          else and_then (get_embeds_indices_in_range f (max 0 (computed - start_pos))
                           (min len (computed + new - start_pos))) (\<lambda>(a, b).
            if b - a = 0 then continue (p, m)
            else if has_item (mm_identifier f)
            then continue (p\<lparr>ep_hashes := insert (mm_identifier f) (ep_hashes p), ep_external := ep_external p @ [i],
                   ep_num_embeds := ep_num_embeds p + n\<rparr>, m)
            else continue (p\<lparr>ep_num_embeds := ep_num_embeds p + n, ep_budget := ep_budget p - n,
                   ep_hashes := insert (mm_identifier f) (ep_hashes p), ep_inputs := ep_inputs p @ [i]\<rparr>, m))))"

text \<open>
  The loop over the inputs of a request: \<open>encdec\<close> is \<^verbatim>\<open>is_encoder_decoder\<close>, \<open>has_item\<close> the answer of
  the encoder-cache connector (constantly false without one), \<open>disable\<close> the setting
  \<^verbatim>\<open>disable_chunked_mm_input\<close>. A \<open>break\<close> returns, a \<open>continue\<close> goes on with the next input.
\<close>

fun encoder_loop ::
  "bool \<Rightarrow> bool \<Rightarrow> (string \<Rightarrow> bool) \<Rightarrow> request \<Rightarrow> int \<Rightarrow> int \<Rightarrow> (nat \<times> mm_feature) list \<Rightarrow>
   encoder_plan \<times> encoder_manager \<Rightarrow> (encoder_plan \<times> encoder_manager) res" where
  "encoder_loop encdec disable has_item r computed shift [] s = Inr s"
| "encoder_loop encdec disable has_item r computed shift ((i, f) # fs) (p, m) =
     (let start_pos = mm_offset f; len = mm_length f; new = ep_num_new_tokens p;
          continue = encoder_loop encdec disable has_item r computed shift fs
      in if start_pos \<ge> computed + new + shift then Inr (p, m)
         else if encdec \<and> computed > 0 then and_then (py_assert (start_pos = 0)) (\<lambda>_. continue (p, m))
         else if start_pos + len \<le> computed then continue (p, m)
         else if \<not> encdec \<and> mm_identifier f \<in> ep_hashes p then continue (p, m)
         else and_then (if encdec then Inr (False, m) else em_check_and_update_cache r (int i) m) (\<lambda>(hit, m).
           if hit then continue (p, m)
           else schedule_input disable has_item r computed shift i f continue (p, m)))"

definition try_schedule_encoder_inputs ::
  "bool \<Rightarrow> bool \<Rightarrow> (string \<Rightarrow> bool) \<Rightarrow> request \<Rightarrow> int \<Rightarrow> int \<Rightarrow> int \<Rightarrow> int \<Rightarrow> encoder_manager \<Rightarrow>
   ((nat list \<times> int \<times> int \<times> nat list) \<times> encoder_manager) res" where
  "try_schedule_encoder_inputs encdec disable has_item r computed new budget shift m =
     (if new = 0 \<or> \<not> has_encoder_inputs r then Inr (([], new, budget, []), m)
      else and_then (encoder_loop encdec disable has_item r computed shift (enumerate 0 (mm_features r))
             (\<lparr>ep_inputs = [], ep_num_new_tokens = new, ep_budget = budget, ep_external = [], ep_hashes = {},
               ep_num_embeds = 0\<rparr>, m))
        (\<lambda>(p, m'). Inr ((ep_inputs p, ep_num_new_tokens p, ep_budget p, ep_external p), m')))"

definition free_encoder_inputs :: "bool \<Rightarrow> request \<Rightarrow> encoder_manager \<Rightarrow> encoder_manager res" where
  "free_encoder_inputs encdec r m =
     fold_res (\<lambda>i m. and_then (py_index (mm_features r) (int i)) (\<lambda>f.
         if encdec \<and> num_computed_tokens r > 0 then em_free_encoder_input r (int i) m
         else if mm_offset f + mm_length f \<le> num_computed_tokens r then em_free_encoder_input r (int i) m
         else Inr m))
       (em_get_cached_input_ids r m) m"

section \<open>The model runner's side\<close>

text \<open>
  The encoder outputs \<^verbatim>\<open>_gather_mm_embeddings\<close> reads for one request, in order; each must be in the
  runner's cache. The arguments are the request's computed tokens, the shift of a draft model and the
  scheduled tokens.
\<close>

fun gather_loop :: "int \<Rightarrow> int \<Rightarrow> mm_feature list \<Rightarrow> string list res" where
  "gather_loop computed n [] = Inr []"
| "gather_loop computed n (f # fs) =
     (let start_pos = mm_offset f; len = mm_length f
      in if start_pos \<ge> computed + n then Inr []
         else if start_pos + len \<le> computed then gather_loop computed n fs
         else let start_idx = max (computed - start_pos) 0; end_idx = min (computed - start_pos + n) len
           in and_then (py_assert (start_idx < end_idx)) (\<lambda>_.
              and_then (get_embeds_indices_in_range f start_idx end_idx) (\<lambda>(a, b).
              and_then (gather_loop computed n fs) (\<lambda>hs. Inr (if a = b then hs else mm_identifier f # hs)))))"

definition gather_mm_hashes :: "int \<Rightarrow> int \<Rightarrow> int \<Rightarrow> mm_feature list \<Rightarrow> string list res" where
  "gather_mm_hashes computed shift n fs = gather_loop (computed + shift) n fs"

section \<open>The invariant of the encoder cache\<close>

text \<open>
  An identifier is the hash of a data item and so determines the number of embeddings \<open>sz\<close> of its
  encoder output.
\<close>

abbreviation refs_of :: "encoder_cache \<Rightarrow> string \<Rightarrow> string set option" where
  "refs_of c \<equiv> map_of (ec_cached c)"

definition ec_inv :: "(string \<Rightarrow> int) \<Rightarrow> encoder_cache \<Rightarrow> bool" where
  "ec_inv sz c \<longleftrightarrow>
     distinct (keys (ec_freeable c)) \<and>
     map_of (ec_freeable c) = (\<lambda>h. if refs_of c h = Some {} then Some (sz h) else None) \<and>
     ec_num_free_slots c = ec_cache_size c - sum sz (dom (refs_of c)) \<and>
     ec_num_freeable_slots c = ec_num_free_slots c + sum_list (map snd (ec_freeable c)) \<and>
     0 \<le> ec_num_free_slots c \<and> (\<forall>h. 0 \<le> sz h)"

definition mm_sized :: "(string \<Rightarrow> int) \<Rightarrow> request \<Rightarrow> bool" where
  "mm_sized sz r \<longleftrightarrow> (\<forall>f\<in>set (mm_features r). get_num_embeds f = sz (mm_identifier f))"

lemma ec_invD:
  assumes "ec_inv sz c"
  shows "distinct (keys (ec_freeable c))"
    and "map_of (ec_freeable c) h = (if refs_of c h = Some {} then Some (sz h) else None)"
    and "ec_num_free_slots c = ec_cache_size c - sum sz (dom (refs_of c))"
    and "ec_num_freeable_slots c = ec_num_free_slots c + sum_list (map snd (ec_freeable c))"
    and "0 \<le> ec_num_free_slots c" and "0 \<le> sz h"
  using assms by (auto simp: ec_inv_def)

lemma sum_list_delete:
  fixes d :: "('k \<times> int) list"
  assumes "distinct (keys d)" and "map_of d h = Some n"
  shows "sum_list (map snd (AList.delete h d)) = sum_list (map snd d) - n"
  using assms
proof (induction d)
  case (Cons e d)
  show ?case
  proof (cases "fst e = h")
    case True
    then have "h \<notin> fst ` set d" using Cons.prems(1) by auto
    then have "AList.delete h d = d" by (simp add: delete_id)
    then show ?thesis using True Cons.prems by (cases e) simp
  next
    case False
    then show ?thesis using Cons by (cases e) auto
  qed
qed simp

lemma ec_nonneg_freeable:
  assumes "ec_inv sz c"
  shows "0 \<le> sum_list (map snd (ec_freeable c))"
proof (rule sum_list_nonneg)
  fix n
  assume "n \<in> set (map snd (ec_freeable c))"
  then obtain h where "(h, n) \<in> set (ec_freeable c)" by auto
  then have "map_of (ec_freeable c) h = Some n" using ec_invD(1) [OF assms] by simp
  then show "0 \<le> n" using ec_invD(2,6) [OF assms, of h] by (auto split: if_splits)
qed

lemma embeds_at:
  assumes "mm_sized sz r" and "i < length (mm_features r)"
  shows "get_num_encoder_embeds r (int i) = Inr (sz (mm_identifier (mm_features r ! i)))"
    and "py_index (mm_features r) (int i) = Inr (mm_features r ! i)"
  using assms by (auto simp: get_num_encoder_embeds_def mm_sized_def py_index_def)

lemma ec_reset_inv: "ec_inv sz c \<Longrightarrow> 0 \<le> ec_cache_size c \<Longrightarrow> ec_inv sz (ec_reset c)"
  by (auto simp: ec_inv_def ec_reset_def)

lemma ec_check_spec:
  assumes "ec_inv sz c" and "i < length (mm_features r)"
  defines "h \<equiv> mm_identifier (mm_features r ! i)"
  shows "\<exists>b c'. ec_check_and_update_cache r (int i) c = Inr (b, c') \<and> ec_inv sz c' \<and>
    ec_num_free_slots c' = ec_num_free_slots c \<and> ec_cache_size c' = ec_cache_size c \<and> ec_freed c' = ec_freed c \<and>
    (b \<longleftrightarrow> h \<in> dom (refs_of c)) \<and>
    refs_of c' = (if b then (refs_of c)(h \<mapsto> insert (request_id r) (the (refs_of c h))) else refs_of c)"
proof (cases "refs_of c h")
  case None
  then show ?thesis using assms by (auto simp: ec_check_and_update_cache_def py_index_nat)
next
  case (Some refs)
  note D = ec_invD [OF assms(1)]
  have dom: "dom ((refs_of c)(h \<mapsto> insert (request_id r) refs)) = dom (refs_of c)" using Some by auto
  show ?thesis
  proof (cases "refs = {}")
    case True
    then have f: "map_of (ec_freeable c) h = Some (sz h)" using Some D(2) by simp
    let ?c = "c\<lparr>ec_freeable := AList.delete h (ec_freeable c), ec_num_freeable_slots := ec_num_freeable_slots c - sz h,
      ec_cached := AList.update h (insert (request_id r) refs) (ec_cached c)\<rparr>"
    have "ec_inv sz ?c"
      using D dom True sum_list_delete [OF D(1) f]
      by (auto simp: ec_inv_def update_conv' delete_conv' fun_eq_iff distinct_delete)
    then show ?thesis using True Some f assms(2)
      by (auto simp: ec_check_and_update_cache_def py_index_nat h_def [symmetric] update_conv' domIff)
  next
    case False
    let ?c = "c\<lparr>ec_cached := AList.update h (insert (request_id r) refs) (ec_cached c)\<rparr>"
    have "ec_inv sz ?c"
      using D dom False Some by (auto simp: ec_inv_def update_conv' fun_eq_iff)
    then show ?thesis using False Some assms(2)
      by (auto simp: ec_check_and_update_cache_def py_index_nat h_def [symmetric] update_conv' domIff)
  qed
qed

lemma evict_step:
  assumes "ec_inv sz (c\<lparr>ec_freeable := (h, k) # fs\<rparr>)"
  shows "h \<in> fst ` set (ec_cached c)" and "k = sz h" and "refs_of c h = Some {}"
    and "ec_inv sz (c\<lparr>ec_cached := AList.delete h (ec_cached c), ec_freed := ec_freed c @ [h],
           ec_num_free_slots := ec_num_free_slots c + k, ec_freeable := fs\<rparr>)"
proof -
  note D = ec_invD [OF assms]
  show r: "refs_of c h = Some {}" and k: "k = sz h" using D(2) [of h] by (auto split: if_splits)
  then show "h \<in> fst ` set (ec_cached c)" by (metis domI dom_map_of_conv_image_fst)
  have "map_of fs h' = (if h' \<noteq> h \<and> refs_of c h' = Some {} then Some (sz h') else None)" for h'
    using D(1) D(2) [of h'] by (cases "h' = h") (simp_all add: map_of_eq_None_iff)
  moreover have "sum sz (dom (refs_of c)) = sz h + sum sz (dom (refs_of c) - {h})"
    using r by (intro sum.remove) (auto simp: finite_dom_map_of)
  moreover from this have "sum sz (dom (refs_of c) - {h}) \<le> ec_cache_size c" using D(3,5) D(6) [of h] by simp
  moreover have "dom ((refs_of c)(h := None)) = dom (refs_of c) - {h}" by auto
  ultimately show "ec_inv sz (c\<lparr>ec_cached := AList.delete h (ec_cached c), ec_freed := ec_freed c @ [h],
           ec_num_free_slots := ec_num_free_slots c + k, ec_freeable := fs\<rparr>)"
    using D k by (auto simp: ec_inv_def delete_conv' fun_eq_iff)
qed

lemma evict_loop_spec:
  "ec_inv sz (c\<lparr>ec_freeable := fs\<rparr>) \<Longrightarrow> n \<le> ec_num_freeable_slots c \<Longrightarrow>
   \<exists>c' k. evict_loop n fs c = Inr c' \<and> ec_inv sz c' \<and> n \<le> ec_num_free_slots c' \<and>
     ec_num_free_slots c \<le> ec_num_free_slots c' \<and>
     ec_num_freeable_slots c' = ec_num_freeable_slots c \<and> ec_cache_size c' = ec_cache_size c \<and>
     refs_of c' = (\<lambda>h. if h \<in> set (take k (keys fs)) then None else refs_of c h) \<and>
     (\<forall>h\<in>set (take k (keys fs)). refs_of c h = Some {}) \<and>
     ec_freeable c' = drop k fs \<and> ec_freed c' = ec_freed c @ take k (keys fs)"
proof (induction fs arbitrary: c)
  case Nil
  then have "n \<le> ec_num_free_slots c" using ec_invD(4) [OF Nil(1)] by simp
  then show ?case using Nil by (auto intro!: exI [of _ 0])
next
  case (Cons e fs)
  obtain h k where e: "e = (h, k)" by fastforce
  note E = evict_step [OF Cons.prems(1) [unfolded e]]
  show ?case
  proof (cases "n > ec_num_free_slots c")
    case True
    let ?c = "c\<lparr>ec_cached := AList.delete h (ec_cached c), ec_freed := ec_freed c @ [h],
      ec_num_free_slots := ec_num_free_slots c + k\<rparr>"
    obtain c' m where c: "evict_loop n fs ?c = Inr c'" "ec_inv sz c'" "n \<le> ec_num_free_slots c'"
      "ec_num_free_slots c + k \<le> ec_num_free_slots c'"
      "ec_num_freeable_slots c' = ec_num_freeable_slots c" "ec_cache_size c' = ec_cache_size c"
      "refs_of c' = (\<lambda>h'. if h' \<in> set (take m (keys fs)) then None else refs_of ?c h')"
      "\<forall>h\<in>set (take m (keys fs)). refs_of ?c h = Some {}"
      "ec_freeable c' = drop m fs" "ec_freed c' = ec_freed c @ h # take m (keys fs)"
      using Cons.IH [of ?c] E(4) Cons.prems(2) by auto
    have "0 \<le> k" using E(2) ec_invD(6) [OF Cons.prems(1)] by simp
    moreover have "\<forall>h'\<in>set (take m (keys fs)). refs_of c h' = Some {}"
      using c(8) by (auto simp: delete_conv' split: if_splits)
    ultimately show ?thesis using c(1-7,9,10) True E(1,3) e
      by (intro exI [of _ c'] exI [of _ "Suc m"]) (auto simp: delete_conv' fun_eq_iff)
  next
    case False
    then show ?thesis using Cons.prems e by (intro exI [of _ "c\<lparr>ec_freeable := e # fs\<rparr>"] exI [of _ 0]) (simp add: ec_inv_def)
  qed
qed

text \<open>Whether space is granted, and what is evicted for it: unreferenced entries, oldest first.\<close>

lemma ec_can_allocate_spec:
  assumes "ec_inv sz c" and "mm_sized sz r" and "i < length (mm_features r)"
  defines "n \<equiv> sz (mm_identifier (mm_features r ! i))"
  shows "\<exists>b c' k. ec_can_allocate r (int i) budget to_schedule c = Inr (b, c') \<and> ec_inv sz c' \<and>
    ec_cache_size c' = ec_cache_size c \<and> ec_num_freeable_slots c' = ec_num_freeable_slots c \<and>
    ec_num_free_slots c \<le> ec_num_free_slots c' \<and>
    (b \<longleftrightarrow> n \<le> budget \<and> n + to_schedule \<le> ec_num_freeable_slots c) \<and>
    (b \<longrightarrow> n + to_schedule \<le> ec_num_free_slots c') \<and>
    refs_of c' = (\<lambda>h. if h \<in> set (take k (keys (ec_freeable c))) then None else refs_of c h) \<and>
    (\<forall>h\<in>set (take k (keys (ec_freeable c))). refs_of c h = Some {}) \<and>
    ec_freeable c' = drop k (ec_freeable c) \<and> ec_freed c' = ec_freed c @ take k (keys (ec_freeable c))"
proof -
  have le: "ec_num_free_slots c \<le> ec_num_freeable_slots c"
    using ec_invD(4) [OF assms(1)] ec_nonneg_freeable [OF assms(1)] by simp
  show ?thesis
  proof (cases "n \<le> budget \<and> ec_num_free_slots c < n + to_schedule \<and> n + to_schedule \<le> ec_num_freeable_slots c")
    case True
    have "ec_inv sz (c\<lparr>ec_freeable := ec_freeable c\<rparr>)" using assms(1) by simp
    from evict_loop_spec [OF this, of "n + to_schedule"] True embeds_at(1) [OF assms(2,3)] show ?thesis
      by (fastforce simp: ec_can_allocate_def Let_def n_def [symmetric])
  next
    case False
    then show ?thesis using assms(1) le embeds_at(1) [OF assms(2,3)]
      by (auto simp: ec_can_allocate_def Let_def n_def [symmetric] intro!: exI [of _ 0])
  qed
qed

lemma ec_allocate_spec:
  assumes "ec_inv sz c" and "mm_sized sz r" and "i < length (mm_features r)"
  defines "h \<equiv> mm_identifier (mm_features r ! i)"
  assumes new: "h \<notin> dom (refs_of c)" and fits: "sz h \<le> ec_num_free_slots c"
  shows "\<exists>c'. ec_allocate r (int i) c = Inr c' \<and> ec_inv sz c' \<and> ec_cache_size c' = ec_cache_size c \<and>
    refs_of c' = (refs_of c)(h \<mapsto> {request_id r}) \<and> ec_num_free_slots c' = ec_num_free_slots c - sz h \<and>
    ec_freed c' = ec_freed c"
proof -
  note D = ec_invD [OF assms(1)]
  have le: "sz h \<le> ec_num_freeable_slots c"
    using D(4) ec_nonneg_freeable [OF assms(1)] fits by simp
  have "h \<notin> fst ` set (ec_cached c)" using new by (simp add: dom_map_of_conv_image_fst)
  then have a: "ec_allocate r (int i) c = Inr (c\<lparr>ec_cached := AList.update h {request_id r} (AList.update h {} (ec_cached c)),
      ec_num_free_slots := ec_num_free_slots c - sz h, ec_num_freeable_slots := ec_num_freeable_slots c - sz h\<rparr>)"
    (is "_ = Inr ?c")
    using embeds_at [OF assms(2,3)] fits le by (simp add: ec_allocate_def Let_def h_def [symmetric])
  have refs: "refs_of ?c = (refs_of c)(h \<mapsto> {request_id r})" by (simp add: update_conv')
  have "sum sz (dom ((refs_of c)(h \<mapsto> {request_id r}))) = sz h + sum sz (dom (refs_of c))"
    using new by (simp add: finite_dom_map_of)
  then have "ec_inv sz ?c" using D new fits unfolding ec_inv_def refs by (auto simp: fun_eq_iff)
  then show ?thesis using a refs by simp
qed

lemma ec_free_input_spec:
  assumes "ec_inv sz c" and "mm_sized sz r" and "i < length (mm_features r)"
  defines "h \<equiv> mm_identifier (mm_features r ! i)"
  shows "\<exists>c'. ec_free_encoder_input r (int i) c = Inr c' \<and> ec_inv sz c' \<and> ec_cache_size c' = ec_cache_size c \<and>
    ec_num_free_slots c' = ec_num_free_slots c \<and> ec_freed c' = ec_freed c \<and>
    refs_of c' = (refs_of c)(h := map_option (\<lambda>refs. refs - {request_id r}) (refs_of c h))"
proof (cases "dict_get (ec_cached c) h {} = {}")
  case True
  then have "refs_of c = (refs_of c)(h := map_option (\<lambda>refs. refs - {request_id r}) (refs_of c h))"
    by (cases "refs_of c h") (auto simp: dict_get_def fun_upd_idem)
  then show ?thesis using True assms(1) embeds_at [OF assms(2,3)]
    by (auto simp: ec_free_encoder_input_def Let_def h_def [symmetric])
next
  case False
  then obtain refs where r: "refs_of c h = Some refs" "refs \<noteq> {}" by (cases "refs_of c h") (auto simp: dict_get_def)
  note D = ec_invD [OF assms(1)]
  have dom: "dom ((refs_of c)(h \<mapsto> refs')) = dom (refs_of c)" for refs' using r by auto
  show ?thesis
  proof (cases "refs - {request_id r} = {}")
    case True
    then have e: "refs = {request_id r}" using r(2) by auto
    let ?c = "c\<lparr>ec_cached := AList.update h {} (ec_cached c), ec_freeable := AList.update h (sz h) (ec_freeable c),
      ec_num_freeable_slots := ec_num_freeable_slots c + sz h\<rparr>"
    have "map_of (ec_freeable c) h = None" using r D(2) by simp
    then have "h \<notin> fst ` set (ec_freeable c)" by (simp add: map_of_eq_None_iff)
    then have "sum_list (map snd (AList.update h (sz h) (ec_freeable c))) = sum_list (map snd (ec_freeable c)) + sz h"
      by (simp add: update_new)
    moreover have "distinct (keys (AList.update h (sz h) (ec_freeable c)))" using D(1) by (rule distinct_update)
    ultimately have "ec_inv sz ?c" using D dom by (simp add: ec_inv_def update_conv' fun_eq_iff)
    then show ?thesis using r(1) embeds_at [OF assms(2,3)] unfolding e
      by (simp add: ec_free_encoder_input_def Let_def h_def [symmetric] update_conv')
  next
    case no: False
    let ?c = "c\<lparr>ec_cached := AList.update h (refs - {request_id r}) (ec_cached c)\<rparr>"
    have "ec_inv sz ?c" using D dom no r by (auto simp: ec_inv_def update_conv' fun_eq_iff)
    then show ?thesis using no r False embeds_at [OF assms(2,3)]
      by (simp add: ec_free_encoder_input_def Let_def h_def [symmetric] update_conv')
  qed
qed

text \<open>Freeing some of the inputs of a request keeps the invariant.\<close>

lemma ec_free_inputs_inv:
  assumes "ec_inv sz c" and "mm_sized sz r" and "\<forall>i\<in>set is. i < length (mm_features r)"
  shows "\<exists>c'. fold_res (\<lambda>i. ec_free_encoder_input r (int i)) is c = Inr c' \<and> ec_inv sz c' \<and> ec_cache_size c' = ec_cache_size c"
proof (rule fold_res_progress [where P = "\<lambda>c'. ec_inv sz c' \<and> ec_cache_size c' = ec_cache_size c"])
  fix i c'
  assume "i \<in> set is" "ec_inv sz c' \<and> ec_cache_size c' = ec_cache_size c"
  then show "\<exists>c''. ec_free_encoder_input r (int i) c' = Inr c'' \<and> ec_inv sz c'' \<and> ec_cache_size c'' = ec_cache_size c"
    using ec_free_input_spec [of sz c' r i] assms(2,3) by auto
qed (use assms(1) in simp)

lemma ec_free_inv:
  assumes "ec_inv sz c" and "mm_sized sz r"
  shows "\<exists>c'. ec_free r c = Inr c' \<and> ec_inv sz c' \<and> ec_cache_size c' = ec_cache_size c"
  unfolding ec_free_def by (rule ec_free_inputs_inv [OF assms]) (simp add: ec_get_cached_input_ids_def)

section \<open>Scheduled inputs are available to the runner\<close>

text \<open>
  Placeholders are sorted by position and not empty, and an embedding mask has the length of its
  placeholder.
\<close>

definition feature_ok :: "mm_feature \<Rightarrow> bool" where
  "feature_ok f \<longleftrightarrow> 0 < mm_length f \<and> (\<forall>m. is_embed f = Some m \<longrightarrow> int (length m) = mm_length f)"

definition mm_shaped :: "request \<Rightarrow> bool" where
  "mm_shaped r \<longleftrightarrow> (\<forall>f\<in>set (mm_features r). feature_ok f) \<and> sorted (map mm_offset (mm_features r))"

abbreviation ident :: "request \<Rightarrow> nat \<Rightarrow> string" where
  "ident r i \<equiv> mm_identifier (mm_features r ! i)"

lemma embeds_range_defined:
  assumes "feature_ok f" and "0 \<le> a" "a < mm_length f" "0 \<le> e" "e \<le> mm_length f"
  shows "\<exists>x y. get_embeds_indices_in_range f a e = Inr (x, y)"
proof (cases "is_embed f")
  case (Some m)
  then have "int (length m) = mm_length f" using assms(1) by (simp add: feature_ok_def)
  then show ?thesis using Some assms by (auto simp: get_embeds_indices_in_range_def py_index_def embeds_cumsum_def)
qed (simp add: get_embeds_indices_in_range_def)

definition emb_count :: "bool list \<Rightarrow> int \<Rightarrow> int" where
  "emb_count m k = int (length (filter id (take (nat k) m)))"

lemma emb_count_mono: "j \<le> k \<Longrightarrow> emb_count m j \<le> emb_count m k"
  unfolding emb_count_def by (metis filter_append le_add1 length_append nat_mono of_nat_mono take_add le_Suc_ex)

lemma embeds_range_mask:
  assumes "is_embed f = Some m" and "0 \<le> a" "a < e" "e \<le> int (length m)"
  shows "get_embeds_indices_in_range f a e = Inr (emb_count m a, emb_count m e)"
proof -
  have *: "py_index (embeds_cumsum m) (k - 1) = Inr (emb_count m k)" if "0 < k" "k \<le> int (length m)" for k
    using that by (simp add: py_index_def embeds_cumsum_def emb_count_def nat_diff_distrib' Suc_nat_eq_nat_zadd1)
  show ?thesis using assms * [of a] * [of e]
    by (cases "a = 0") (simp_all add: get_embeds_indices_in_range_def emb_count_def)
qed

definition emb_nonempty :: "mm_feature \<Rightarrow> int \<Rightarrow> int \<Rightarrow> bool" where
  "emb_nonempty f a e \<longleftrightarrow> (case get_embeds_indices_in_range f a e of Inr (x, y) \<Rightarrow> x \<noteq> y | Inl _ \<Rightarrow> False)"

lemma emb_nonempty_mono:
  assumes "feature_ok f" and "emb_nonempty f a e'" and "0 \<le> a" "a < e'" "e' \<le> e" "e \<le> mm_length f"
  shows "emb_nonempty f a e"
proof (cases "is_embed f")
  case (Some m)
  then have l: "int (length m) = mm_length f" using assms(1) by (simp add: feature_ok_def)
  have "emb_count m a \<noteq> emb_count m e'" using assms Some l by (simp add: emb_nonempty_def embeds_range_mask)
  moreover have "emb_count m a \<le> emb_count m e'" "emb_count m e' \<le> emb_count m e"
    using assms by (simp_all add: emb_count_mono)
  ultimately show ?thesis using assms Some l by (simp add: emb_nonempty_def embeds_range_mask)
qed (use assms in \<open>simp add: emb_nonempty_def get_embeds_indices_in_range_def\<close>)

text \<open>The runner needs the output of an input for a range of tokens.\<close>

definition needs :: "int \<Rightarrow> int \<Rightarrow> mm_feature \<Rightarrow> bool" where
  "needs computed n f \<longleftrightarrow> mm_offset f < computed + n \<and> computed < mm_offset f + mm_length f \<and>
     emb_nonempty f (max 0 (computed - mm_offset f)) (min (mm_length f) (computed + n - mm_offset f))"

lemma needs_mono: "feature_ok f \<Longrightarrow> 0 < n' \<Longrightarrow> n' \<le> n \<Longrightarrow> needs computed n' f \<Longrightarrow> needs computed n f"
  unfolding needs_def
  by (elim conjE, intro conjI, linarith, linarith, rule emb_nonempty_mono) (auto simp: feature_ok_def)

lemma gather_reads_needs:
  assumes "0 < n" and "\<forall>f\<in>set fs. feature_ok f"
  shows "\<exists>hs. gather_loop computed n fs = Inr hs \<and> (\<forall>h\<in>set hs. \<exists>f\<in>set fs. mm_identifier f = h \<and> needs computed n f)"
  using assms(2)
proof (induction fs)
  case (Cons f fs)
  then obtain hs where hs: "gather_loop computed n fs = Inr hs"
    "\<forall>h\<in>set hs. \<exists>f\<in>set fs. mm_identifier f = h \<and> needs computed n f" by auto
  let ?a = "max 0 (computed - mm_offset f)" and ?e = "min (mm_length f) (computed + n - mm_offset f)"
  have eqs: "max (computed - mm_offset f) 0 = ?a" "min (computed - mm_offset f + n) (mm_length f) = ?e" by auto
  consider "mm_offset f \<ge> computed + n" | "mm_offset f < computed + n" "mm_offset f + mm_length f \<le> computed"
    | "mm_offset f < computed + n" "computed < mm_offset f + mm_length f" by linarith
  then show ?case
  proof cases
    case 3
    then have e: "?a < ?e" using assms(1) Cons.prems by (auto simp: feature_ok_def)
    obtain x y where xy: "get_embeds_indices_in_range f ?a ?e = Inr (x, y)"
      using embeds_range_defined [of f ?a ?e] Cons.prems 3 e by auto
    have "x \<noteq> y \<Longrightarrow> needs computed n f" using xy 3 by (simp add: needs_def emb_nonempty_def)
    then show ?thesis using 3 e hs xy by (auto simp: eqs Let_def)
  qed (use hs in auto)
qed simp

definition planned :: "encoder_plan \<Rightarrow> nat set" where
  "planned p = set (ep_inputs p @ ep_external p)"

text \<open>A plan lists distinct new inputs that fit into the free slots together.\<close>

definition plan_ok :: "(string \<Rightarrow> int) \<Rightarrow> request \<Rightarrow> encoder_plan \<Rightarrow> encoder_cache \<Rightarrow> bool" where
  "plan_ok sz r p c \<longleftrightarrow> ec_inv sz c \<and> distinct (ep_inputs p @ ep_external p) \<and>
     (\<forall>i\<in>planned p. i < length (mm_features r)) \<and> inj_on (ident r) (planned p) \<and> ep_hashes p = ident r ` planned p \<and>
     (\<forall>h\<in>ep_hashes p. refs_of c h = None) \<and> ep_num_embeds p = sum sz (ep_hashes p) \<and> ep_num_embeds p \<le> ec_num_free_slots c"

definition covered :: "request \<Rightarrow> encoder_plan \<Rightarrow> encoder_cache \<Rightarrow> mm_feature \<Rightarrow> bool" where
  "covered r p c f \<longleftrightarrow> mm_identifier f \<in> ep_hashes p \<or>
     (\<exists>refs. refs_of c (mm_identifier f) = Some refs \<and> request_id r \<in> refs)"

lemma plan_ok_mono:
  assumes "plan_ok sz r p c" and "ec_inv sz c'" and "dom (refs_of c') \<subseteq> dom (refs_of c)"
    and "ec_num_free_slots c \<le> ec_num_free_slots c'"
  shows "plan_ok sz r p c'"
proof -
  have "\<forall>h\<in>ep_hashes p. refs_of c h = None" using assms(1) unfolding plan_ok_def by (elim conjE)
  then have "\<forall>h\<in>ep_hashes p. refs_of c' h = None" using assms(3) by (auto simp: domIff subset_iff)
  then show ?thesis using assms(1,2,4) unfolding plan_ok_def by (elim conjE, intro conjI; (assumption | linarith))
qed

lemma plan_check:
  assumes "plan_ok sz r p c" and "i < length (mm_features r)"
  shows "\<exists>b c'. em_check_and_update_cache r (int i) (MMCache c) = Inr (b, MMCache c') \<and> plan_ok sz r p c' \<and>
    ec_cache_size c' = ec_cache_size c \<and> (b \<longrightarrow> covered r p c' (mm_features r ! i)) \<and>
    (\<not> b \<longrightarrow> ident r i \<notin> dom (refs_of c')) \<and> (\<forall>f. covered r p c f \<longrightarrow> covered r p c' f)"
proof -
  obtain b c' where c: "ec_check_and_update_cache r (int i) c = Inr (b, c')" "ec_inv sz c'"
    "ec_num_free_slots c' = ec_num_free_slots c" "ec_cache_size c' = ec_cache_size c" "b \<longleftrightarrow> ident r i \<in> dom (refs_of c)"
    "refs_of c' = (if b then (refs_of c)(ident r i \<mapsto> insert (request_id r) (the (refs_of c (ident r i)))) else refs_of c)"
    using ec_check_spec [of sz c i r] assms by (auto simp: plan_ok_def)
  have d: "dom (refs_of c') = dom (refs_of c)" using c(5,6) by auto
  have "plan_ok sz r p c'" using plan_ok_mono [OF assms(1) c(2)] c(3) d by simp
  moreover have "b \<longrightarrow> covered r p c' (mm_features r ! i)" using c(6) by (simp add: covered_def)
  moreover have "\<forall>f. covered r p c f \<longrightarrow> covered r p c' f" using c(5,6) by (auto simp: covered_def)
  ultimately show ?thesis using c(1,4,5) d by (simp add: em_check_and_update_cache_def)
qed

lemma plan_fits:
  assumes "plan_ok sz r p c" and "mm_sized sz r" and "i < length (mm_features r)"
  shows "\<exists>b c'. em_can_allocate r (int i) budget (ep_num_embeds p) (MMCache c) = Inr (b, MMCache c') \<and> plan_ok sz r p c' \<and>
    ec_cache_size c' = ec_cache_size c \<and> dom (refs_of c') \<subseteq> dom (refs_of c) \<and>
    (b \<longrightarrow> sz (ident r i) + ep_num_embeds p \<le> ec_num_free_slots c' \<and> sz (ident r i) \<le> budget) \<and>
    (\<forall>f. covered r p c f \<longrightarrow> covered r p c' f)"
proof -
  have inv: "ec_inv sz c" using assms(1) by (simp add: plan_ok_def)
  obtain b c' k where c: "ec_can_allocate r (int i) budget (ep_num_embeds p) c = Inr (b, c')" "ec_inv sz c'"
    "ec_cache_size c' = ec_cache_size c" "ec_num_free_slots c \<le> ec_num_free_slots c'"
    "b \<longrightarrow> sz (ident r i) + ep_num_embeds p \<le> ec_num_free_slots c' \<and> sz (ident r i) \<le> budget"
    "refs_of c' = (\<lambda>h. if h \<in> set (take k (keys (ec_freeable c))) then None else refs_of c h)"
    "\<forall>h\<in>set (take k (keys (ec_freeable c))). refs_of c h = Some {}"
    using ec_can_allocate_spec [OF inv assms(2,3), of budget "ep_num_embeds p"] by blast
  have d: "dom (refs_of c') \<subseteq> dom (refs_of c)" using c(6) by (auto split: if_splits)
  have "plan_ok sz r p c'" by (rule plan_ok_mono [OF assms(1) c(2) d c(4)])
  moreover have "covered r p c' f" if cov: "covered r p c f" for f
  proof (cases "mm_identifier f \<in> ep_hashes p")
    case False
    then obtain refs where "refs_of c (mm_identifier f) = Some refs" "request_id r \<in> refs"
      using cov by (auto simp: covered_def)
    then show ?thesis using c(6,7) by (fastforce simp: covered_def)
  qed (simp add: covered_def)
  ultimately show ?thesis using c(1,3,5) d by (simp add: em_can_allocate_def)
qed

text \<open>Adding an input to the plan, as a load from outside or as encoder work.\<close>

lemma plan_add:
  assumes "plan_ok sz r p c" and "i < length (mm_features r)" and "i \<notin> planned p" and "ident r i \<notin> ep_hashes p"
    and "ident r i \<notin> dom (refs_of c)" and "sz (ident r i) + ep_num_embeds p \<le> ec_num_free_slots c"
    and "planned p' = insert i (planned p)" and "distinct (ep_inputs p' @ ep_external p')"
    and "ep_hashes p' = insert (ident r i) (ep_hashes p)" and "ep_num_embeds p' = ep_num_embeds p + sz (ident r i)"
  shows "plan_ok sz r p' c" and "covered r p' c (mm_features r ! i)" and "covered r p c f \<Longrightarrow> covered r p' c f"
proof -
  have "finite (ep_hashes p)" using assms(1) by (simp add: plan_ok_def planned_def)
  then show "plan_ok sz r p' c" using assms by (auto simp: plan_ok_def)
  show "covered r p' c (mm_features r ! i)" "covered r p c f \<Longrightarrow> covered r p' c f"
    using assms(9) by (auto simp: covered_def)
qed

text \<open>Inputs behind the point where the loop stops are not needed by the tokens kept.\<close>

lemma cover_stop:
  assumes "mm_shaped r" and "k < length (mm_features r)" and "0 < n'" and "n' \<le> n"
    and "computed + n' \<le> mm_offset (mm_features r ! k)"
    and "\<forall>j<k. needs computed n (mm_features r ! j) \<longrightarrow> covered r p c (mm_features r ! j)"
  shows "\<forall>f\<in>set (mm_features r). needs computed n' f \<longrightarrow> covered r p c f"
proof (intro ballI impI)
  fix f
  assume "f \<in> set (mm_features r)" and nd: "needs computed n' f"
  then obtain j where j: "j < length (mm_features r)" "f = mm_features r ! j" by (auto simp: in_set_conv_nth)
  have "j < k"
  proof (rule ccontr)
    assume "\<not> j < k"
    then have "mm_offset (mm_features r ! k) \<le> mm_offset f"
      using assms(1) j sorted_nth_mono [of "map mm_offset (mm_features r)" k j] by (simp add: mm_shaped_def)
    then show False using nd assms(5) by (simp add: needs_def)
  qed
  moreover have "feature_ok f" using assms(1) j by (simp add: mm_shaped_def)
  then have "needs computed n f" using needs_mono assms(3,4) nd by blast
  ultimately show "covered r p c f" using assms(6) j by blast
qed

definition loop_post :: "(string \<Rightarrow> int) \<Rightarrow> request \<Rightarrow> int \<Rightarrow> int \<Rightarrow> int \<Rightarrow> (encoder_plan \<times> encoder_manager) res \<Rightarrow> bool" where
  "loop_post sz r computed n csize res \<longleftrightarrow> (\<exists>p c. res = Inr (p, MMCache c) \<and> plan_ok sz r p c \<and> ec_cache_size c = csize \<and>
     0 \<le> ep_num_new_tokens p \<and> ep_num_new_tokens p \<le> n \<and>
     (0 < ep_num_new_tokens p \<longrightarrow>
       (\<forall>f\<in>set (mm_features r). needs computed (ep_num_new_tokens p) f \<longrightarrow> covered r p c f)))"

lemma plan_new_tokens [simp]:
  "plan_ok sz r (p\<lparr>ep_num_new_tokens := n\<rparr>) c = plan_ok sz r p c"
  "covered r (p\<lparr>ep_num_new_tokens := n\<rparr>) c f = covered r p c f"
  by (simp_all add: plan_ok_def planned_def covered_def)

lemma loop_stop:
  assumes "plan_ok sz r p c" and "ec_cache_size c = csize" and "mm_shaped r" and "k < length (mm_features r)"
    and "0 \<le> n'" and "n' \<le> n" and "0 < n' \<longrightarrow> computed + n' \<le> mm_offset (mm_features r ! k)"
    and "\<forall>j<k. needs computed n (mm_features r ! j) \<longrightarrow> covered r p c (mm_features r ! j)"
  shows "loop_post sz r computed n csize (Inr (p\<lparr>ep_num_new_tokens := n'\<rparr>, MMCache c))"
  using assms cover_stop [OF assms(3,4), of n' n computed p c] by (simp add: loop_post_def)

lemma schedule_input_spec:
  assumes "mm_shaped r" and "mm_sized sz r" and "shift = 0 \<or> shift = 1" and "0 < n"
    and "plan_ok sz r p c" and "ec_cache_size c = csize" and "ep_num_new_tokens p = n" and "k < length (mm_features r)"
    and "\<forall>i\<in>planned p. i < k" and "\<forall>j<k. needs computed n (mm_features r ! j) \<longrightarrow> covered r p c (mm_features r ! j)"
    and "mm_offset (mm_features r ! k) < computed + n + shift"
    and "computed < mm_offset (mm_features r ! k) + mm_length (mm_features r ! k)"
    and "ident r k \<notin> ep_hashes p" and "ident r k \<notin> dom (refs_of c)"
    and go: "\<And>p' c'. plan_ok sz r p' c' \<Longrightarrow> ec_cache_size c' = csize \<Longrightarrow> ep_num_new_tokens p' = n \<Longrightarrow>
      \<forall>i\<in>planned p'. i < Suc k \<Longrightarrow> (\<And>f. covered r p c f \<Longrightarrow> covered r p' c' f) \<Longrightarrow>
      (needs computed n (mm_features r ! k) \<Longrightarrow> covered r p' c' (mm_features r ! k)) \<Longrightarrow>
      loop_post sz r computed n csize (continue (p', MMCache c'))"
  shows "loop_post sz r computed n csize
    (schedule_input disable has_item r computed shift k (mm_features r ! k) continue (p, MMCache c))"
proof -
  let ?f = "mm_features r ! k" and ?n = "sz (ident r k)"
  let ?a = "max 0 (computed - mm_offset ?f)" and ?e = "min (mm_length ?f) (computed + n - mm_offset ?f)"
  have ok: "feature_ok ?f" "get_num_embeds ?f = ?n" using assms(1,2,8) by (simp_all add: mm_shaped_def mm_sized_def)
  have old: "\<forall>i\<in>planned p. i < Suc k" "k \<notin> planned p" using assms(9) by (auto simp: less_Suc_eq)
  obtain b c' where c: "em_can_allocate r (int k) (ep_budget p) (ep_num_embeds p) (MMCache c) = Inr (b, MMCache c')"
    "plan_ok sz r p c'" "ec_cache_size c' = csize" "dom (refs_of c') \<subseteq> dom (refs_of c)"
    "b \<Longrightarrow> ?n + ep_num_embeds p \<le> ec_num_free_slots c'" "\<And>f. covered r p c f \<Longrightarrow> covered r p c' f"
    using plan_fits [OF assms(5,2,8), of "ep_budget p"] assms(6) by blast
  have stop: "loop_post sz r computed n csize (Inr (p\<lparr>ep_num_new_tokens := n'\<rparr>, MMCache c0))"
    if "plan_ok sz r p c0" "ec_cache_size c0 = csize" "\<And>f. covered r p c f \<Longrightarrow> covered r p c0 f"
      "n' = max 0 (mm_offset ?f - (computed + shift))" for c0 n'
    using that assms(1,3,4,8,10,11) by (intro loop_stop [where k = k]) auto
  obtain x y where xy: "get_embeds_indices_in_range ?f ?a ?e = Inr (x, y)"
    using embeds_range_defined [OF ok(1), of ?a ?e] assms(3,11,12) ok(1) by (auto simp: feature_ok_def)
  have new: "ident r k \<notin> dom (refs_of c')" using c(4) assms(14) by blast
  consider "disable \<and> computed < mm_offset ?f \<and> computed + n < mm_offset ?f + mm_length ?f"
    | "\<not> (disable \<and> computed < mm_offset ?f \<and> computed + n < mm_offset ?f + mm_length ?f)" "\<not> b"
    | "\<not> (disable \<and> computed < mm_offset ?f \<and> computed + n < mm_offset ?f + mm_length ?f)" b "y = x"
    | "\<not> (disable \<and> computed < mm_offset ?f \<and> computed + n < mm_offset ?f + mm_length ?f)" b "y \<noteq> x" by blast
  then show ?thesis
  proof cases
    case 1
    then show ?thesis using stop [of c] assms(5-7) by (simp add: schedule_input_def Let_def)
  next
    case 2
    then show ?thesis using stop [of c'] c assms(7)
      by (auto simp: schedule_input_def Let_def max_def)
  next
    case 3
    then have "\<not> needs computed n ?f" using xy by (simp add: needs_def emb_nonempty_def)
    then show ?thesis using 3 go [of p c'] c old assms(7) xy by (auto simp: schedule_input_def Let_def)
  next
    case 4
    let ?p1 = "p\<lparr>ep_hashes := insert (ident r k) (ep_hashes p), ep_external := ep_external p @ [k],
        ep_num_embeds := ep_num_embeds p + ?n\<rparr>"
    let ?p2 = "p\<lparr>ep_num_embeds := ep_num_embeds p + ?n, ep_budget := ep_budget p - ?n,
        ep_hashes := insert (ident r k) (ep_hashes p), ep_inputs := ep_inputs p @ [k]\<rparr>"
    have d: "distinct (ep_inputs p @ ep_external p)" using c(2) by (simp add: plan_ok_def)
    have pl: "planned ?p1 = insert k (planned p)" "planned ?p2 = insert k (planned p)" by (auto simp: planned_def)
    have dd: "distinct (ep_inputs ?p1 @ ep_external ?p1)" "distinct (ep_inputs ?p2 @ ep_external ?p2)"
      using d old(2) by (auto simp: planned_def)
    note a1 = plan_add [OF c(2) assms(8) old(2) assms(13) new c(5) [OF 4(2)] pl(1) dd(1)]
    note a2 = plan_add [OF c(2) assms(8) old(2) assms(13) new c(5) [OF 4(2)] pl(2) dd(2)]
    have "loop_post sz r computed n csize (continue (?p1, MMCache c'))"
      using a1 c(3,6) pl(1) old(1) assms(7) by (intro go) auto
    moreover have "loop_post sz r computed n csize (continue (?p2, MMCache c'))"
      using a2 c(3,6) pl(2) old(1) assms(7) by (intro go) auto
    ultimately show ?thesis using 4 c(1) assms(7) xy ok(2) by (auto simp: schedule_input_def Let_def)
  qed
qed

lemma encoder_loop_spec:
  assumes "mm_shaped r" and "mm_sized sz r" and "shift = 0 \<or> shift = 1" and "0 < n"
    and "plan_ok sz r p c" and "ec_cache_size c = csize" and "ep_num_new_tokens p = n" and "k \<le> length (mm_features r)"
    and "\<forall>i\<in>planned p. i < k" and "\<forall>j<k. needs computed n (mm_features r ! j) \<longrightarrow> covered r p c (mm_features r ! j)"
  shows "loop_post sz r computed n csize
    (encoder_loop False disable has_item r computed shift (enumerate k (drop k (mm_features r))) (p, MMCache c))"
  using assms(5-10)
proof (induction "length (mm_features r) - k" arbitrary: k p c)
  case 0
  then have "k = length (mm_features r)" by simp
  then show ?case using 0 assms(4) by (auto simp: loop_post_def in_set_conv_nth)
next
  case (Suc d)
  then have k: "k < length (mm_features r)" by simp
  let ?f = "mm_features r ! k"
  have fs: "enumerate k (drop k (mm_features r)) = (k, ?f) # enumerate (Suc k) (drop (Suc k) (mm_features r))"
    using k by (simp add: Cons_nth_drop_Suc [symmetric])
  note IH = Suc.hyps(1) [of "Suc k"]
  have ok: "feature_ok ?f" using assms(1) k by (simp add: mm_shaped_def)
  have go: "loop_post sz r computed n csize (encoder_loop False disable has_item r computed shift
      (enumerate (Suc k) (drop (Suc k) (mm_features r))) (p', MMCache c'))"
    if "plan_ok sz r p' c'" "ec_cache_size c' = csize" "ep_num_new_tokens p' = n" "\<forall>i\<in>planned p'. i < Suc k"
      "\<And>f. covered r p c f \<Longrightarrow> covered r p' c' f" "needs computed n ?f \<Longrightarrow> covered r p' c' ?f" for p' c'
    using Suc.hyps(2) that Suc.prems(6) k by (intro IH) (auto simp: less_Suc_eq)
  have old: "\<forall>i\<in>planned p. i < Suc k" using Suc.prems(5) by (simp add: less_Suc_eq)
  consider "mm_offset ?f \<ge> computed + n + shift" | "mm_offset ?f < computed + n + shift" "mm_offset ?f + mm_length ?f \<le> computed"
    | "mm_offset ?f < computed + n + shift" "computed < mm_offset ?f + mm_length ?f" by linarith
  then show ?case
  proof cases
    case 1
    then have "loop_post sz r computed n csize (Inr (p\<lparr>ep_num_new_tokens := n\<rparr>, MMCache c))"
      using Suc.prems(1,2,6) assms(1,3,4) k by (intro loop_stop [where k = k]) auto
    moreover have "p\<lparr>ep_num_new_tokens := n\<rparr> = p" using Suc.prems(3) by simp
    ultimately show ?thesis using 1 Suc.prems(3) by (simp add: fs Let_def)
  next
    case 2
    then have "\<not> needs computed n ?f" by (simp add: needs_def)
    then show ?thesis using 2 go [of p c] old Suc.prems(1-3) by (simp add: fs Let_def)
  next
    case 3
    show ?thesis
    proof (cases "mm_identifier ?f \<in> ep_hashes p")
      case True
      then have "covered r p c ?f" by (simp add: covered_def)
      then show ?thesis using 3 True go [of p c] old Suc.prems(1-3) by (simp add: fs Let_def)
    next
      case False
      obtain b c1 where c1: "em_check_and_update_cache r (int k) (MMCache c) = Inr (b, MMCache c1)" "plan_ok sz r p c1"
        "ec_cache_size c1 = csize" "b \<longrightarrow> covered r p c1 ?f" "\<not> b \<longrightarrow> ident r k \<notin> dom (refs_of c1)"
        "\<And>f. covered r p c f \<Longrightarrow> covered r p c1 f"
        using plan_check [OF Suc.prems(1) k] Suc.prems(2) by blast
      have eq: "encoder_loop False disable has_item r computed shift (enumerate k (drop k (mm_features r))) (p, MMCache c) =
        (if b then encoder_loop False disable has_item r computed shift (enumerate (Suc k) (drop (Suc k) (mm_features r))) (p, MMCache c1)
         else schedule_input disable has_item r computed shift k ?f
           (encoder_loop False disable has_item r computed shift (enumerate (Suc k) (drop (Suc k) (mm_features r)))) (p, MMCache c1))"
        using 3 False c1(1) Suc.prems(3) by (simp add: fs Let_def)
      show ?thesis
      proof (cases b)
        case True
        then show ?thesis using eq go [of p c1] c1 old Suc.prems(3) by simp
      next
        case no: False
        have "loop_post sz r computed n csize (schedule_input disable has_item r computed shift k ?f
           (encoder_loop False disable has_item r computed shift (enumerate (Suc k) (drop (Suc k) (mm_features r)))) (p, MMCache c1))"
          using assms(1-4) Suc.prems(3,5,6) False no c1 3 k old by (intro schedule_input_spec go) blast+
        then show ?thesis using eq no by simp
      qed
    qed
  qed
qed

lemma allocate_all:
  assumes "ec_inv sz c" and "mm_sized sz r" and "distinct (map (ident r) is)"
    and "\<forall>i\<in>set is. i < length (mm_features r) \<and> refs_of c (ident r i) = None"
    and "sum_list (map (\<lambda>i. sz (ident r i)) is) \<le> ec_num_free_slots c"
  shows "\<exists>c'. fold_res (\<lambda>i. em_allocate r (int i)) is (MMCache c) = Inr (MMCache c') \<and> ec_inv sz c' \<and>
    ec_cache_size c' = ec_cache_size c \<and> (\<forall>i\<in>set is. refs_of c' (ident r i) = Some {request_id r}) \<and>
    (\<forall>h. h \<notin> ident r ` set is \<longrightarrow> refs_of c' h = refs_of c h)"
  using assms
proof (induction "is" arbitrary: c)
  case (Cons i "is")
  have nn: "0 \<le> sum_list (map (\<lambda>i. sz (ident r i)) is)"
    using Cons.prems(1) by (intro sum_list_nonneg) (auto simp: ec_inv_def)
  obtain c1 where c1: "ec_allocate r (int i) c = Inr c1" "ec_inv sz c1" "ec_cache_size c1 = ec_cache_size c"
    "refs_of c1 = (refs_of c)(ident r i \<mapsto> {request_id r})" "ec_num_free_slots c1 = ec_num_free_slots c - sz (ident r i)"
    using ec_allocate_spec [OF Cons.prems(1,2), of i] Cons.prems(4,5) nn by (auto simp: domIff)
  have "\<forall>j\<in>set is. j < length (mm_features r) \<and> refs_of c1 (ident r j) = None"
    using Cons.prems(3,4) c1(4) by (auto simp: image_iff)
  from Cons.IH [OF c1(2) Cons.prems(2) _ this] Cons.prems(3,5) c1(5)
  obtain c' where c': "fold_res (\<lambda>i. em_allocate r (int i)) is (MMCache c1) = Inr (MMCache c')" "ec_inv sz c'"
    "ec_cache_size c' = ec_cache_size c1" "\<forall>i\<in>set is. refs_of c' (ident r i) = Some {request_id r}"
    "\<forall>h. h \<notin> ident r ` set is \<longrightarrow> refs_of c' h = refs_of c1 h" by auto
  have "refs_of c' (ident r i) = Some {request_id r}"
    using c'(5) c1(4) Cons.prems(3) by (simp add: image_iff)
  moreover have "em_allocate r (int i) (MMCache c) = Inr (MMCache c1)" using c1(1) by (simp add: em_allocate_def)
  ultimately show ?case using c' c1(3,4) by simp
qed simp

lemma try_schedule_spec:
  assumes "mm_shaped r" and "mm_sized sz r" and "shift = 0 \<or> shift = 1" and "0 \<le> n" and "ec_inv sz c"
  shows "\<exists>inputs n' b' external c' c''.
    try_schedule_encoder_inputs False disable has_item r computed n budget shift (MMCache c) =
      Inr ((inputs, n', b', external), MMCache c') \<and> ec_inv sz c' \<and> ec_cache_size c' = ec_cache_size c \<and> 0 \<le> n' \<and> n' \<le> n \<and>
    fold_res (\<lambda>i. em_allocate r (int i)) (inputs @ external) (MMCache c') = Inr (MMCache c'') \<and> ec_inv sz c'' \<and>
    ec_cache_size c'' = ec_cache_size c \<and>
    (0 < n' \<longrightarrow> (\<exists>hs. gather_mm_hashes computed 0 n' (mm_features r) = Inr hs \<and>
      (\<forall>h\<in>set hs. \<exists>refs. refs_of c'' h = Some refs \<and> request_id r \<in> refs)))"
proof (cases "n = 0 \<or> \<not> has_encoder_inputs r")
  case True
  then have "0 < n \<Longrightarrow> mm_features r = []" by (auto simp: has_encoder_inputs_def num_encoder_inputs_def)
  then show ?thesis using True assms(4,5) by (auto simp: try_schedule_encoder_inputs_def gather_mm_hashes_def)
next
  case False
  let ?p = "\<lparr>ep_inputs = [], ep_num_new_tokens = n, ep_budget = budget, ep_external = [], ep_hashes = {}, ep_num_embeds = 0\<rparr>"
  have "plan_ok sz r ?p c" using assms(5) ec_invD(5) [OF assms(5)] by (simp add: plan_ok_def planned_def)
  then have "loop_post sz r computed n (ec_cache_size c)
    (encoder_loop False disable has_item r computed shift (enumerate 0 (mm_features r)) (?p, MMCache c))"
    using encoder_loop_spec [of r sz shift n ?p c "ec_cache_size c" 0] assms False by (simp add: planned_def)
  then obtain p c' where p: "encoder_loop False disable has_item r computed shift (enumerate 0 (mm_features r)) (?p, MMCache c) =
      Inr (p, MMCache c')" "plan_ok sz r p c'" "ec_cache_size c' = ec_cache_size c"
    "0 \<le> ep_num_new_tokens p" "ep_num_new_tokens p \<le> n"
    "0 < ep_num_new_tokens p \<longrightarrow> (\<forall>f\<in>set (mm_features r). needs computed (ep_num_new_tokens p) f \<longrightarrow> covered r p c' f)"
    by (auto simp: loop_post_def)
  let ?is = "ep_inputs p @ ep_external p"
  have P: "ec_inv sz c'" "distinct ?is" "\<forall>i\<in>set ?is. i < length (mm_features r)" "inj_on (ident r) (set ?is)"
    "ep_hashes p = ident r ` set ?is" "\<forall>h\<in>ep_hashes p. refs_of c' h = None" "ep_num_embeds p = sum sz (ep_hashes p)"
    "ep_num_embeds p \<le> ec_num_free_slots c'"
    using p(2) unfolding plan_ok_def planned_def by blast+
  have "sum_list (map (\<lambda>i. sz (ident r i)) ?is) = sum sz (ep_hashes p)"
    using sum.reindex [OF P(4), of sz] P(2,5) sum_list_distinct_conv_sum_set [OF P(2), of "\<lambda>i. sz (ident r i)"] by (simp add: o_def)
  then have fits: "sum_list (map (\<lambda>i. sz (ident r i)) ?is) \<le> ec_num_free_slots c'" using P(7,8) by linarith
  have "distinct (map (ident r) ?is)" using P(2,4) by (simp only: distinct_map simp_thms)
  moreover have "\<forall>i\<in>set ?is. i < length (mm_features r) \<and> refs_of c' (ident r i) = None" using P(3,5,6) by blast
  ultimately obtain c'' where c'': "fold_res (\<lambda>i. em_allocate r (int i)) ?is (MMCache c') = Inr (MMCache c'')" "ec_inv sz c''"
    "ec_cache_size c'' = ec_cache_size c'" "\<forall>i\<in>set ?is. refs_of c'' (ident r i) = Some {request_id r}"
    "\<forall>h. h \<notin> ident r ` set ?is \<longrightarrow> refs_of c'' h = refs_of c' h"
    using allocate_all [OF P(1) assms(2) _ _ fits] by blast
  have cov: "covered r p c' f \<Longrightarrow> \<exists>refs. refs_of c'' (mm_identifier f) = Some refs \<and> request_id r \<in> refs" for f
    using c''(4,5) P(5) unfolding covered_def by (cases "mm_identifier f \<in> ident r ` set ?is") auto
  have "\<exists>hs. gather_mm_hashes computed 0 (ep_num_new_tokens p) (mm_features r) = Inr hs \<and>
      (\<forall>h\<in>set hs. \<exists>refs. refs_of c'' h = Some refs \<and> request_id r \<in> refs)" if "0 < ep_num_new_tokens p"
    using gather_reads_needs [OF that, of "mm_features r" computed] assms(1) p(6) that cov
    by (fastforce simp: gather_mm_hashes_def mm_shaped_def)
  then show ?thesis using p(1,3-5) P(1) c''(1-3) False by (simp add: try_schedule_encoder_inputs_def)
qed

section \<open>Properties of the encoder cache\<close>

text \<open>
  The states of a cache driven by a scheduler: a plan may be dropped (no memory for the request) or
  carried out, inputs are freed one by one or with their request, evictions are reported.
\<close>

inductive ec_reach :: "(string \<Rightarrow> int) \<Rightarrow> encoder_cache \<Rightarrow> bool" for sz where
  ec_new: "0 \<le> n \<Longrightarrow> (\<And>h. 0 \<le> sz h) \<Longrightarrow> ec_reach sz (EncoderCacheManager n)"
| ec_plan: "ec_reach sz c \<Longrightarrow> mm_shaped r \<Longrightarrow> mm_sized sz r \<Longrightarrow> shift = 0 \<or> shift = 1 \<Longrightarrow> 0 \<le> n \<Longrightarrow>
    try_schedule_encoder_inputs False disable has_item r computed n budget shift (MMCache c) = Inr (plan, MMCache c') \<Longrightarrow>
    ec_reach sz c'"
| ec_carry_out: "ec_reach sz c \<Longrightarrow> mm_shaped r \<Longrightarrow> mm_sized sz r \<Longrightarrow> shift = 0 \<or> shift = 1 \<Longrightarrow> 0 \<le> n \<Longrightarrow>
    try_schedule_encoder_inputs False disable has_item r computed n budget shift (MMCache c) =
      Inr ((inputs, n', b', external), MMCache c') \<Longrightarrow>
    fold_res (\<lambda>i. em_allocate r (int i)) (inputs @ external) (MMCache c') = Inr (MMCache c'') \<Longrightarrow> ec_reach sz c''"
| ec_free_one: "ec_reach sz c \<Longrightarrow> mm_sized sz r \<Longrightarrow> i < length (mm_features r) \<Longrightarrow>
    ec_free_encoder_input r (int i) c = Inr c' \<Longrightarrow> ec_reach sz c'"
| ec_free_request: "ec_reach sz c \<Longrightarrow> mm_sized sz r \<Longrightarrow> ec_free r c = Inr c' \<Longrightarrow> ec_reach sz c'"
| ec_take: "ec_reach sz c \<Longrightarrow> ec_reach sz (snd (ec_get_freed_mm_hashes c))"
| ec_restart: "ec_reach sz c \<Longrightarrow> ec_reach sz (ec_reset c)"

lemma ec_reach_inv: "ec_reach sz c \<Longrightarrow> ec_inv sz c \<and> 0 \<le> ec_cache_size c"
proof (induction rule: ec_reach.induct)
  case (ec_plan c r shift n disable has_item computed budget plan c')
  then show ?case using try_schedule_spec [of r sz shift n c disable has_item computed budget] by auto
next
  case (ec_carry_out c r shift n disable has_item computed budget inputs n' b' external c' c'')
  then show ?case using try_schedule_spec [of r sz shift n c disable has_item computed budget] by auto
next
  case (ec_free_one c r i c')
  then show ?case using ec_free_input_spec [of sz c r i] by auto
next
  case (ec_free_request c r c')
  then show ?case using ec_free_inv [of sz c r] by auto
qed (auto simp: ec_inv_def EncoderCacheManager_def ec_get_freed_mm_hashes_def ec_reset_def)

text \<open>
  C13: in every reachable state of the encoder cache the free slots are the capacity less the embeddings
  of all cached outputs, the reclaimable slots add exactly the outputs no request references, and
  neither count is negative or above the capacity.
\<close>

theorem encoder_cache_accounting:
  assumes "ec_reach sz c"
  shows "ec_num_free_slots c = ec_cache_size c - sum sz (dom (map_of (ec_cached c))) \<and>
    set (ec_freeable c) = {(h, sz h) | h. map_of (ec_cached c) h = Some {}} \<and>
    ec_num_freeable_slots c = ec_num_free_slots c + sum_list (map snd (ec_freeable c)) \<and>
    0 \<le> ec_num_free_slots c \<and> ec_num_free_slots c \<le> ec_num_freeable_slots c \<and>
    ec_num_freeable_slots c \<le> ec_cache_size c"
proof -
  have inv: "ec_inv sz c" using ec_reach_inv [OF assms] by simp
  note D = ec_invD [OF inv]
  have fs: "set (ec_freeable c) = {(h, sz h) | h. refs_of c h = Some {}}"
    using D(1,2) by (auto simp: map_of_eq_Some_iff split: if_splits) (metis map_of_eq_Some_iff option.inject option.distinct(1))+
  then have "fst ` set (ec_freeable c) \<subseteq> dom (refs_of c)" by auto
  have "map snd (ec_freeable c) = map sz (keys (ec_freeable c))" using fs by auto
  then have "sum_list (map snd (ec_freeable c)) = sum_list (map sz (keys (ec_freeable c)))" by (rule arg_cong)
  also have "\<dots> = sum sz (set (keys (ec_freeable c)))" using D(1) by (rule sum_list_distinct_conv_sum_set)
  also have "\<dots> \<le> sum sz (dom (refs_of c))"
    using \<open>fst ` set (ec_freeable c) \<subseteq> dom (refs_of c)\<close> D(6) by (intro sum_mono2) (auto simp: finite_dom_map_of)
  finally show ?thesis using D(3-5) fs ec_nonneg_freeable [OF inv] by auto
qed

text \<open>
  C12: planning the encoder work of a request never fails and never schedules more tokens than asked
  for; the planned outputs always fit, so carrying the plan out passes every assertion, and afterwards
  every encoder output the model runner gathers for the scheduled tokens is in the cache and
  referenced by the request.
\<close>

theorem encoder_inputs_available:
  assumes "ec_reach sz c" and "mm_shaped r" and "mm_sized sz r" and "shift = 0 \<or> shift = 1" and "0 \<le> n"
  shows "\<exists>inputs n' b' external c' c''.
    try_schedule_encoder_inputs False disable has_item r computed n budget shift (MMCache c) =
      Inr ((inputs, n', b', external), MMCache c') \<and> 0 \<le> n' \<and> n' \<le> n \<and>
    fold_res (\<lambda>i. em_allocate r (int i)) (inputs @ external) (MMCache c') = Inr (MMCache c'') \<and>
    (0 < n' \<longrightarrow> (\<exists>hs. gather_mm_hashes computed 0 n' (mm_features r) = Inr hs \<and>
      (\<forall>h\<in>set hs. \<exists>refs. map_of (ec_cached c'') h = Some refs \<and> request_id r \<in> refs)))"
  using try_schedule_spec [OF assms(2-5), of c disable has_item computed budget] ec_reach_inv [OF assms(1)] by blast

text \<open>A request whose prompt has an image of two tokens at the given position.\<close>

definition image_request :: "int \<Rightarrow> request" where
  "image_request pos = (base_request ''r'' [1, 2, 3, 4, 5, 6])\<lparr>mm_features :=
     [\<lparr>modality = ''image'', mm_identifier = ''img'', mm_offset = pos, mm_length = 2, is_embed = None\<rparr>]\<rparr>"

lemma image_request_ok: "mm_shaped (image_request pos)" "mm_sized (\<lambda>_. 2) (image_request pos)"
  by (simp_all add: mm_shaped_def mm_sized_def image_request_def feature_ok_def get_num_embeds_def)

theorem encoder_cache_accounting_witness:
  "ec_num_free_slots (ec_reset (EncoderCacheManager 8)) = 8 - sum (\<lambda>_. 2) (dom (map_of (ec_cached (ec_reset (EncoderCacheManager 8)))))"
  using encoder_cache_accounting [OF ec_restart [OF ec_new [of 8 "\<lambda>_. 2"]]]
  by (simp add: ec_reset_def EncoderCacheManager_def)

theorem encoder_inputs_available_witness:
  "\<exists>inputs n' b' external c' c''. try_schedule_encoder_inputs False False (\<lambda>_. False) (image_request 3) 0 6 9 0 (MMCache (EncoderCacheManager 8)) =
     Inr ((inputs, n', b', external), MMCache c') \<and> n' \<le> 6 \<and>
     fold_res (\<lambda>i. em_allocate (image_request 3) (int i)) (inputs @ external) (MMCache c') = Inr (MMCache c'')"
  using encoder_inputs_available [OF ec_new [of 8 "\<lambda>_. 2"] image_request_ok [of 3], of 0 6 False "\<lambda>_. False" 0 9] by auto


text \<open>
  C35: the cache manager of encoder-decoder models gives the slots of a request back again in every
  step: after \<open>k\<close> steps of a request past its first token the free slots have grown by \<open>k\<close> times its
  embeddings, without bound, so the capacity check is void.
\<close>

theorem encdec_free_slots_grow:
  assumes "num_computed_tokens r > 0"
  shows "fold_res (\<lambda>_. free_encoder_inputs True r) [0..<k] (EncDecCache d) =
    Inr (EncDecCache (d\<lparr>ed_num_free_slots := ed_num_free_slots d + int k * sum_list (map get_num_embeds (mm_features r))\<rparr>))"
proof -
  let ?S = "sum_list (map get_num_embeds (mm_features r))"
  have one: "fold_res (\<lambda>i. em_free_encoder_input r (int i)) [0..<m] (EncDecCache d) =
      Inr (EncDecCache (d\<lparr>ed_num_free_slots := ed_num_free_slots d + sum_list (map get_num_embeds (take m (mm_features r)))\<rparr>))"
    if "m \<le> length (mm_features r)" for m d
    using that
  proof (induction m)
    case (Suc m)
    have "em_free_encoder_input r (int m) (EncDecCache d) =
        Inr (EncDecCache (d\<lparr>ed_num_free_slots := ed_num_free_slots d + get_num_embeds (mm_features r ! m)\<rparr>))" for d
      using Suc.prems by (simp add: em_free_encoder_input_def ed_free_encoder_input_def get_num_encoder_embeds_def py_index_nat)
    then show ?case using Suc by (simp add: fold_res_append take_Suc_conv_app_nth)
  qed simp
  have "fold_res (\<lambda>i m. and_then (py_index (mm_features r) (int i)) (\<lambda>f. em_free_encoder_input r (int i) m)) is m =
      fold_res (\<lambda>i. em_free_encoder_input r (int i)) is m" if "\<forall>i\<in>set is. i < length (mm_features r)" for "is" m
    using that
  proof (induction "is" arbitrary: m)
    case (Cons i "is")
    then show ?case by (cases "em_free_encoder_input r (int i) m") (simp_all add: py_index_nat)
  qed simp
  then have step: "free_encoder_inputs True r (EncDecCache d) =
      Inr (EncDecCache (d\<lparr>ed_num_free_slots := ed_num_free_slots d + ?S\<rparr>))" for d
    using assms one [of "length (mm_features r)" d]
    by (simp add: free_encoder_inputs_def em_get_cached_input_ids_def ed_get_cached_input_ids_def)
  show ?thesis
    by (induction k) (simp_all add: fold_res_append step algebra_simps)
qed

theorem encdec_free_slots_grow_witness:
  "\<exists>d. fold_res (\<lambda>_. free_encoder_inputs True ((image_request 0)\<lparr>num_computed_tokens := 1\<rparr>)) [0..<5]
     (EncDecCache (EncoderDecoderCacheManager 8)) = Inr (EncDecCache d) \<and> ed_cache_size d < ed_num_free_slots d"
  using encdec_free_slots_grow [of "(image_request 0)\<lparr>num_computed_tokens := 1\<rparr>" 5 "EncoderDecoderCacheManager 8"]
  by (simp add: image_request_def get_num_embeds_def EncoderDecoderCacheManager_def)

end
