(* ===== verification/Scheduler.thy ===== *)
theory Scheduler
  imports KV_System Sched_Output Request_Queue Encoder_Cache
begin

text \<open>
  The state of the scheduler, \<^verbatim>\<open>vllm/v1/core/sched/scheduler.py\<close>, and the life cycle of requests outside
  a scheduling step: arrival, streaming sessions, preemption, finishing, freeing, and the promotion of
  blocked requests.

  Python shares the \<^verbatim>\<open>Request\<close> objects between the dictionary \<^verbatim>\<open>requests\<close> and the queues; here the
  dictionary holds the requests and the queues hold their ids. The KV connector, the encoder-cache
  connector and the grammar backend are other components: what they answer in a step is the record
  \<open>sched_env\<close>. Statistics, events for tracing and the routed-experts buffer are left out.
\<close>

section \<open>Configuration, environment and state\<close>

datatype pause_state = UNPAUSED | PAUSED_NEW | PAUSED_ALL

record sched_config =
  cfg_policy :: scheduling_policy
  cfg_max_num_running_reqs :: nat
  cfg_max_num_scheduled_tokens :: int
  cfg_max_model_len :: int
  cfg_long_prefill_token_threshold :: int
  cfg_enable_chunked_prefill :: bool
  cfg_reserve_full_isl :: bool
  cfg_use_eagle :: bool
  cfg_num_spec_tokens :: nat
  cfg_num_lookahead_tokens :: int
  cfg_need_mamba_split :: bool
  cfg_cache_block_size :: int
  cfg_max_num_encoder_input_tokens :: int
  cfg_disable_chunked_mm_input :: bool
  cfg_is_encoder_decoder :: bool
  cfg_max_loras :: "nat option"
  cfg_use_pp :: bool
  cfg_async_scheduling :: bool
  cfg_use_v2_model_runner :: bool
  cfg_needs_kv_cache_zeroing :: bool
  cfg_block_size :: int
  cfg_recompute_kv_load_failures :: bool

text \<open>
  \<open>en_matched\<close> is \<^verbatim>\<open>get_num_new_matched_tokens\<close>, \<open>en_delay_free\<close> the first result of \<^verbatim>\<open>request_finished\<close>,
  \<open>en_hma\<close> whether the connector supports several groups; \<open>en_ec_item\<close> is \<^verbatim>\<open>has_cache_item\<close>.
\<close>

record sched_env =
  en_hash :: hash_env
  en_hasher :: block_hasher
  en_connector :: bool
  en_hma :: bool
  en_matched :: "request \<Rightarrow> int \<Rightarrow> int option \<times> bool"
  en_delay_free :: "request \<Rightarrow> int list list \<Rightarrow> bool"
  en_ec_item :: "string \<Rightarrow> bool"
  en_should_advance :: "request \<Rightarrow> bool"
  en_validate_tokens :: "request \<Rightarrow> int list \<Rightarrow> int list"

record scheduler =
  sc_requests :: "(string \<times> request) list"
  sc_waiting :: "string rqueue"
  sc_skipped_waiting :: "string rqueue"
  sc_running :: "string list"
  sc_finished_req_ids :: "string set"
  sc_finished_req_ids_dict :: "(int \<times> string set) list option"
  sc_prev_step_scheduled :: "string set"
  sc_num_waiting_for_streaming_input :: int
  sc_finished_recving :: "string set"
  sc_failed_recving :: "string set"
  sc_encoder :: encoder_manager
  sc_kv :: kv_manager
  sc_pause_state :: pause_state

definition init_scheduler :: "sched_config \<Rightarrow> bool \<Rightarrow> int \<Rightarrow> kv_manager \<Rightarrow> scheduler" where
  "init_scheduler cfg include_finished_set encoder_cache_size k =
     \<lparr>sc_requests = [], sc_waiting = create_request_queue (cfg_policy cfg),
      sc_skipped_waiting = create_request_queue (cfg_policy cfg), sc_running = [], sc_finished_req_ids = {},
      sc_finished_req_ids_dict = (if include_finished_set then Some [] else None), sc_prev_step_scheduled = {},
      sc_num_waiting_for_streaming_input = 0, sc_finished_recving = {}, sc_failed_recving = {},
      sc_encoder = (if cfg_is_encoder_decoder cfg then EncDecCache (EncoderDecoderCacheManager encoder_cache_size)
                    else MMCache (EncoderCacheManager encoder_cache_size)),
      sc_kv = k, sc_pause_state = UNPAUSED\<rparr>"

abbreviation req_lt :: "scheduler \<Rightarrow> string \<Rightarrow> string \<Rightarrow> bool" where
  "req_lt s \<equiv> id_lt (sc_requests s)"

definition get_req :: "string \<Rightarrow> scheduler \<Rightarrow> request res" where
  "get_req rid s = of_option KeyError (map_of (sc_requests s) rid)"

text \<open>A write to a request object that the dictionary holds.\<close>

definition put_req :: "request \<Rightarrow> scheduler \<Rightarrow> scheduler" where
  "put_req r s = s\<lparr>sc_requests := AList.update (request_id r) r (sc_requests s)\<rparr>"

section \<open>Queues\<close>

definition is_blocked_waiting_status :: "request_status \<Rightarrow> bool" where
  "is_blocked_waiting_status st \<longleftrightarrow>
     st \<in> {WAITING_FOR_STRUCTURED_OUTPUT_GRAMMAR, WAITING_FOR_REMOTE_KVS, WAITING_FOR_STREAMING_REQ}"

definition enqueue_waiting_request :: "request \<Rightarrow> scheduler \<Rightarrow> scheduler" where
  "enqueue_waiting_request r s =
     (if is_blocked_waiting_status (status r)
      then s\<lparr>sc_skipped_waiting := rq_add (req_lt s) (request_id r) (sc_skipped_waiting s)\<rparr>
      else s\<lparr>sc_waiting := rq_add (req_lt s) (request_id r) (sc_waiting s)\<rparr>)"

datatype waiting_queue = WaitingQ | SkippedQ

definition select_waiting_queue :: "sched_config \<Rightarrow> scheduler \<Rightarrow> waiting_queue option res" where
  "select_waiting_queue cfg s =
     (let w = rq_len (sc_waiting s) > 0; sk = rq_len (sc_skipped_waiting s) > 0
      in if cfg_policy cfg = FCFS
         then Inr (if sk then Some SkippedQ else if w then Some WaitingQ else None)
         else if w \<and> sk
         then and_then (rq_peek (sc_waiting s)) (\<lambda>a. and_then (rq_peek (sc_skipped_waiting s)) (\<lambda>b.
                Inr (Some (if req_lt s a b then WaitingQ else SkippedQ))))
         else Inr (if w then Some WaitingQ else if sk then Some SkippedQ else None))"

definition queue_of :: "waiting_queue \<Rightarrow> scheduler \<Rightarrow> string rqueue" where
  "queue_of w s = (case w of WaitingQ \<Rightarrow> sc_waiting s | SkippedQ \<Rightarrow> sc_skipped_waiting s)"

definition set_queue :: "waiting_queue \<Rightarrow> string rqueue \<Rightarrow> scheduler \<Rightarrow> scheduler" where
  "set_queue w q s = (case w of WaitingQ \<Rightarrow> s\<lparr>sc_waiting := q\<rparr> | SkippedQ \<Rightarrow> s\<lparr>sc_skipped_waiting := q\<rparr>)"

definition pop_queue :: "waiting_queue \<Rightarrow> scheduler \<Rightarrow> (string \<times> scheduler) res" where
  "pop_queue w s = and_then (rq_pop (req_lt s) (queue_of w s)) (\<lambda>(rid, q). Inr (rid, set_queue w q s))"

section \<open>Preemption and freeing\<close>

definition preempt_request :: "string \<Rightarrow> scheduler \<Rightarrow> scheduler res" where
  "preempt_request rid s =
     and_then (get_req rid s) (\<lambda>r.
     and_then (py_assert (status r = RUNNING)) (\<lambda>_.
     and_then (kv_free r (sc_kv s)) (\<lambda>k.
     and_then (em_free r (sc_encoder s)) (\<lambda>e.
       let s1 = put_req (r\<lparr>status := PREEMPTED, num_computed_tokens := 0, spec_token_ids := [],
                           num_preemptions := num_preemptions r + 1\<rparr>) (s\<lparr>sc_kv := k, sc_encoder := e\<rparr>)
       in Inr (s1\<lparr>sc_waiting := rq_prepend (req_lt s1) rid (sc_waiting s1)\<rparr>)))))"

definition connector_finished :: "sched_env \<Rightarrow> request \<Rightarrow> scheduler \<Rightarrow> (bool \<times> scheduler) res" where
  "connector_finished env r s =
     (if \<not> en_connector env then Inr (False, s)
      else and_then (kv_remove_skipped_blocks (request_id r) (num_tokens r) (sc_kv s)) (\<lambda>k.
        let block_ids = kv_get_block_ids (request_id r) k
        in and_then (py_assert (en_hma env \<or> num_kv_cache_groups k = 1)) (\<lambda>_.
             Inr (en_delay_free env r block_ids, s\<lparr>sc_kv := k\<rparr>))))"

definition free_blocks_of :: "request \<Rightarrow> scheduler \<Rightarrow> scheduler res" where
  "free_blocks_of r s =
     and_then (py_assert (is_finished r)) (\<lambda>_.
     and_then (kv_free r (sc_kv s)) (\<lambda>k.
       if request_id r \<in> fst ` set (sc_requests s)
       then Inr (s\<lparr>sc_kv := k, sc_requests := AList.delete (request_id r) (sc_requests s)\<rparr>)
       else Inl KeyError))"

definition free_request :: "sched_env \<Rightarrow> bool \<Rightarrow> request \<Rightarrow> scheduler \<Rightarrow> scheduler res" where
  "free_request env delay_free_blocks r s =
     and_then (py_assert (is_finished r)) (\<lambda>_.
     and_then (connector_finished env r s) (\<lambda>(connector_delay, s1).
     and_then (em_free r (sc_encoder s1)) (\<lambda>e.
       let s2 = s1\<lparr>sc_encoder := e, sc_finished_req_ids := insert (request_id r) (sc_finished_req_ids s1),
                   sc_finished_req_ids_dict := map_option (\<lambda>d. AList.update (client_index r)
                     (insert (request_id r) (dict_get d (client_index r) {})) d) (sc_finished_req_ids_dict s1)\<rparr>
       in if delay_free_blocks \<or> connector_delay then Inr s2 else free_blocks_of r s2)))"

section \<open>Finishing requests from outside\<close>

text \<open>
  The first pass: the requests that are alive, and the count of sessions waiting for input. The ids
  are those given, without duplicates, or all.
\<close>

fun collect_finished :: "string list \<Rightarrow> scheduler \<Rightarrow> request list \<times> scheduler" where
  "collect_finished [] s = ([], s)"
| "collect_finished (rid # rids) s =
     (case map_of (sc_requests s) rid of
        None \<Rightarrow> collect_finished rids s
      | Some r \<Rightarrow>
          if is_finished r then collect_finished rids s
          else let (rs, s') = collect_finished rids
                     (if status r = WAITING_FOR_STREAMING_REQ
                      then s\<lparr>sc_num_waiting_for_streaming_input := sc_num_waiting_for_streaming_input s - 1\<rparr> else s)
               in (r # rs, s'))"

text \<open>The second pass, one request.\<close>

definition finish_one :: "sched_env \<Rightarrow> request_status \<Rightarrow> request \<Rightarrow> scheduler \<Rightarrow> scheduler res" where
  "finish_one env finished_status r s =
     (let remote = status r = WAITING_FOR_REMOTE_KVS;
          delay = remote \<and> request_id r \<notin> sc_finished_recving s;
          s1 = (if remote then s\<lparr>sc_finished_recving := sc_finished_recving s - {request_id r},
                                 sc_failed_recving := sc_failed_recving s - {request_id r}\<rparr> else s);
          r1 = r\<lparr>status := finished_status\<rparr>
      in free_request env delay r1 (put_req r1 s1))"

definition finish_requests ::
  "sched_env \<Rightarrow> string list option \<Rightarrow> request_status \<Rightarrow> scheduler \<Rightarrow> ((string \<times> int) list \<times> scheduler) res" where
  "finish_requests env request_ids finished_status s =
     and_then (py_assert (status_is_finished finished_status)) (\<lambda>_.
       let (valid, s1) = collect_finished (case request_ids of None \<Rightarrow> keys (sc_requests s) | Some ids \<Rightarrow> remdups ids) s;
           run = set (map request_id (filter (\<lambda>r. status r = RUNNING) valid));
           wait = map request_id (filter (\<lambda>r. status r \<noteq> RUNNING) valid);
           s2 = (if run \<noteq> {} then s1\<lparr>sc_running := remove_all (sc_running s1) run\<rparr> else s1);
           s3 = (if wait \<noteq> []
                 then s2\<lparr>sc_waiting := rq_remove_requests (req_lt s2) wait (sc_waiting s2),
                         sc_skipped_waiting := rq_remove_requests (req_lt s2) wait (sc_skipped_waiting s2)\<rparr>
                 else s2)
       in and_then (fold_res (finish_one env finished_status) valid s3) (\<lambda>s4.
            Inr (map (\<lambda>r. (request_id r, client_index r)) valid, s4)))"

section \<open>Streaming sessions and arrival\<close>

text \<open>The next input chunk of a session; the last sampled, not yet computed token is dropped.\<close>

definition update_request_as_session ::
  "sched_env \<Rightarrow> request \<Rightarrow> streaming_update \<Rightarrow> scheduler \<Rightarrow> (request \<times> scheduler) res" where
  "update_request_as_session env session update s =
     (let ncomp = num_computed_tokens session;
          kept_output_tokens = py_slice (all_token_ids session) (num_prompt_tokens session) ncomp;
          all1 = py_upto (all_token_ids session) ncomp
      in and_then (of_option AssertionError (prompt_token_ids session)) (\<lambda>prompt.
         let prompt1 = prompt @ kept_output_tokens;
             new_features = map (\<lambda>f. f\<lparr>mm_offset := mm_offset f + int (length all1)\<rparr>)
               (case su_mm_features update of None \<Rightarrow> [] | Some fs \<Rightarrow> fs);
             toks = (case su_prompt_token_ids update of None \<Rightarrow> [] | Some ts \<Rightarrow> ts);
             r1 = session\<lparr>output_token_ids := [], all_token_ids := all1 @ toks, prompt_token_ids := Some (prompt1 @ toks),
                          mm_features := mm_features session @ new_features\<rparr>
         in and_then (update_block_hashes (en_hasher env) r1) (\<lambda>r2.
              let r3 = r2\<lparr>num_prompt_tokens := int (length (prompt1 @ toks)), arrival_time := su_arrival_time update,
                          sampling_params := su_sampling_params update, status := WAITING\<rparr>;
                  s1 = (if status session = WAITING_FOR_STREAMING_REQ
                        then s\<lparr>sc_num_waiting_for_streaming_input := sc_num_waiting_for_streaming_input s - 1\<rparr> else s)
              in Inr (r3, put_req r3 s1))))"

definition handle_stopped_request :: "sched_env \<Rightarrow> request \<Rightarrow> scheduler \<Rightarrow> (bool \<times> request \<times> scheduler) res" where
  "handle_stopped_request env r s =
     (if \<not> resumable r then Inr (True, r, s)
      else case streaming_queue r of
        Some (u # us) \<Rightarrow>
          (let r1 = r\<lparr>streaming_queue := Some us\<rparr>; s1 = put_req r1 s
           in case u of
                None \<Rightarrow> Inr (True, r1, s1)
              | Some update \<Rightarrow> and_then (update_request_as_session env r1 update s1)
                  (\<lambda>(r2, s2). Inr (False, r2, enqueue_waiting_request r2 s2)))
      | _ \<Rightarrow> (let r1 = r\<lparr>status := WAITING_FOR_STREAMING_REQ\<rparr>;
                 s1 = put_req r1 (s\<lparr>sc_num_waiting_for_streaming_input := sc_num_waiting_for_streaming_input s + 1\<rparr>)
             in Inr (False, r1, enqueue_waiting_request r1 s1)))"

definition add_request :: "sched_env \<Rightarrow> request \<Rightarrow> scheduler \<Rightarrow> scheduler res" where
  "add_request env r s =
     (case map_of (sc_requests s) (request_id r) of
        Some existing \<Rightarrow>
          if status existing \<noteq> WAITING_FOR_STREAMING_REQ
          then and_then (of_option AssertionError (streaming_queue existing)) (\<lambda>q.
                 Inr (put_req (existing\<lparr>streaming_queue := Some (q @ [from_request r])\<rparr>) s))
          else (case from_request r of
                  Some update \<Rightarrow> and_then (update_request_as_session env existing update s) (\<lambda>(_, s'). Inr s')
                | None \<Rightarrow> and_then (finish_requests env (Some [request_id r]) FINISHED_ABORTED s) (\<lambda>(_, s'). Inr s'))
      | None \<Rightarrow>
          let r1 = (if resumable r then r\<lparr>streaming_queue := Some []\<rparr> else r)
          in Inr (enqueue_waiting_request r1 (put_req r1 s)))"

section \<open>Promotion of blocked requests\<close>

definition update_waiting_for_remote_kv :: "sched_env \<Rightarrow> request \<Rightarrow> scheduler \<Rightarrow> (request \<times> scheduler) res" where
  "update_waiting_for_remote_kv env r s =
     and_then (py_assert (en_connector env)) (\<lambda>_.
     and_then
       (if request_id r \<in> sc_failed_recving s
        then and_then (if num_computed_tokens r \<noteq> 0
                       then kv_cache_blocks_op (en_hash env) r (num_computed_tokens r) (sc_kv s)
                       else and_then (kv_free r (sc_kv s)) (\<lambda>k. Inr (k, r)))
               (\<lambda>(k, r1). Inr (r1, s\<lparr>sc_kv := k, sc_failed_recving := sc_failed_recving s - {request_id r}\<rparr>))
        else and_then (kv_cache_blocks_op (en_hash env) r (num_computed_tokens r) (sc_kv s)) (\<lambda>(k, r1).
               let r2 = (if num_computed_tokens r1 = num_tokens r1 then r1\<lparr>num_computed_tokens := num_tokens r1 - 1\<rparr> else r1);
                   r3 = (if num_cached_tokens r2 < 0 then r2\<lparr>num_cached_tokens := num_computed_tokens r2\<rparr> else r2)
               in Inr (r3, s\<lparr>sc_kv := k\<rparr>)))
       (\<lambda>(r4, s1).
          if request_id r \<in> sc_finished_recving s1
          then Inr (r4, put_req r4 (s1\<lparr>sc_finished_recving := sc_finished_recving s1 - {request_id r}\<rparr>))
          else Inl KeyError))"

definition try_promote_blocked :: "sched_env \<Rightarrow> request \<Rightarrow> scheduler \<Rightarrow> (bool \<times> request \<times> scheduler) res" where
  "try_promote_blocked env r s =
     (case status r of
        WAITING_FOR_REMOTE_KVS \<Rightarrow>
          if request_id r \<notin> sc_finished_recving s then Inr (False, r, s)
          else and_then (update_waiting_for_remote_kv env r s) (\<lambda>(r1, s1).
                 let r2 = r1\<lparr>status := (if num_preemptions r1 \<noteq> 0 then PREEMPTED else WAITING)\<rparr>
                 in Inr (True, r2, put_req r2 s1))
      | WAITING_FOR_STRUCTURED_OUTPUT_GRAMMAR \<Rightarrow>
          (case structured_output_request r of
             Some so \<Rightarrow> if so_grammar so then let r1 = r\<lparr>status := WAITING\<rparr> in Inr (True, r1, put_req r1 s)
                        else Inr (False, r, s)
           | None \<Rightarrow> Inr (False, r, s))
      | WAITING_FOR_STREAMING_REQ \<Rightarrow>
          and_then (py_assert (case streaming_queue r of Some (_ # _) \<Rightarrow> False | _ \<Rightarrow> True)) (\<lambda>_. Inr (False, r, s))
      | _ \<Rightarrow> Inl AssertionError)"

section \<open>Counts and resets\<close>

definition get_request_counts :: "scheduler \<Rightarrow> nat \<times> nat" where
  "get_request_counts s = (length (sc_running s), rq_len (sc_waiting s) + rq_len (sc_skipped_waiting s))"

definition set_pause_state :: "pause_state \<Rightarrow> scheduler \<Rightarrow> scheduler" where
  "set_pause_state p s = s\<lparr>sc_pause_state := p\<rparr>"

definition get_num_unfinished_requests :: "scheduler \<Rightarrow> int" where
  "get_num_unfinished_requests s =
     (if sc_pause_state s = PAUSED_ALL then 0
      else if sc_pause_state s = PAUSED_NEW then int (length (sc_running s))
      else int (rq_len (sc_waiting s)) + int (rq_len (sc_skipped_waiting s)) - sc_num_waiting_for_streaming_input s
             + int (length (sc_running s)))"

definition has_finished_requests :: "scheduler \<Rightarrow> bool" where
  "has_finished_requests s \<longleftrightarrow> sc_finished_req_ids s \<noteq> {}"

text \<open>Preempts the running requests from the last to the first; \<open>rids\<close> is their reversed list.\<close>

definition force_preempt :: "string \<Rightarrow> scheduler \<Rightarrow> scheduler res" where
  "force_preempt rid s =
     and_then (preempt_request rid (s\<lparr>sc_running := butlast (sc_running s)\<rparr>)) (\<lambda>s1.
     and_then (get_req rid s1) (\<lambda>r.
       Inr (put_req (r\<lparr>num_output_placeholders := 0, discard_latest_async_tokens := True\<rparr>) s1)))"

definition sched_reset_prefix_cache :: "bool \<Rightarrow> bool option \<Rightarrow> scheduler \<Rightarrow> (bool \<times> scheduler) res" where
  "sched_reset_prefix_cache reset_running connector_reset s =
     and_then (if reset_running
               then and_then (fold_res force_preempt (rev (sc_running s)) s) (\<lambda>s1. Inr (s1\<lparr>sc_prev_step_scheduled := {}\<rparr>))
               else Inr s) (\<lambda>s1.
     and_then (kv_reset_prefix_cache (sc_kv s1)) (\<lambda>(ok, k).
       let s2 = s1\<lparr>sc_kv := k\<rparr>
       in if reset_running \<and> \<not> ok then Inl RuntimeError
          else Inr ((case connector_reset of None \<Rightarrow> ok | Some b \<Rightarrow> b \<and> ok), s2)))"

end
