(* ===== verification/Schedule.thy ===== *)
theory Schedule
  imports Scheduler
begin

text \<open>
  One scheduling step, \<^verbatim>\<open>Scheduler.schedule\<close>: running requests first, preempting others when the KV
  cache is full, then waiting requests, then the message to the workers. The local variables of the
  method are the record \<open>step\<close>. Loops that end because a list shrinks or an index grows carry a fuel
  argument, which the phases set to a bound on their iterations; running out of it is \<open>Diverges\<close>.
\<close>

section \<open>Local state of a step\<close>

record step =
  st_sched :: scheduler
  st_budget :: int
  st_encoder_budget :: int
  st_new_reqs :: "string list"
  st_resumed_reqs :: "string list"
  st_running_reqs :: "string list"
  st_preempted :: "string list"
  st_new_blocks :: "(string \<times> kv_cache_blocks) list"
  st_num_scheduled :: "(string \<times> int) list"
  st_encoder_inputs :: "(string \<times> nat list) list"
  st_spec_tokens :: "(string \<times> int list) list"

definition on_sched :: "(scheduler \<Rightarrow> scheduler) \<Rightarrow> step \<Rightarrow> step" where
  "on_sched f st = st\<lparr>st_sched := f (st_sched st)\<rparr>"

definition dict_pop :: "'k \<Rightarrow> ('k \<times> 'v) list \<Rightarrow> ('v \<times> ('k \<times> 'v) list) res" where
  "dict_pop k d = and_then (of_option KeyError (map_of d k)) (\<lambda>v. Inr (v, AList.delete k d))"

definition list_remove :: "'a \<Rightarrow> 'a list \<Rightarrow> 'a list res" where
  "list_remove x xs = (if x \<in> set xs then Inr (remove1 x xs) else Inl ValueError)"

section \<open>Sizes of chunks\<close>

definition mamba_block_aligned_split :: "sched_config \<Rightarrow> request \<Rightarrow> int \<Rightarrow> int \<Rightarrow> int \<Rightarrow> int res" where
  "mamba_block_aligned_split cfg r num_new num_local num_external =
     and_then (py_assert (num_external = 0)) (\<lambda>_.
       let ncomp = num_computed_tokens r + num_local + num_external
       in if ncomp < max (num_prompt_tokens r) (num_tokens r - 1)
          then let bs = cfg_cache_block_size cfg;
                   last0 = num_tokens r - num_tokens r mod bs;
                   last_pos = (if cfg_use_eagle cfg then max (last0 - bs) 0 else last0);
                   after = ncomp + num_new
               in Inr (if after < last_pos then num_new div bs * bs
                       else if ncomp < last_pos \<and> last_pos < after then last_pos - ncomp else num_new)
          else Inr num_new)"

section \<open>Running requests\<close>

text \<open>The lowest-priority running request: the first one with the largest priority and arrival time.\<close>

fun max_by :: "('a \<Rightarrow> 'k :: linorder) \<Rightarrow> 'a \<Rightarrow> 'a list \<Rightarrow> 'a" where
  "max_by f best [] = best"
| "max_by f best (x # xs) = max_by f (if f best < f x then x else best) xs"

definition lowest_priority :: "scheduler \<Rightarrow> string res" where
  "lowest_priority s =
     and_then (map_res (\<lambda>rid. and_then (get_req rid s) (\<lambda>r. Inr (rid, (priority r, arrival_time r)))) (sc_running s)) (\<lambda>rs.
       case rs of [] \<Rightarrow> Inl ValueError | x # xs \<Rightarrow> Inr (fst (max_by snd x xs)))"

text \<open>A scheduled request that is preempted gives back what it was given in this step.\<close>

definition unschedule :: "string \<Rightarrow> int \<times> step \<Rightarrow> (int \<times> step) res" where
  "unschedule rid ist = (case ist of (idx, st) \<Rightarrow>
     if rid \<notin> set (st_running_reqs st) then Inr (idx, st)
     else and_then (dict_pop rid (st_num_scheduled st)) (\<lambda>(n, num').
          and_then (dict_pop rid (st_new_blocks st)) (\<lambda>(_, blocks').
          and_then (get_req rid (st_sched st)) (\<lambda>r.
          and_then (map_res (\<lambda>i. get_num_encoder_embeds r (int i)) (dict_get (st_encoder_inputs st) rid [])) (\<lambda>ns.
            Inr (idx - 1, st\<lparr>st_running_reqs := remove1 rid (st_running_reqs st), st_num_scheduled := num',
                   st_budget := st_budget st + n, st_new_blocks := blocks',
                   st_spec_tokens := AList.delete rid (st_spec_tokens st),
                   st_encoder_inputs := AList.delete rid (st_encoder_inputs st),
                   st_encoder_budget := st_encoder_budget st + sum_list ns\<rparr>))))))"

definition pick_victim :: "sched_config \<Rightarrow> int \<times> step \<Rightarrow> (string \<times> int \<times> step) res" where
  "pick_victim cfg ist = (case ist of (idx, st) \<Rightarrow>
     if cfg_policy cfg = PRIORITY
     then and_then (lowest_priority (st_sched st)) (\<lambda>rid.
          and_then (list_remove rid (sc_running (st_sched st))) (\<lambda>run.
          and_then (unschedule rid (idx, on_sched (\<lambda>s. s\<lparr>sc_running := run\<rparr>) st)) (\<lambda>(idx', st'). Inr (rid, idx', st'))))
     else if sc_running (st_sched st) = [] then Inl IndexError
     else Inr (last (sc_running (st_sched st)), idx,
               on_sched (\<lambda>s. s\<lparr>sc_running := butlast (sc_running s)\<rparr>) st))"

fun allocate_or_preempt ::
  "sched_config \<Rightarrow> sched_env \<Rightarrow> nat \<Rightarrow> string \<Rightarrow> int \<Rightarrow> int \<times> step \<Rightarrow> (kv_cache_blocks option \<times> int \<times> step) res" where
  "allocate_or_preempt cfg env 0 rid num_new ist = Inl Diverges"
| "allocate_or_preempt cfg env (Suc fuel) rid num_new (idx, st) =
     and_then (get_req rid (st_sched st)) (\<lambda>r.
     and_then (allocate_slots (en_hash env) r num_new 0 None (cfg_num_lookahead_tokens cfg) 0 False 0 (sc_kv (st_sched st)))
       (\<lambda>(blocks, k, r').
         let st1 = on_sched (\<lambda>s. put_req r' (s\<lparr>sc_kv := k\<rparr>)) st
         in case blocks of
              Some b \<Rightarrow> Inr (Some b, idx, st1)
            | None \<Rightarrow>
                and_then (pick_victim cfg (idx, st1)) (\<lambda>(victim, idx', st2).
                and_then (preempt_request victim (st_sched st2)) (\<lambda>s'.
                  let st3 = st2\<lparr>st_sched := s', st_preempted := st_preempted st2 @ [victim]\<rparr>
                  in if victim = rid then Inr (None, idx', st3)
                     else allocate_or_preempt cfg env fuel rid num_new (idx', st3)))))"

text \<open>The draft tokens that fit into the scheduled tokens; the request's drafts are used up.\<close>

definition schedule_spec_tokens :: "string \<Rightarrow> int \<Rightarrow> step \<Rightarrow> step res" where
  "schedule_spec_tokens rid num_new st =
     and_then (get_req rid (st_sched st)) (\<lambda>r.
       if spec_token_ids r = [] then Inr st
       else let n = num_new + num_computed_tokens r - num_tokens r - num_output_placeholders r;
                st1 = (if n > 0
                       then st\<lparr>st_spec_tokens := AList.update rid
                              (if int (length (spec_token_ids r)) > n then take (nat n) (spec_token_ids r) else spec_token_ids r)
                              (st_spec_tokens st)\<rparr>
                       else st)
            in Inr (on_sched (put_req (r\<lparr>spec_token_ids := []\<rparr>)) st1))"

definition allocate_encoder_inputs :: "string \<Rightarrow> nat list \<Rightarrow> nat list \<Rightarrow> int \<Rightarrow> step \<Rightarrow> step res" where
  "allocate_encoder_inputs rid inputs external new_budget st =
     and_then (get_req rid (st_sched st)) (\<lambda>r.
     and_then (fold_res (\<lambda>i. em_allocate r (int i)) inputs (sc_encoder (st_sched st))) (\<lambda>e.
       let st1 = (if inputs \<noteq> []
                  then st\<lparr>st_encoder_inputs := AList.update rid inputs (st_encoder_inputs st), st_encoder_budget := new_budget\<rparr>
                  else st)
       in and_then (fold_res (\<lambda>i. em_allocate r (int i)) external e) (\<lambda>e'.
            Inr (on_sched (\<lambda>s. s\<lparr>sc_encoder := e'\<rparr>) st1))))"

text \<open>The encoder inputs of a request and the tokens they leave; without inputs nothing changes.\<close>

definition plan_encoder ::
  "sched_config \<Rightarrow> sched_env \<Rightarrow> request \<Rightarrow> int \<Rightarrow> int \<Rightarrow> step \<Rightarrow> ((nat list \<times> int \<times> int \<times> nat list) \<times> step) res" where
  "plan_encoder cfg env r computed num_new st =
     (if has_encoder_inputs r
      then and_then (try_schedule_encoder_inputs (cfg_is_encoder_decoder cfg) (cfg_disable_chunked_mm_input cfg)
             (en_ec_item env) r computed num_new (st_encoder_budget st) (if cfg_use_eagle cfg then 1 else 0)
             (sc_encoder (st_sched st))) (\<lambda>(plan, e). Inr (plan, on_sched (\<lambda>s. s\<lparr>sc_encoder := e\<rparr>) st))
      else Inr (([], num_new, st_encoder_budget st, []), st))"

definition running_num_new :: "sched_config \<Rightarrow> request \<Rightarrow> int \<Rightarrow> int" where
  "running_num_new cfg r budget =
     (let n0 = num_tokens_with_spec r + num_output_placeholders r - num_computed_tokens r;
          n1 = (if 0 < cfg_long_prefill_token_threshold cfg \<and> cfg_long_prefill_token_threshold cfg < n0
                then cfg_long_prefill_token_threshold cfg else n0)
      in min (min n1 budget) (cfg_max_model_len cfg - 1 - num_computed_tokens r))"

fun running_loop :: "sched_config \<Rightarrow> sched_env \<Rightarrow> nat \<Rightarrow> int \<times> step \<Rightarrow> step res" where
  "running_loop cfg env 0 ist = Inl Diverges"
| "running_loop cfg env (Suc fuel) (idx, st) =
     (if \<not> (idx < int (length (sc_running (st_sched st))) \<and> st_budget st > 0) then Inr st
      else and_then (py_index (sc_running (st_sched st)) idx) (\<lambda>rid.
           and_then (get_req rid (st_sched st)) (\<lambda>r.
             if num_output_placeholders r > 0 \<and>
                num_computed_tokens r + 2 - num_output_placeholders r \<ge> num_prompt_tokens r + max_tokens r
             then running_loop cfg env fuel (idx + 1, st)
             else and_then (plan_encoder cfg env r (num_computed_tokens r) (running_num_new cfg r (st_budget st)) st)
               (\<lambda>((inputs, n1, new_budget, external), st1).
               and_then (if cfg_need_mamba_split cfg then mamba_block_aligned_split cfg r n1 0 0 else Inr n1) (\<lambda>num_new.
                 if num_new = 0 then running_loop cfg env fuel (idx + 1, st1)
                 else and_then (allocate_or_preempt cfg env (Suc (length (sc_running (st_sched st1)))) rid num_new (idx, st1))
                   (\<lambda>(blocks, idx', st2).
                     case blocks of
                       None \<Rightarrow> Inr st2
                     | Some b \<Rightarrow>
                         let st3 = st2\<lparr>st_running_reqs := st_running_reqs st2 @ [rid],
                                       st_new_blocks := AList.update rid b (st_new_blocks st2),
                                       st_num_scheduled := AList.update rid num_new (st_num_scheduled st2),
                                       st_budget := st_budget st2 - num_new\<rparr>
                         in and_then (schedule_spec_tokens rid num_new st3) (\<lambda>st4.
                            and_then (allocate_encoder_inputs rid inputs external new_budget st4) (\<lambda>st5.
                              running_loop cfg env fuel (idx' + 1, st5)))))))))"

section \<open>Waiting requests\<close>

text \<open>
  The additional locals of the second loop: the queue of requests passed over in this step and the
  adapters in use. \<open>Skip\<close> passes the head over, \<open>Stop\<close> ends the loop, \<open>Admit\<close> goes on with the
  computed blocks, the locally cached, external and total computed tokens and the asynchronous load.
\<close>

record wstep =
  ws_step :: step
  ws_skipped :: "string rqueue"
  ws_loras :: "int set"

datatype lookup_result = Skip | Admit kv_cache_blocks int int int bool

definition skip_request :: "waiting_queue \<Rightarrow> wstep \<Rightarrow> wstep res" where
  "skip_request w ws =
     (let st = ws_step ws; s = st_sched st
      in and_then (pop_queue w s) (\<lambda>(rid, s').
           Inr (ws\<lparr>ws_step := st\<lparr>st_sched := s'\<rparr>, ws_skipped := rq_prepend (req_lt s') rid (ws_skipped ws)\<rparr>)))"

definition lora_blocked :: "sched_config \<Rightarrow> request \<Rightarrow> int set \<Rightarrow> bool" where
  "lora_blocked cfg r loras =
     (case cfg_max_loras cfg of None \<Rightarrow> False
      | Some m \<Rightarrow> (case lora_request r of None \<Rightarrow> False | Some l \<Rightarrow> card loras = m \<and> lora_int_id l \<notin> loras))"

definition lookup_computed :: "sched_env \<Rightarrow> request \<Rightarrow> step \<Rightarrow> (lookup_result \<times> request \<times> step) res" where
  "lookup_computed env r st =
     (if num_computed_tokens r = 0
      then and_then (get_computed_blocks r (sc_kv (st_sched st))) (\<lambda>((blocks, num_local), k).
        let st1 = on_sched (\<lambda>s. s\<lparr>sc_kv := k\<rparr>) st
        in if \<not> en_connector env
           then and_then (py_assert (num_local \<le> num_tokens r)) (\<lambda>_. Inr (Admit blocks num_local 0 num_local False, r, st1))
           else case en_matched env r num_local of
                  (None, _) \<Rightarrow> Inr (Skip, r, st1)
                | (Some ext, load_async) \<Rightarrow>
                    let r1 = r\<lparr>num_external_computed_tokens := ext\<rparr>; st2 = on_sched (put_req r1) st1
                    in and_then (py_assert (num_local + ext \<le> num_tokens r1)) (\<lambda>_.
                         Inr (Admit blocks num_local ext (num_local + ext) load_async, r1, st2)))
      else Inr (Admit None 0 0 (num_computed_tokens r) False, r, st))"

text \<open>The number of new tokens, or \<open>None\<close> where the code leaves the loop.\<close>

definition waiting_num_new ::
  "sched_config \<Rightarrow> sched_env \<Rightarrow> request \<Rightarrow> int \<Rightarrow> int \<Rightarrow> int \<Rightarrow> bool \<Rightarrow> step \<Rightarrow>
   ((nat list \<times> int \<times> int \<times> nat list) option \<times> step) res" where
  "waiting_num_new cfg env r num_local num_external computed load_async st =
     and_then
       (if load_async
        then and_then (py_assert (num_external > 0)) (\<lambda>_. Inr (Some ([], 0, st_encoder_budget st, []), st))
        else let n0 = num_tokens r - computed; th = cfg_long_prefill_token_threshold cfg;
                 n1 = (if 0 < th \<and> th < n0 then th else n0)
             in if \<not> cfg_enable_chunked_prefill cfg \<and> n1 > st_budget st then Inr (None, st)
                else let n2 = min n1 (st_budget st)
                     in and_then (py_assert (n2 > 0)) (\<lambda>_.
                        and_then (plan_encoder cfg env r computed n2 st) (\<lambda>((inputs, n3, b, ext), st1).
                          if has_encoder_inputs r \<and> n3 = 0 then Inr (None, st1) else Inr (Some (inputs, n3, b, ext), st1))))
       (\<lambda>(res, st1). case res of
            None \<Rightarrow> Inr (None, st1)
          | Some (inputs, n, b, ext) \<Rightarrow>
              if cfg_need_mamba_split cfg
              then and_then (mamba_block_aligned_split cfg r n num_local num_external) (\<lambda>n'.
                     Inr (if n' = 0 then None else Some (inputs, n', b, ext), st1))
              else Inr (Some (inputs, n, b, ext), st1))"

text \<open>Frees what the encoder cache holds for a request that cannot be scheduled.\<close>

definition untouch_encoder :: "request \<Rightarrow> step \<Rightarrow> step res" where
  "untouch_encoder r st =
     (if has_encoder_inputs r
      then and_then (em_free r (sc_encoder (st_sched st))) (\<lambda>e. Inr (on_sched (\<lambda>s. s\<lparr>sc_encoder := e\<rparr>) st))
      else Inr st)"

definition admit_blocks ::
  "sched_config \<Rightarrow> sched_env \<Rightarrow> request \<Rightarrow> int \<Rightarrow> kv_cache_blocks \<Rightarrow> int \<Rightarrow> int \<Rightarrow> bool \<Rightarrow> nat list \<Rightarrow> step \<Rightarrow> (bool \<times> step) res" where
  "admit_blocks cfg env r num_new blocks num_local num_external load_async inputs st =
     and_then (if cfg_is_encoder_decoder cfg \<and> has_encoder_inputs r
               then and_then (map_res (\<lambda>i. get_num_encoder_embeds r (int i)) inputs) (\<lambda>ns. Inr (sum_list ns)) else Inr 0) (\<lambda>enc.
     and_then (if cfg_reserve_full_isl cfg
               then and_then (can_fit_full_sequence r num_local blocks num_external enc (sc_kv (st_sched st)))
                      (\<lambda>(ok, k). Inr (ok, on_sched (\<lambda>s. s\<lparr>sc_kv := k\<rparr>) st))
               else Inr (True, st)) (\<lambda>(fits, st1).
       if \<not> fits then and_then (untouch_encoder r st1) (\<lambda>st2. Inr (False, st2))
       else and_then (allocate_slots (en_hash env) r num_new num_local blocks
                (if num_computed_tokens r = 0 then 0 else cfg_num_lookahead_tokens cfg) num_external load_async enc
                (sc_kv (st_sched st1))) (\<lambda>(new_blocks, k, r').
              let st2 = on_sched (\<lambda>s. put_req r' (s\<lparr>sc_kv := k\<rparr>)) st1
              in case new_blocks of
                   None \<Rightarrow> and_then (untouch_encoder r' st2) (\<lambda>st3. Inr (False, st3))
                 | Some _ \<Rightarrow> Inr (True, st2))))"

text \<open>A waiting request with its blocks becomes a running one.\<close>

definition start_request ::
  "sched_config \<Rightarrow> string \<Rightarrow> int \<Rightarrow> int \<Rightarrow> (nat list \<times> int \<times> nat list) \<Rightarrow> wstep \<Rightarrow> wstep res" where
  "start_request cfg rid num_new computed plan ws = (case plan of (inputs, new_budget, external) \<Rightarrow>
     let st = ws_step ws; st1 = on_sched (\<lambda>s. s\<lparr>sc_running := sc_running s @ [rid]\<rparr>) st
     in and_then (get_req rid (st_sched st1)) (\<lambda>r.
        and_then (case status r of
                    WAITING \<Rightarrow> Inr (st1\<lparr>st_new_reqs := st_new_reqs st1 @ [rid]\<rparr>)
                  | PREEMPTED \<Rightarrow> Inr (st1\<lparr>st_resumed_reqs := st_resumed_reqs st1 @ [rid]\<rparr>)
                  | _ \<Rightarrow> Inl RuntimeError) (\<lambda>st2.
          let loras = (case (cfg_max_loras cfg, lora_request r) of (Some _, Some l) \<Rightarrow> insert (lora_int_id l) (ws_loras ws)
                       | _ \<Rightarrow> ws_loras ws);
              r1 = r\<lparr>status := RUNNING, num_computed_tokens := computed,
                     num_cached_tokens := (if num_cached_tokens r < 0 then computed else num_cached_tokens r)\<rparr>;
              st3 = st2\<lparr>st_new_blocks := AList.update rid (kv_get_blocks rid (sc_kv (st_sched st2))) (st_new_blocks st2),
                        st_num_scheduled := AList.update rid num_new (st_num_scheduled st2),
                        st_budget := st_budget st2 - num_new\<rparr>
          in and_then (allocate_encoder_inputs rid inputs external new_budget (on_sched (put_req r1) st3)) (\<lambda>st4.
               Inr (ws\<lparr>ws_step := st4, ws_loras := loras\<rparr>)))))"

text \<open>One iteration; the flag says whether the loop goes on.\<close>

definition admit_request :: "sched_config \<Rightarrow> sched_env \<Rightarrow> waiting_queue \<Rightarrow> request \<Rightarrow> wstep \<Rightarrow> (bool \<times> wstep) res" where
  "admit_request cfg env w r ws =
     and_then (lookup_computed env r (ws_step ws)) (\<lambda>(res, r1, st1).
       case res of
         Skip \<Rightarrow> and_then (skip_request w (ws\<lparr>ws_step := st1\<rparr>)) (\<lambda>ws'. Inr (True, ws'))
       | Admit blocks num_local num_external computed load_async \<Rightarrow>
           and_then (waiting_num_new cfg env r1 num_local num_external computed load_async st1) (\<lambda>(plan, st2).
             case plan of
               None \<Rightarrow> Inr (False, ws\<lparr>ws_step := st2\<rparr>)
             | Some (inputs, num_new, new_budget, external) \<Rightarrow>
                 and_then (admit_blocks cfg env r1 num_new blocks num_local num_external load_async inputs st2) (\<lambda>(ok, st3).
                   if \<not> ok then Inr (False, ws\<lparr>ws_step := st3\<rparr>)
                   else and_then (pop_queue w (st_sched st3)) (\<lambda>(rid, s').
                     let ws1 = ws\<lparr>ws_step := st3\<lparr>st_sched := s'\<rparr>\<rparr>
                     in if load_async
                        then and_then (get_req rid s') (\<lambda>r2.
                               let r3 = r2\<lparr>status := WAITING_FOR_REMOTE_KVS, num_computed_tokens := computed\<rparr>;
                                   st4 = on_sched (put_req r3) (ws_step ws1)
                               in Inr (True, ws1\<lparr>ws_step := st4,
                                    ws_skipped := rq_prepend (req_lt (st_sched st4)) rid (ws_skipped ws1)\<rparr>))
                        else and_then (start_request cfg rid num_new computed (inputs, new_budget, external) ws1)
                               (\<lambda>ws2. Inr (True, ws2))))))"

definition waiting_iteration :: "sched_config \<Rightarrow> sched_env \<Rightarrow> wstep \<Rightarrow> (bool \<times> wstep) res" where
  "waiting_iteration cfg env ws =
     (let st = ws_step ws; s = st_sched st
      in if length (sc_running s) = cfg_max_num_running_reqs cfg then Inr (False, ws)
         else and_then (select_waiting_queue cfg s) (\<lambda>sel.
              and_then (of_option AssertionError sel) (\<lambda>w.
              and_then (rq_peek (queue_of w s)) (\<lambda>rid.
              and_then (get_req rid s) (\<lambda>r.
              and_then (if is_blocked_waiting_status (status r) then try_promote_blocked env r s else Inr (True, r, s))
                (\<lambda>(ready, r1, s1).
                  let ws1 = ws\<lparr>ws_step := st\<lparr>st_sched := s1\<rparr>\<rparr>
                  in if \<not> ready \<or> lora_blocked cfg r1 (ws_loras ws)
                     then and_then (skip_request w ws1) (\<lambda>ws'. Inr (True, ws'))
                     else admit_request cfg env w r1 ws1))))))"

fun waiting_loop :: "sched_config \<Rightarrow> sched_env \<Rightarrow> nat \<Rightarrow> wstep \<Rightarrow> wstep res" where
  "waiting_loop cfg env 0 ws = Inl Diverges"
| "waiting_loop cfg env (Suc fuel) ws =
     (let s = st_sched (ws_step ws)
      in if (rq_len (sc_waiting s) > 0 \<or> rq_len (sc_skipped_waiting s) > 0) \<and> st_budget (ws_step ws) > 0
         then and_then (waiting_iteration cfg env ws) (\<lambda>(go_on, ws'). if go_on then waiting_loop cfg env fuel ws' else Inr ws')
         else Inr ws)"

section \<open>The two phases\<close>

definition lora_ids :: "sched_config \<Rightarrow> step \<Rightarrow> int set res" where
  "lora_ids cfg st = (case cfg_max_loras cfg of
       None \<Rightarrow> Inr {}
     | Some m \<Rightarrow>
         and_then (map_res (\<lambda>rid. get_req rid (st_sched st)) (st_running_reqs st)) (\<lambda>rs.
           let ids = set (filter (\<lambda>i. i > 0) (map lora_int_id (List.map_filter lora_request rs)))
           in and_then (py_assert (card ids \<le> m)) (\<lambda>_. Inr ids)))"

definition schedule_running :: "sched_config \<Rightarrow> sched_env \<Rightarrow> scheduler \<Rightarrow> step res" where
  "schedule_running cfg env s =
     (let s1 = s\<lparr>sc_kv := kv_new_step_starts (sc_kv s)\<rparr>
      in running_loop cfg env (Suc (length (sc_running s1)))
           (0, \<lparr>st_sched = s1, st_budget = (if sc_pause_state s = PAUSED_ALL then 0 else cfg_max_num_scheduled_tokens cfg),
                st_encoder_budget = cfg_max_num_encoder_input_tokens cfg, st_new_reqs = [], st_resumed_reqs = [],
                st_running_reqs = [], st_preempted = [], st_new_blocks = [], st_num_scheduled = [],
                st_encoder_inputs = [], st_spec_tokens = []\<rparr>))"

definition schedule_waiting :: "sched_config \<Rightarrow> sched_env \<Rightarrow> step \<Rightarrow> step res" where
  "schedule_waiting cfg env st =
     and_then (lora_ids cfg st) (\<lambda>loras.
       if st_preempted st = [] \<and> sc_pause_state (st_sched st) = UNPAUSED
       then let s = st_sched st
            in and_then (waiting_loop cfg env (Suc (rq_len (sc_waiting s) + rq_len (sc_skipped_waiting s)))
                   \<lparr>ws_step = st, ws_skipped = create_request_queue (cfg_policy cfg), ws_loras = loras\<rparr>) (\<lambda>ws.
                 let s1 = st_sched (ws_step ws)
                 in Inr (if rq_len (ws_skipped ws) > 0
                         then on_sched (\<lambda>s. s\<lparr>sc_skipped_waiting := rq_prepend_requests (req_lt s1)
                                (rq_list (req_lt s1) (ws_skipped ws)) (sc_skipped_waiting s)\<rparr>) (ws_step ws)
                         else ws_step ws))
       else Inr st)"

section \<open>The message to the workers\<close>

definition block_ids_for :: "bool \<Rightarrow> string \<Rightarrow> step \<Rightarrow> int list list option res" where
  "block_ids_for allow_none rid st =
     and_then (of_option KeyError (map_of (st_new_blocks st) rid)) (\<lambda>b.
       let k = sc_kv (st_sched st) in Inr (get_block_ids (kv_pool k) allow_none (kv_blocks (num_kv_cache_groups k) b)))"

definition new_request_entry :: "sched_config \<Rightarrow> step \<Rightarrow> string \<Rightarrow> new_request_data res" where
  "new_request_entry cfg st rid =
     and_then (get_req rid (st_sched st)) (\<lambda>r.
     and_then (block_ids_for False rid st) (\<lambda>ids.
       Inr (new_request_from_request r (case ids of Some l \<Rightarrow> l | None \<Rightarrow> [])
              (if cfg_use_v2_model_runner cfg then Some (all_token_ids r) else None))))"

definition cached_entry :: "sched_config \<Rightarrow> step \<Rightarrow> bool \<Rightarrow> string \<Rightarrow> cached_request_data \<Rightarrow> cached_request_data res" where
  "cached_entry cfg st resumed rid c =
     and_then (get_req rid (st_sched st)) (\<lambda>r.
     and_then (if cfg_use_pp cfg \<and> \<not> cfg_async_scheduling cfg
               then and_then (of_option KeyError (map_of (st_num_scheduled st) rid)) (\<lambda>n.
                 let ntok = n - int (length (dict_get (st_spec_tokens st) rid []))
                 in Inr [py_slice (all_token_ids r) (num_computed_tokens r) (num_computed_tokens r + ntok)])
               else Inr []) (\<lambda>tok.
     and_then (py_assert (\<not> (resumed \<and> rid \<in> sc_prev_step_scheduled (st_sched st)))) (\<lambda>_.
     and_then (block_ids_for True rid st) (\<lambda>ids.
       Inr (c\<lparr>cr_req_ids := cr_req_ids c @ [rid],
              cr_resumed_req_ids := (if resumed then insert rid (cr_resumed_req_ids c) else cr_resumed_req_ids c),
              cr_new_token_ids := cr_new_token_ids c @ tok,
              cr_all_token_ids := (if rid \<in> sc_prev_step_scheduled (st_sched st) then cr_all_token_ids c
                                   else AList.update rid (all_token_ids r) (cr_all_token_ids c)),
              cr_new_block_ids := cr_new_block_ids c @ [ids],
              cr_num_computed_tokens := cr_num_computed_tokens c @ [num_computed_tokens r],
              cr_num_output_tokens := cr_num_output_tokens c @ [num_output_tokens r + num_output_placeholders r]\<rparr>)))))"

definition make_cached_request_data :: "sched_config \<Rightarrow> step \<Rightarrow> string list \<Rightarrow> string list \<Rightarrow> cached_request_data res" where
  "make_cached_request_data cfg st running_reqs resumed_reqs =
     and_then (fold_res (cached_entry cfg st False) running_reqs cached_request_make_empty)
       (fold_res (cached_entry cfg st True) resumed_reqs)"

text \<open>Advances the computed tokens of the scheduled requests; the flag collects structured output.\<close>

definition advance_request :: "sched_config \<Rightarrow> string \<times> int \<Rightarrow> bool \<times> scheduler \<Rightarrow> (bool \<times> scheduler) res" where
  "advance_request cfg rn acc = (case (rn, acc) of ((rid, n), (flag, s)) \<Rightarrow>
     and_then (get_req rid s) (\<lambda>r.
       let r1 = r\<lparr>num_computed_tokens := num_computed_tokens r + n\<rparr>;
           r2 = r1\<lparr>is_prefill_chunk := (num_computed_tokens r1 < num_tokens r1 + num_output_placeholders r1)\<rparr>;
           flag' = (flag \<or> use_structured_output r2 \<and> \<not> is_prefill_chunk r2);
           s1 = put_req r2 s
       in if has_encoder_inputs r2
          then and_then (free_encoder_inputs (cfg_is_encoder_decoder cfg) r2 (sc_encoder s1)) (\<lambda>e.
                 Inr (flag', s1\<lparr>sc_encoder := e\<rparr>))
          else Inr (flag', s1)))"

text \<open>\<^verbatim>\<open>AsyncScheduler\<close>: placeholders for the tokens the step will produce.\<close>

definition add_placeholders ::
  "sched_config \<Rightarrow> (string \<times> int list) list \<Rightarrow> string \<Rightarrow> bool \<times> scheduler \<Rightarrow> (bool \<times> scheduler) res" where
  "add_placeholders cfg spec rid acc = (case acc of (pending, s) \<Rightarrow>
     and_then (get_req rid s) (\<lambda>r.
       if is_prefill_chunk r then Inr (pending, s)
       else Inr (pending \<or> use_structured_output r \<and> num_output_placeholders r > 0,
              put_req (r\<lparr>num_output_placeholders := num_output_placeholders r + (1 + int (length (dict_get spec rid []))),
                         spec_token_ids := replicate (cfg_num_spec_tokens cfg) (- 1)\<rparr>) s)))"

definition update_after_schedule :: "sched_config \<Rightarrow> scheduler_output \<Rightarrow> scheduler \<Rightarrow> (scheduler_output \<times> scheduler) res" where
  "update_after_schedule cfg out s =
     and_then (fold_res (advance_request cfg) (num_scheduled_tokens out) (has_structured_output_requests out, s)) (\<lambda>(flag, s1).
       let out1 = out\<lparr>has_structured_output_requests := flag\<rparr>; s2 = s1\<lparr>sc_finished_req_ids := {}\<rparr>
       in if cfg_async_scheduling cfg
          then and_then (fold_res (add_placeholders cfg (scheduled_spec_decode_tokens out1)) (keys (num_scheduled_tokens out1))
                 (pending_structured_output_tokens out1, s2)) (\<lambda>(pending, s3).
                 Inr (out1\<lparr>pending_structured_output_tokens := pending\<rparr>, s3))
          else Inr (out1, s2))"

text \<open>The four assertions after the loops.\<close>

definition within_limits :: "sched_config \<Rightarrow> step \<Rightarrow> bool" where
  "within_limits cfg st \<longleftrightarrow>
     sum_list (map snd (st_num_scheduled st)) \<le> cfg_max_num_scheduled_tokens cfg \<and> 0 \<le> st_budget st \<and>
     length (sc_running (st_sched st)) \<le> cfg_max_num_running_reqs cfg \<and>
     length (st_new_reqs st) + length (st_resumed_reqs st) + length (st_running_reqs st) \<le> length (sc_running (st_sched st))"

definition build_output :: "sched_config \<Rightarrow> step \<Rightarrow> (scheduler_output \<times> scheduler) res" where
  "build_output cfg st =
     (let s = st_sched st; num_groups = num_kv_cache_groups (sc_kv s);
          (common, s1) = (case sc_running s of
              [] \<Rightarrow> (replicate num_groups 0, s)
            | rid # _ \<Rightarrow> (let (ns, k) = kv_get_num_common_prefix_blocks rid (sc_kv s) in (ns, s\<lparr>sc_kv := k\<rparr>)));
          st1 = st\<lparr>st_sched := s1\<rparr>;
          (new_reqs, resumed) = (if cfg_use_v2_model_runner cfg then (st_new_reqs st @ st_resumed_reqs st, [])
                                 else (st_new_reqs st, st_resumed_reqs st))
      in and_then (map_res (new_request_entry cfg st1) new_reqs) (\<lambda>new_data.
         and_then (make_cached_request_data cfg st1 (st_running_reqs st) resumed) (\<lambda>cached.
           let s2 = s1\<lparr>sc_prev_step_scheduled := set (keys (st_num_scheduled st))\<rparr>;
               (zero_ids, s3) = (if cfg_needs_kv_cache_zeroing cfg
                  then (let (ids, k) = kv_take_new_block_ids (sc_kv s2) in ((if ids = [] then None else Some ids), s2\<lparr>sc_kv := k\<rparr>))
                  else (None, s2));
               (freed, e) = em_get_freed_mm_hashes (sc_encoder s3);
               s4 = s3\<lparr>sc_encoder := e\<rparr>
           in Inr (\<lparr>scheduled_new_reqs = new_data, scheduled_cached_reqs = cached,
                    num_scheduled_tokens = st_num_scheduled st,
                    total_num_scheduled_tokens = sum_list (map snd (st_num_scheduled st)),
                    scheduled_spec_decode_tokens = st_spec_tokens st,
                    scheduled_encoder_inputs = map (\<lambda>(rid, l). (rid, map int l)) (st_encoder_inputs st),
                    num_common_prefix_blocks = common, out_finished_req_ids = sc_finished_req_ids s4,
                    free_encoder_mm_hashes = freed, preempted_req_ids = Some (set (st_preempted st)),
                    has_structured_output_requests = False, pending_structured_output_tokens = False,
                    num_invalid_spec_tokens = None, new_block_ids_to_zero = zero_ids\<rparr>, s4))))"

definition schedule :: "sched_config \<Rightarrow> sched_env \<Rightarrow> scheduler \<Rightarrow> (scheduler_output \<times> scheduler) res" where
  "schedule cfg env s =
     and_then (schedule_running cfg env s) (\<lambda>st1.
     and_then (schedule_waiting cfg env st1) (\<lambda>st2.
     and_then (py_assert (within_limits cfg st2)) (\<lambda>_.
     and_then (build_output cfg st2) (\<lambda>(out, s1). update_after_schedule cfg out s1))))"

end
