(* ===== verification/Sched_Update.thy ===== *)
theory Sched_Update
  imports Schedule
begin

text \<open>
  The end of a step: \<^verbatim>\<open>Scheduler.update_from_output\<close> takes the tokens the model produced, undoes the
  advance of rejected drafts, stops and frees requests, and handles failed and finished KV transfers;
  \<^verbatim>\<open>update_draft_token_ids\<close> takes the drafts for the next step. \<^verbatim>\<open>AsyncScheduler\<close> is the case
  \<open>cfg_async_scheduling\<close>. Log-probabilities, tracing data and statistics are left out.
\<close>

section \<open>What the model runner returns\<close>

record kv_connector_output =
  ko_finished_sending :: "string list"
  ko_finished_recving :: "string list"
  ko_invalid_block_ids :: "int set"

text \<open>For the pooler only whether there is an output; likewise for prompt log-probabilities.\<close>

record model_runner_output =
  mo_req_id_to_index :: "(string \<times> nat) list"
  mo_sampled_token_ids :: "int list list"
  mo_pooler_output :: "bool list option"
  mo_num_nans_in_logits :: "(string \<times> int) list option"
  mo_prompt_logprobs :: "string list"
  mo_kv_connector_output :: "kv_connector_output option"

record engine_core_output =
  eo_request_id :: string
  eo_new_token_ids :: "int list"
  eo_finish_reason :: "finish_reason option"
  eo_stop_reason :: "stop_reason option"
  eo_pooling_output :: bool
  eo_num_cached_tokens :: int
  eo_num_external_computed_tokens :: int
  eo_num_nans_in_logits :: int

section \<open>Failed KV loads\<close>

record invalid_scan =
  iv_sched :: scheduler
  iv_affected :: "string list"
  iv_total :: int
  iv_evict :: "int list"
  iv_marked :: "int set"

text \<open>
  The blocks of one request that may hold externally computed tokens; \<open>hit\<close> is whether an invalid
  one was seen, \<open>own\<close> whether this request is the first to recompute one.
\<close>

fun scan_blocks ::
  "int \<Rightarrow> int set \<Rightarrow> bool \<Rightarrow> int list \<Rightarrow> int \<Rightarrow> (nat \<times> int) list \<Rightarrow> bool \<times> bool \<times> request \<times> invalid_scan \<Rightarrow>
   bool \<times> bool \<times> request \<times> invalid_scan" where
  "scan_blocks bs invalid evict all_ids computed [] acc = acc"
| "scan_blocks bs invalid evict all_ids computed ((idx, b) # ibs) (hit, own, r, v) =
     (if b \<notin> invalid then scan_blocks bs invalid evict all_ids computed ibs (hit, own, r, v)
      else if b \<in> iv_marked v then scan_blocks bs invalid evict all_ids computed ibs (True, own, r, v)
      else let v1 = v\<lparr>iv_marked := insert b (iv_marked v)\<rparr>
        in if own then scan_blocks bs invalid evict all_ids computed ibs (True, own, r, v1)
           else let ncomp = int idx * bs; n = computed - ncomp;
                    r1 = r\<lparr>num_computed_tokens := ncomp, num_external_computed_tokens := num_external_computed_tokens r - n\<rparr>;
                    v2 = v1\<lparr>iv_total := iv_total v1 + n, iv_evict := (if evict then iv_evict v1 @ drop idx all_ids else iv_evict v1)\<rparr>
                in scan_blocks bs invalid evict all_ids computed ibs (True, True, r1, v2))"

definition scan_request :: "int \<Rightarrow> int set \<Rightarrow> (string \<times> int) list \<Rightarrow> bool \<Rightarrow> string \<Rightarrow> invalid_scan \<Rightarrow> invalid_scan res" where
  "scan_request bs invalid num_scheduled evict rid v =
     and_then (get_req rid (iv_sched v)) (\<lambda>r.
       case kv_get_block_ids rid (sc_kv (iv_sched v)) of
         [ids] \<Rightarrow>
           let computed = num_computed_tokens r - dict_get num_scheduled rid 0;
               nblocks = (computed + bs - 1) div bs;
               (hit, own, r1, v1) = scan_blocks bs invalid evict ids computed (zip [0..<nat nblocks] ids) (False, False, r, v);
               (r2, v2) = (if hit \<and> \<not> own
                 then (r1\<lparr>num_computed_tokens := computed\<rparr>, v1\<lparr>iv_total := iv_total v1 + (num_computed_tokens r1 - computed)\<rparr>)
                 else (r1, v1))
           in Inr (v2\<lparr>iv_sched := put_req r2 (iv_sched v2), iv_affected := (if hit then iv_affected v2 @ [rid] else iv_affected v2)\<rparr>)
       | _ \<Rightarrow> Inl ValueError)"

definition update_requests_with_invalid_blocks ::
  "sched_config \<Rightarrow> string list \<Rightarrow> int set \<Rightarrow> (string \<times> int) list \<Rightarrow> bool \<Rightarrow> scheduler \<Rightarrow>
   (string list \<times> int \<times> int list \<times> scheduler) res" where
  "update_requests_with_invalid_blocks cfg rids invalid num_scheduled evict s =
     and_then (fold_res (scan_request (cfg_block_size cfg) invalid num_scheduled evict) rids
        \<lparr>iv_sched = s, iv_affected = [], iv_total = 0, iv_evict = [], iv_marked = {}\<rparr>) (\<lambda>v.
       Inr (iv_affected v, iv_total v, remdups (iv_evict v), iv_sched v))"

definition handle_invalid_blocks ::
  "sched_config \<Rightarrow> int set \<Rightarrow> (string \<times> int) list \<Rightarrow> scheduler \<Rightarrow> (string list \<times> scheduler) res" where
  "handle_invalid_blocks cfg invalid num_scheduled s =
     (let loading = filter (\<lambda>rid. map_option status (map_of (sc_requests s) rid) = Some WAITING_FOR_REMOTE_KVS)
            (rq_list (req_lt s) (sc_skipped_waiting s))
      in and_then (update_requests_with_invalid_blocks cfg loading invalid num_scheduled False s) (\<lambda>(async_failed, _, _, s1).
         and_then (update_requests_with_invalid_blocks cfg (sc_running s1) invalid num_scheduled True s1)
           (\<lambda>(sync_failed, _, to_evict, s2).
             if async_failed = [] \<and> sync_failed = [] then Inr ([], s2)
             else and_then (if to_evict \<noteq> [] \<and> \<not> cfg_recompute_kv_load_failures cfg
                            then and_then (kv_evict_blocks to_evict (sc_kv s2)) (\<lambda>k. Inr (s2\<lparr>sc_kv := k\<rparr>))
                            else Inr s2) (\<lambda>s3.
                    if \<not> cfg_recompute_kv_load_failures cfg then Inr (async_failed @ sync_failed, s3)
                    else Inr (sync_failed, s3\<lparr>sc_failed_recving := sc_failed_recving s3 \<union> set async_failed\<rparr>)))))"

section \<open>New tokens of a request\<close>

text \<open>Appends tokens until one stops the request; the tokens after it are dropped.\<close>

fun append_until_stop :: "block_hasher \<Rightarrow> int \<Rightarrow> int list \<Rightarrow> request \<Rightarrow> (int list \<times> bool \<times> request) res" where
  "append_until_stop hasher max_model_len [] r = Inr ([], False, r)"
| "append_until_stop hasher max_model_len (t # ts) r =
     and_then (append_output_token_ids hasher [t] r) (\<lambda>r1.
     and_then (check_stop r1 max_model_len) (\<lambda>(stopped, r2).
       if stopped then Inr ([t], True, r2)
       else and_then (append_until_stop hasher max_model_len ts r2) (\<lambda>(kept, st, r3). Inr (t # kept, st, r3))))"

definition update_request_with_output ::
  "sched_config \<Rightarrow> sched_env \<Rightarrow> int list \<Rightarrow> request \<Rightarrow> scheduler \<Rightarrow> (int list \<times> bool \<times> request \<times> scheduler) res" where
  "update_request_with_output cfg env new_tokens r s =
     (if cfg_async_scheduling cfg \<and> discard_latest_async_tokens r
      then let r1 = r\<lparr>discard_latest_async_tokens := False\<rparr> in Inr ([], False, r1, put_req r1 s)
      else and_then (append_until_stop (en_hasher env) (cfg_max_model_len cfg) new_tokens r) (\<lambda>(kept, stopped, r1).
        if \<not> cfg_async_scheduling cfg then Inr (kept, stopped, r1, put_req r1 s)
        else let r2 = r1\<lparr>num_output_placeholders := num_output_placeholders r1 - int (length kept)\<rparr>
          in and_then (py_assert (num_output_placeholders r2 \<ge> 0)) (\<lambda>_.
             and_then (if status r = RUNNING
                       then kv_cache_blocks_op (en_hash env) r2 (num_computed_tokens r2 - num_output_placeholders r2) (sc_kv s)
                       else Inr (sc_kv s, r2)) (\<lambda>(k, r3). Inr (kept, stopped, r3, put_req r3 (s\<lparr>sc_kv := k\<rparr>))))))"

text \<open>Rejected drafts were counted as computed when they were scheduled.\<close>

definition adjust_rejected :: "int list option \<Rightarrow> int list \<Rightarrow> request \<Rightarrow> request" where
  "adjust_rejected spec generated r =
     (case spec of
        Some (d # ds) \<Rightarrow>
          if generated = [] then r
          else let num_rejected = int (length (d # ds)) - (int (length generated) - 1);
                   r1 = (if num_computed_tokens r > 0 then r\<lparr>num_computed_tokens := num_computed_tokens r - num_rejected\<rparr> else r)
               in (if num_output_placeholders r1 > 0
                   then r1\<lparr>num_output_placeholders := num_output_placeholders r1 - num_rejected\<rparr> else r1)
      | _ \<Rightarrow> r)"

record update_state =
  us_sched :: scheduler
  us_outputs :: "(int \<times> engine_core_output list) list"
  us_stopped_running :: "string set"
  us_stopped_preempted :: "string list"

text \<open>A stopped request: finished and freed, or waiting for the next chunk of its session.\<close>

definition stop_request ::
  "sched_env \<Rightarrow> request_status \<Rightarrow> request \<Rightarrow> update_state \<Rightarrow> (finish_reason option \<times> request \<times> update_state) res" where
  "stop_request env status_before r u =
     (let reason = get_finished_reason (status r)
      in and_then (handle_stopped_request env r (us_sched u)) (\<lambda>(finished, r1, s1).
         and_then (if finished then free_request env False r1 s1 else Inr s1) (\<lambda>s2.
           let u1 = u\<lparr>us_sched := s2\<rparr>
           in Inr (reason, r1,
                if status_before = RUNNING then u1\<lparr>us_stopped_running := insert (request_id r) (us_stopped_running u1)\<rparr>
                else u1\<lparr>us_stopped_preempted := us_stopped_preempted u1 @ [request_id r]\<rparr>))))"

definition make_output :: "request \<Rightarrow> int list \<Rightarrow> finish_reason option \<Rightarrow> bool \<Rightarrow> engine_core_output" where
  "make_output r new_tokens reason pooled =
     \<lparr>eo_request_id = request_id r, eo_new_token_ids = new_tokens, eo_finish_reason = reason, eo_stop_reason = stop_reason r,
      eo_pooling_output = pooled, eo_num_cached_tokens = num_cached_tokens r,
      eo_num_external_computed_tokens = num_external_computed_tokens r, eo_num_nans_in_logits = num_nans_in_logits r\<rparr>"

definition add_output :: "int \<Rightarrow> engine_core_output \<Rightarrow> (int \<times> engine_core_output list) list \<Rightarrow> (int \<times> engine_core_output list) list" where
  "add_output client out d = AList.update client (dict_get d client [] @ [out]) d"

definition update_one ::
  "sched_config \<Rightarrow> sched_env \<Rightarrow> scheduler_output \<Rightarrow> model_runner_output \<Rightarrow> string list \<Rightarrow> string \<times> int \<Rightarrow>
   update_state \<Rightarrow> update_state res" where
  "update_one cfg env out mo failed rn u = (case rn of (rid, n) \<Rightarrow>
     and_then (py_assert (n > 0)) (\<lambda>_.
       if rid \<in> set failed then Inr u
       else case map_of (sc_requests (us_sched u)) rid of
         None \<Rightarrow> Inr u
       | Some r \<Rightarrow>
         if is_finished r then Inr u
         else and_then (of_option KeyError (map_of (mo_req_id_to_index mo) rid)) (\<lambda>idx.
           and_then (if mo_sampled_token_ids mo = [] then Inr [] else py_index (mo_sampled_token_ids mo) (int idx)) (\<lambda>generated.
           and_then (case mo_pooler_output mo of None \<Rightarrow> Inr False | Some [] \<Rightarrow> Inr False
                     | Some ps \<Rightarrow> py_index ps (int idx)) (\<lambda>pooled.
             let r1 = adjust_rejected (map_of (scheduled_spec_decode_tokens out) rid) generated r;
                 s1 = put_req r1 (us_sched u); status_before = status r1
             in and_then (if generated \<noteq> [] then update_request_with_output cfg env generated r1 s1
                          else if pooling_params r1 \<noteq> None \<and> pooled
                          then let r2 = r1\<lparr>status := FINISHED_STOPPED\<rparr> in Inr ([], True, r2, put_req r2 s1)
                          else Inr ([], False, r1, s1)) (\<lambda>(new_tokens, stopped, r2, s2).
                and_then (if stopped then stop_request env status_before r2 (u\<lparr>us_sched := s2\<rparr>)
                          else Inr (None, r2, u\<lparr>us_sched := s2\<rparr>)) (\<lambda>(reason, r3, u1).
                and_then (py_assert (new_tokens \<noteq> [] \<and> en_should_advance env r3 \<longrightarrow>
                    (case structured_output_request r3 of Some so \<Rightarrow> so_grammar so | None \<Rightarrow> False))) (\<lambda>_.
                  let nans = Option.bind (mo_num_nans_in_logits mo) (\<lambda>d. map_of d rid);
                      r4 = (case nans of None \<Rightarrow> r3 | Some m \<Rightarrow> r3\<lparr>num_nans_in_logits := m\<rparr>);
                      u2 = (if nans \<noteq> None \<and> rid \<in> fst ` set (sc_requests (us_sched u1))
                            then u1\<lparr>us_sched := put_req r4 (us_sched u1)\<rparr> else u1)
                  in if new_tokens \<noteq> [] \<or> pooled \<or> stopped
                     then Inr (u2\<lparr>us_outputs := add_output (client_index r4) (make_output r4 new_tokens reason pooled) (us_outputs u2)\<rparr>)
                     else and_then (py_assert (rid \<notin> set (mo_prompt_logprobs mo))) (\<lambda>_. Inr u2)))))))))"

section \<open>The whole update\<close>

definition finish_recving :: "string \<Rightarrow> scheduler \<Rightarrow> scheduler res" where
  "finish_recving rid s =
     and_then (of_option AssertionError (map_of (sc_requests s) rid)) (\<lambda>r.
       if status r = WAITING_FOR_REMOTE_KVS then Inr (s\<lparr>sc_finished_recving := insert rid (sc_finished_recving s)\<rparr>)
       else and_then (py_assert (status_is_finished (status r))) (\<lambda>_. free_blocks_of r s))"

definition finish_sending :: "string \<Rightarrow> scheduler \<Rightarrow> scheduler res" where
  "finish_sending rid s = and_then (of_option AssertionError (map_of (sc_requests s) rid)) (\<lambda>r. free_blocks_of r s)"

definition update_from_kv_xfer_finished :: "kv_connector_output \<Rightarrow> scheduler \<Rightarrow> scheduler res" where
  "update_from_kv_xfer_finished ko s =
     and_then (fold_res finish_recving (ko_finished_recving ko) s) (fold_res finish_sending (ko_finished_sending ko))"

text \<open>Requests whose KV load failed under the policy \<^verbatim>\<open>fail\<close>.\<close>

definition fail_requests :: "sched_env \<Rightarrow> string list \<Rightarrow> update_state \<Rightarrow> update_state res" where
  "fail_requests env failed u =
     and_then (map_res (\<lambda>rid. get_req rid (us_sched u)) failed) (\<lambda>rs.
     and_then (finish_requests env (Some failed) FINISHED_ERROR (us_sched u)) (\<lambda>(_, s).
       Inr (u\<lparr>us_sched := s,
              us_outputs := fold (\<lambda>r d. add_output (client_index r)
                (make_output (r\<lparr>status := FINISHED_ERROR, stop_reason := None, num_external_computed_tokens := 0, num_nans_in_logits := 0\<rparr>)
                   [] (Some Reason_ERROR) False) d) rs (us_outputs u)\<rparr>)))"

definition remove_stopped :: "update_state \<Rightarrow> scheduler" where
  "remove_stopped u =
     (let s = us_sched u;
          s1 = (if us_stopped_running u \<noteq> {} then s\<lparr>sc_running := remove_all (sc_running s) (us_stopped_running u)\<rparr> else s)
      in if us_stopped_preempted u \<noteq> []
         then s1\<lparr>sc_waiting := rq_remove_requests (req_lt s1) (us_stopped_preempted u) (sc_waiting s1)\<rparr> else s1)"

record engine_core_outputs =
  ecs_outputs :: "(int \<times> engine_core_output list) list"
  ecs_finished_requests :: "(int \<times> string set) list"
  ecs_kv_events :: "kv_event list"

definition update_from_output ::
  "sched_config \<Rightarrow> sched_env \<Rightarrow> scheduler_output \<Rightarrow> model_runner_output \<Rightarrow> scheduler \<Rightarrow> (engine_core_outputs \<times> scheduler) res" where
  "update_from_output cfg env out mo s =
     and_then (case mo_kv_connector_output mo of
         Some ko \<Rightarrow> if ko_invalid_block_ids ko \<noteq> {}
           then handle_invalid_blocks cfg (ko_invalid_block_ids ko) (num_scheduled_tokens out) s else Inr ([], s)
       | None \<Rightarrow> Inr ([], s)) (\<lambda>(failed, s1).
     and_then (fold_res (update_one cfg env out mo failed) (num_scheduled_tokens out)
         \<lparr>us_sched = s1, us_outputs = [], us_stopped_running = {}, us_stopped_preempted = []\<rparr>) (\<lambda>u.
     and_then (let u1 = u\<lparr>us_sched := remove_stopped u\<rparr>
               in if failed \<noteq> [] \<and> \<not> cfg_recompute_kv_load_failures cfg then fail_requests env failed u1 else Inr u1) (\<lambda>u2.
     and_then (case mo_kv_connector_output mo of Some ko \<Rightarrow> update_from_kv_xfer_finished ko (us_sched u2) | None \<Rightarrow> Inr (us_sched u2)) (\<lambda>s2.
       let (events, k) = kv_take_events (sc_kv s2); s3 = s2\<lparr>sc_kv := k\<rparr>
       in Inr (\<lparr>ecs_outputs = us_outputs u2,
                ecs_finished_requests = (case sc_finished_req_ids_dict s3 of None \<Rightarrow> [] | Some d \<Rightarrow> d),
                ecs_kv_events = events\<rparr>,
               s3\<lparr>sc_finished_req_ids_dict := map_option (\<lambda>_. []) (sc_finished_req_ids_dict s3)\<rparr>)))))"

section \<open>Draft tokens\<close>

definition update_draft_one :: "sched_env \<Rightarrow> string \<times> int list \<Rightarrow> scheduler \<Rightarrow> scheduler" where
  "update_draft_one env rd s = (case rd of (rid, toks) \<Rightarrow>
     case map_of (sc_requests s) rid of
       None \<Rightarrow> s
     | Some r \<Rightarrow>
         if is_finished r then s
         else if is_prefill_chunk r then put_req (r\<lparr>spec_token_ids := []\<rparr>) s
         else put_req (r\<lparr>spec_token_ids := (if en_should_advance env r then en_validate_tokens env r toks else toks)\<rparr>) s)"

definition update_draft_token_ids :: "sched_env \<Rightarrow> string list \<Rightarrow> int list list \<Rightarrow> scheduler \<Rightarrow> scheduler" where
  "update_draft_token_ids env req_ids drafts s = fold (update_draft_one env) (zip req_ids drafts) s"

definition draft_in_output_one ::
  "sched_env \<Rightarrow> scheduler \<Rightarrow> string \<times> int list \<Rightarrow> (string \<times> int list) list \<times> (string \<times> int) list \<Rightarrow>
   (string \<times> int list) list \<times> (string \<times> int) list" where
  "draft_in_output_one env s rd acc = (case (rd, acc) of ((rid, toks), (spec, bad)) \<Rightarrow>
     case map_of (sc_requests s) rid of
       None \<Rightarrow> acc
     | Some r \<Rightarrow>
         if is_finished r then acc
         else case map_of spec rid of
           Some (p # ps) \<Rightarrow>
             (let toks1 = take (length (p # ps)) toks;
                  toks2 = (if en_should_advance env r then en_validate_tokens env r toks1 else toks1);
                  n = int (length (p # ps)) - int (length toks2)
              in (AList.update rid (if n \<noteq> 0 then toks2 @ replicate (nat n) (- 1) else toks2) spec,
                  if n \<noteq> 0 then AList.update rid n bad else bad))
         | _ \<Rightarrow> acc)"

definition update_draft_token_ids_in_output ::
  "sched_env \<Rightarrow> string list \<Rightarrow> int list list \<Rightarrow> scheduler \<Rightarrow> scheduler_output \<Rightarrow> scheduler_output" where
  "update_draft_token_ids_in_output env req_ids drafts s out =
     (let (spec, bad) = fold (draft_in_output_one env s) (zip req_ids drafts) (scheduled_spec_decode_tokens out, [])
      in out\<lparr>scheduled_spec_decode_tokens := spec, num_invalid_spec_tokens := Some bad\<rparr>)"

text \<open>The requests whose rows the grammar bitmask has, in order.\<close>

definition grammar_request_ids :: "scheduler_output \<Rightarrow> scheduler \<Rightarrow> string list option" where
  "grammar_request_ids out s =
     (if \<not> has_structured_output_requests out then None
      else let ids = filter (\<lambda>rid. case map_of (sc_requests s) rid of None \<Rightarrow> False
                 | Some r \<Rightarrow> use_structured_output r \<and> \<not> is_prefill_chunk r) (keys (num_scheduled_tokens out))
           in if ids = [] then None else Some ids)"

end
