(* ===== verification/Sched_Frame.thy ===== *)
theory Sched_Frame
  imports Sched_Update
begin

text \<open>
  What the operations of the KV cache manager, the encoder cache and a request leave alone, as the
  scheduler's proofs use it: caching changes of a request only its memo of embedding digests, and
  no operation of the manager changes the cache groups it was built with.
\<close>


section \<open>Results\<close>

text \<open>A property of the value a call returns, if it returns one.\<close>

definition res_all :: "('a \<Rightarrow> bool) \<Rightarrow> 'a res \<Rightarrow> bool" where
  "res_all P m \<longleftrightarrow> (\<forall>x. m = Inr x \<longrightarrow> P x)"

lemma res_all_simps [simp]: "res_all P (Inl e)" "res_all P (Inr x) = P x"
  by (simp_all add: res_all_def)

lemma res_all_and_then: "(\<And>x. m = Inr x \<Longrightarrow> res_all P (f x)) \<Longrightarrow> res_all P (and_then m f)"
  by (cases m) simp_all

lemma res_all_if: "(c \<Longrightarrow> res_all P a) \<Longrightarrow> (\<not> c \<Longrightarrow> res_all P b) \<Longrightarrow> res_all P (if c then a else b)"
  by simp

lemma res_all_option:
  "(v = None \<Longrightarrow> res_all P a) \<Longrightarrow> (\<And>x. v = Some x \<Longrightarrow> res_all P (f x)) \<Longrightarrow> res_all P (case v of None \<Rightarrow> a | Some x \<Rightarrow> f x)"
  by (cases v) simp_all

lemma res_all_prod: "(\<And>a b. p = (a, b) \<Longrightarrow> res_all P (f a b)) \<Longrightarrow> res_all P (case p of (a, b) \<Rightarrow> f a b)"
  by (cases p) simp

lemmas res_all_intros = res_all_and_then res_all_if res_all_option res_all_prod

lemma res_allD: "res_all P m \<Longrightarrow> m = Inr x \<Longrightarrow> P x"
  by simp

section \<open>Requests\<close>

definition memo_only :: "request \<Rightarrow> request \<Rightarrow> bool" where
  "memo_only r r' \<longleftrightarrow> (\<exists>m. r' = r\<lparr>prompt_embeds_per_block_hashes := m\<rparr>)"

lemma memo_refl [simp, intro]: "memo_only r r"
  by (auto simp: memo_only_def intro!: exI [of _ "prompt_embeds_per_block_hashes r"])

lemma memo_trans: "memo_only r r1 \<Longrightarrow> memo_only r1 r2 \<Longrightarrow> memo_only r r2"
  by (auto simp: memo_only_def)

lemma memo_sel:
  assumes "memo_only r r'"
  shows "status r' = status r" "resumable r' = resumable r" "request_id r' = request_id r"
    "num_computed_tokens r' = num_computed_tokens r" "all_token_ids r' = all_token_ids r"
    "spec_token_ids r' = spec_token_ids r" "num_output_placeholders r' = num_output_placeholders r"
    "num_preemptions r' = num_preemptions r" "lora_request r' = lora_request r" "mm_features r' = mm_features r"
  using assms by (auto simp: memo_only_def)

lemma prompt_embeds_memo: "gen_prompt_embeds_extra_hash_keys env r a b = (ks, r') \<Longrightarrow> memo_only r r'"
  by (auto simp: gen_prompt_embeds_extra_hash_keys_def Let_def split: option.splits) (auto simp: memo_only_def)

lemma extra_keys_memo:
  "generate_block_hash_extra_keys env r a b i = Inr (ks, j, r') \<Longrightarrow> memo_only r r'"
  using prompt_embeds_memo [of env r a b]
  by (cases "gen_prompt_embeds_extra_hash_keys env r a b")
    (auto simp: generate_block_hash_extra_keys_def and_then_eq_Inr Let_def split: prod.splits)

lemma event_keys_memo: "event_keys env bs blocks p is i r = Inr (ks, r') \<Longrightarrow> memo_only r r'"
proof (induction "is" arbitrary: i r ks)
  case (Cons j js)
  then show ?case
    by (auto simp: and_then_eq_Inr split: if_splits prod.splits) (blast intro: memo_trans extra_keys_memo)
qed simp

lemma cache_full_blocks_memo: "cache_full_blocks env r bl a b bs g p = Inr (p', r') \<Longrightarrow> memo_only r r'"
  by (auto simp: cache_full_blocks_def and_then_eq_Inr Let_def split: if_splits prod.splits dest: event_keys_memo)

lemma base_cache_blocks_memo: "base_cache_blocks env r n m p = Inr (m', p', r') \<Longrightarrow> memo_only r r'"
  by (auto simp: base_cache_blocks_def and_then_eq_Inr Let_def split: if_splits prod.splits dest: cache_full_blocks_memo)

lemma cache_blocks_memo: "cache_blocks env r n m p = Inr (m', p', r') \<Longrightarrow> memo_only r r'"
  by (auto simp: cache_blocks_def mamba_cache_blocks_def and_then_eq_Inr Let_def
      split: if_splits prod.splits dest: base_cache_blocks_memo)

lemma cache_managers_memo: "cache_managers env r n ms p = Inr (ms', p', r') \<Longrightarrow> memo_only r r'"
proof (induction ms arbitrary: r p ms')
  case (Cons m ms)
  then show ?case by (auto simp: and_then_eq_Inr split: prod.splits) (blast intro: memo_trans cache_blocks_memo)
qed simp

lemma coord_cache_blocks_memo: "coord_cache_blocks env r n c = Inr (c', r') \<Longrightarrow> memo_only r r'"
  by (auto simp: coord_cache_blocks_def and_then_eq_Inr split: prod.splits dest: cache_managers_memo)

lemma kv_cache_blocks_op_memo: "kv_cache_blocks_op env r n k = Inr (k', r') \<Longrightarrow> memo_only r r'"
  by (auto simp: kv_cache_blocks_op_def and_then_eq_Inr split: if_splits prod.splits dest: coord_cache_blocks_memo)

lemma allocate_slots_memo: "allocate_slots env r a b bl c d e f k = Inr (res, k', r') \<Longrightarrow> memo_only r r'"
  by (auto simp: allocate_slots_def and_then_eq_Inr Let_def split: if_splits prod.splits dest: coord_cache_blocks_memo)

section \<open>Cache groups\<close>

definition kv_groups :: "kv_manager \<Rightarrow> group_spec list" where
  "kv_groups k = co_groups (kv_coordinator k)"

lemma on_managers_groups: "on_managers f c = Inr (x, c') \<Longrightarrow> co_groups c' = co_groups c"
  by (auto simp: on_managers_def and_then_eq_Inr split: prod.splits)

lemma coord_groups:
  "coord_free rid c = Inr c' \<Longrightarrow> co_groups c' = co_groups c"
  "coord_remove_skipped_blocks rid n c = Inr c' \<Longrightarrow> co_groups c' = co_groups c"
  "coord_get_num_blocks_to_allocate rid n bl e t m c = Inr (x, c') \<Longrightarrow> co_groups c' = co_groups c"
  "coord_allocate_new_computed_blocks rid bl a b c = Inr c' \<Longrightarrow> co_groups c' = co_groups c"
  "coord_allocate_new_blocks rid n m e c = Inr (y, c') \<Longrightarrow> co_groups c' = co_groups c"
  "coord_cache_blocks env r n c = Inr (c', r') \<Longrightarrow> co_groups c' = co_groups c"
  by (auto simp: coord_free_def coord_remove_skipped_blocks_def coord_get_num_blocks_to_allocate_def
      coord_allocate_new_computed_blocks_def coord_allocate_new_blocks_def coord_cache_blocks_def and_then_eq_Inr
      split: prod.splits dest: on_managers_groups)

lemma allocate_slots_groups: "allocate_slots env r a b bl c d e f k = Inr (res, k', r') \<Longrightarrow> kv_groups k' = kv_groups k"
  by (auto simp: allocate_slots_def kv_groups_def and_then_eq_Inr Let_def split: if_splits prod.splits dest!: coord_groups)

lemma kv_ops_groups:
  "kv_free r k = Inr k' \<Longrightarrow> kv_groups k' = kv_groups k"
  "kv_cache_blocks_op env r n k = Inr (k', r') \<Longrightarrow> kv_groups k' = kv_groups k"
  "can_fit_full_sequence r a bl b e k = Inr (ok, k') \<Longrightarrow> kv_groups k' = kv_groups k"
  "get_computed_blocks r k = Inr (x, k') \<Longrightarrow> kv_groups k' = kv_groups k"
  "kv_groups (kv_new_step_starts k) = kv_groups k"
  by (auto simp: kv_free_def kv_cache_blocks_op_def can_fit_full_sequence_def get_computed_blocks_def kv_new_step_starts_def
      coord_new_step_starts_def kv_groups_def and_then_eq_Inr Let_def split: if_splits prod.splits dest!: coord_groups)

section \<open>Appending tokens\<close>

lemma hasher_loop_memo: "hasher_loop env bs nt r i j prev = Inr (hs, r') \<Longrightarrow> memo_only r r'"
proof (induction env bs nt r i j prev arbitrary: hs rule: hasher_loop.induct)
  case (1 env bs nt r i j prev)
  show ?case
  proof (cases "bs \<le> 0 \<or> i + bs > nt")
    case True
    then show ?thesis using 1(2) by (subst (asm) hasher_loop.simps) (auto split: if_splits)
  next
    case False
    then obtain ks mm r1 where g: "generate_block_hash_extra_keys env r i (i + bs) j = Inr (ks, mm, r1)"
      using 1(2) by (subst (asm) hasher_loop.simps) (auto simp: and_then_eq_Inr)
    let ?h = "hash_block_tokens env prev (py_slice (all_token_ids r1) i (i + bs)) ks"
    obtain hs' where "hasher_loop env bs nt r1 (i + bs) mm (Some ?h) = Inr (hs', r')"
      using 1(2) False g by (subst (asm) hasher_loop.simps) (auto simp: and_then_eq_Inr Let_def)
    then have "memo_only r1 r'" using 1(1) [OF _ _ refl refl] False by (simp add: not_le)
    then show ?thesis using extra_keys_memo [OF g] by (rule memo_trans [rotated])
  qed
qed

lemma update_block_hashes_frame:
  assumes "update_block_hashes hasher r = Inr r'"
  obtains hs m where "r' = r\<lparr>block_hashes := hs, prompt_embeds_per_block_hashes := m\<rparr>"
proof (cases hasher)
  case None
  then have "r' = r\<lparr>block_hashes := block_hashes r, prompt_embeds_per_block_hashes := prompt_embeds_per_block_hashes r\<rparr>"
    using assms by (simp add: update_block_hashes_def)
  then show thesis by (rule that)
next
  case (Some p)
  obtain env bs where p: "p = (env, bs)" by fastforce
  obtain hs r1 where h: "request_block_hasher env bs r = Inr (hs, r1)" "r' = r1\<lparr>block_hashes := block_hashes r1 @ hs\<rparr>"
    using assms Some p by (auto simp: update_block_hashes_def and_then_eq_Inr)
  have "memo_only r r1"
    using h(1) by (auto simp: request_block_hasher_def Let_def split: if_splits dest: hasher_loop_memo)
  then obtain m where "r1 = r\<lparr>prompt_embeds_per_block_hashes := m\<rparr>" by (auto simp: memo_only_def)
  then have "r' = r\<lparr>block_hashes := block_hashes r1 @ hs, prompt_embeds_per_block_hashes := m\<rparr>" using h(2) by simp
  then show thesis by (rule that)
qed

lemma append_output_frame:
  assumes "append_output_token_ids hasher ts r = Inr r'"
  obtains hs m where "r' = r\<lparr>output_token_ids := output_token_ids r @ ts, all_token_ids := all_token_ids r @ ts,
    block_hashes := hs, prompt_embeds_per_block_hashes := m\<rparr>"
  using update_block_hashes_frame [OF assms [unfolded append_output_token_ids_def]] by (metis (no_types))

definition stop_frame :: "request \<Rightarrow> bool \<times> request \<Rightarrow> bool" where
  "stop_frame r res = (case res of (stopped, r') \<Rightarrow> request_id r' = request_id r \<and> resumable r' = resumable r \<and>
    num_computed_tokens r' = num_computed_tokens r \<and>
    num_output_placeholders r' = num_output_placeholders r \<and> spec_token_ids r' = spec_token_ids r \<and>
    all_token_ids r' = all_token_ids r \<and> (if stopped then is_finished r' else r' = r))"

lemma check_stop_all: "res_all (stop_frame r) (check_stop r n)"
  unfolding check_stop_def by (intro res_all_intros; simp add: stop_frame_def is_finished_def)

lemma check_stop_frame:
  assumes "check_stop r n = Inr (stopped, r')"
  shows "request_id r' = request_id r \<and> resumable r' = resumable r \<and> num_computed_tokens r' = num_computed_tokens r \<and>
    num_output_placeholders r' = num_output_placeholders r \<and> spec_token_ids r' = spec_token_ids r \<and>
    all_token_ids r' = all_token_ids r \<and> (if stopped then is_finished r' else r' = r)"
  using res_allD [OF check_stop_all assms] by (simp add: stop_frame_def)

text \<open>Appending until a stop: a prefix of the new tokens, all of them unless the request stopped.\<close>

definition append_frame :: "request \<Rightarrow> int list \<Rightarrow> int list \<times> bool \<times> request \<Rightarrow> bool" where
  "append_frame r ts res = (case res of (kept, stopped, r') \<Rightarrow>
    request_id r' = request_id r \<and> resumable r' = resumable r \<and> num_computed_tokens r' = num_computed_tokens r \<and>
    num_output_placeholders r' = num_output_placeholders r \<and> spec_token_ids r' = spec_token_ids r \<and>
    all_token_ids r' = all_token_ids r @ kept \<and>
    (\<exists>rest. ts = kept @ rest \<and> (\<not> stopped \<longrightarrow> rest = [])) \<and> (ts \<noteq> [] \<longrightarrow> kept \<noteq> []) \<and>
    (if stopped then is_finished r' else status r' = status r))"

lemma append_until_stop_frame: "res_all (append_frame r ts) (append_until_stop hasher n ts r)"
proof (induction ts arbitrary: r)
  case (Cons t ts)
  show ?case unfolding append_until_stop.simps
  proof (intro res_all_and_then, goal_cases)
    case (1 r1 p)
    obtain st r2 where p: "p = (st, r2)" by fastforce
    obtain hs m where r1: "r1 = r\<lparr>output_token_ids := output_token_ids r @ [t], all_token_ids := all_token_ids r @ [t],
      block_hashes := hs, prompt_embeds_per_block_hashes := m\<rparr>" using 1(1) by (rule append_output_frame)
    note r2 = check_stop_frame [OF 1(2) [unfolded p]]
    show ?case
    proof (cases st)
      case True
      then show ?thesis using r1 r2 p by (simp add: append_frame_def)
    next
      case False
      have "append_frame r (t # ts) (t # kept, st', r3)" if "append_frame r2 ts (kept, st', r3)" for kept st' r3
        using that r1 r2 False by (auto simp: append_frame_def)
      then have "res_all (append_frame r (t # ts)) (and_then (append_until_stop hasher n ts r2) (\<lambda>(kept, st, r3). Inr (t # kept, st, r3)))"
        using Cons [of r2] by (intro res_all_and_then) (auto dest: res_allD)
      then show ?thesis using p False by simp
    qed
  qed
qed (simp add: append_frame_def)

end
