(* ===== verification/Sched_Queues.thy ===== *)
theory Sched_Queues
  imports Sched_Frame
begin

text \<open>
  Every live request of the scheduler is in exactly one place: the running list or one of the two
  waiting queues, as its status says. The invariant is stated on the contents of the queues as
  multisets, which no operation of a queue changes but by what it adds or takes; it is carried through
  a whole step, with the requests in transit and the finished requests not yet removed as parameters.
\<close>

section \<open>Contents of queues\<close>

definition rq_elems :: "'a rqueue \<Rightarrow> 'a multiset" where
  "rq_elems q = (case q of FCFSRequestQueue l \<Rightarrow> mset l | PriorityRequestQueue h \<Rightarrow> mset h)"

lemma rq_elems_simps [simp]:
  "rq_elems (FCFSRequestQueue l) = mset l" "rq_elems (PriorityRequestQueue h) = mset h"
  by (simp_all add: rq_elems_def)

lemma heappop_contents:
  assumes "heappop lt h = Inr (x, h')"
  shows "mset h = add_mset x (mset h')" and "x = h ! 0"
proof -
  have h: "h = butlast h @ [last h]" using assms by (auto simp: heappop_def split: if_splits)
  show "mset h = add_mset x (mset h')"
  proof (cases "butlast h")
    case Nil
    then have "h = [last h]" using h by simp
    then obtain y where "h = [y]" by blast
    then show ?thesis using assms by (simp add: heappop_def)
  next
    case (Cons y ys)
    then have "mset h = add_mset y (add_mset (last h) (mset ys))" by (subst h) simp
    moreover have "x = y" "h' = siftup lt 0 (last h # ys)"
      using assms Cons by (auto simp: heappop_def Let_def split: if_splits)
    ultimately show ?thesis by (simp add: siftup_mset)
  qed
  show "x = h ! 0"
    using assms by (cases h) (auto simp: heappop_def Let_def split: if_splits)
qed

lemma mset_prio_iter: "length h \<le> n \<Longrightarrow> mset (prio_iter lt n h) = mset h"
proof (induction n arbitrary: h)
  case (Suc n)
  show ?case
  proof (cases "heappop lt h")
    case (Inl e)
    then have "h = []" by (auto simp: heappop_def Let_def split: if_splits)
    then show ?thesis using Inl by simp
  next
    case (Inr p)
    obtain x h' where p: "p = (x, h')" by fastforce
    note c = heappop_contents(1) [OF Inr [unfolded p]]
    then have "length h = Suc (length h')" by (metis size_add_mset size_mset)
    then show ?thesis using Suc c Inr p by simp
  qed
qed simp

lemma mset_rq_list [simp]: "mset (rq_list lt q) = rq_elems q"
  by (cases q) (simp_all add: rq_list_def prio_list_def mset_prio_iter)

lemma size_rq_elems [simp]: "size (rq_elems q) = rq_len q"
  by (cases q) (simp_all add: rq_len_def)

lemma fold_add_contents:
  "mset (fold (prio_add lt) rs h) = mset rs + mset h" "mset (fold fcfs_prepend rs l) = mset rs + mset l"
  by (induction rs arbitrary: h l) (simp_all add: prio_add_def heappush_mset fcfs_prepend_def)

lemma rq_elems_ops [simp]:
  "rq_elems (create_request_queue p) = {#}"
  "rq_elems (rq_add lt r q) = add_mset r (rq_elems q)"
  "rq_elems (rq_prepend lt r q) = add_mset r (rq_elems q)"
  "rq_elems (rq_prepend_requests lt rs q) = mset rs + rq_elems q"
  "rq_elems (rq_remove_requests lt rs q) = filter_mset (\<lambda>r. r \<notin> set rs) (rq_elems q)"
  by (cases p; cases q; simp add: create_request_queue_def rq_add_def fcfs_add_def prio_add_def heappush_mset rq_prepend_def
      fcfs_prepend_def rq_prepend_requests_def fcfs_prepend_requests_def prio_prepend_requests_def fold_add_contents
      rq_remove_requests_def fcfs_remove_requests_def prio_remove_requests_def heapify_mset)+

lemma rq_pop_elems:
  assumes "rq_pop lt q = Inr (r, q')"
  shows "rq_elems q = add_mset r (rq_elems q')" and "rq_peek q = Inr r"
  using assms heappop_contents [of lt]
  by (cases q; auto simp: rq_pop_def fcfs_pop_def prio_pop_def rq_peek_def fcfs_peek_def prio_peek_def and_then_eq_Inr
      split: list.splits if_splits prod.splits)+

lemma rq_peek_elem: "rq_peek q = Inr r \<Longrightarrow> r \<in># rq_elems q"
  by (cases q) (auto simp: rq_peek_def fcfs_peek_def prio_peek_def split: list.splits if_splits)

section \<open>The invariant\<close>

definition places :: "scheduler \<Rightarrow> string multiset" where
  "places s = mset (sc_running s) + rq_elems (sc_waiting s) + rq_elems (sc_skipped_waiting s)"

definition alive :: "scheduler \<Rightarrow> string \<Rightarrow> bool" where
  "alive s rid \<longleftrightarrow> (\<exists>r. map_of (sc_requests s) rid = Some r \<and> \<not> is_finished r)"

text \<open>
  \<open>E\<close>: requests in transit; \<open>Y\<close>: finished requests still in a queue; \<open>Z\<close>: requests whose status need
  not agree with their place yet.
\<close>

definition entry_ok :: "string set \<Rightarrow> scheduler \<Rightarrow> string \<Rightarrow> request \<Rightarrow> bool" where
  "entry_ok Z s rid r \<longleftrightarrow> request_id r = rid \<and> \<not> resumable r \<and>
     (rid \<notin> Z \<longrightarrow> (status r = RUNNING \<longleftrightarrow> rid \<in> set (sc_running s)) \<and>
        (rid \<in># rq_elems (sc_waiting s) \<longrightarrow> \<not> is_blocked_waiting_status (status r)))"

definition qinv :: "string multiset \<Rightarrow> string set \<Rightarrow> string set \<Rightarrow> scheduler \<Rightarrow> bool" where
  "qinv E Y Z s \<longleftrightarrow> distinct (keys (sc_requests s)) \<and>
     (\<forall>rid. count (places s + E) rid = (if alive s rid \<or> rid \<in> Y then 1 else 0)) \<and>
     (\<forall>rid r. map_of (sc_requests s) rid = Some r \<longrightarrow> entry_ok Z s rid r)"

lemma qinvI:
  assumes "distinct (keys (sc_requests s))"
    and "\<And>rid. count (places s + E) rid = (if alive s rid \<or> rid \<in> Y then 1 else 0)"
    and "\<And>rid r. map_of (sc_requests s) rid = Some r \<Longrightarrow> entry_ok Z s rid r"
  shows "qinv E Y Z s"
  using assms unfolding qinv_def by blast

lemma qinvD:
  assumes "qinv E Y Z s"
  shows "distinct (keys (sc_requests s))"
    and "count (places s + E) rid = (if alive s rid \<or> rid \<in> Y then 1 else 0)"
    and "map_of (sc_requests s) rid = Some r \<Longrightarrow> entry_ok Z s rid r"
  using assms unfolding qinv_def by blast+

lemma places_frame [simp]:
  "places (s\<lparr>sc_kv := k\<rparr>) = places s" "places (s\<lparr>sc_encoder := e\<rparr>) = places s"
  "places (s\<lparr>sc_finished_req_ids := fi\<rparr>) = places s" "places (s\<lparr>sc_finished_req_ids_dict := fd\<rparr>) = places s"
  "places (s\<lparr>sc_prev_step_scheduled := ps\<rparr>) = places s" "places (s\<lparr>sc_num_waiting_for_streaming_input := nw\<rparr>) = places s"
  "places (s\<lparr>sc_finished_recving := fr\<rparr>) = places s" "places (s\<lparr>sc_failed_recving := fl\<rparr>) = places s"
  "places (s\<lparr>sc_pause_state := p\<rparr>) = places s" "places (s\<lparr>sc_requests := rs\<rparr>) = places s"
  by (simp_all add: places_def)

lemma alive_frame [simp]:
  "alive (s\<lparr>sc_kv := k\<rparr>) = alive s" "alive (s\<lparr>sc_encoder := e\<rparr>) = alive s"
  "alive (s\<lparr>sc_finished_req_ids := fi\<rparr>) = alive s" "alive (s\<lparr>sc_finished_req_ids_dict := fd\<rparr>) = alive s"
  "alive (s\<lparr>sc_prev_step_scheduled := ps\<rparr>) = alive s" "alive (s\<lparr>sc_num_waiting_for_streaming_input := nw\<rparr>) = alive s"
  "alive (s\<lparr>sc_finished_recving := fr\<rparr>) = alive s" "alive (s\<lparr>sc_failed_recving := fl\<rparr>) = alive s"
  "alive (s\<lparr>sc_pause_state := p\<rparr>) = alive s" "alive (s\<lparr>sc_running := ru\<rparr>) = alive s"
  "alive (s\<lparr>sc_waiting := w\<rparr>) = alive s" "alive (s\<lparr>sc_skipped_waiting := sk\<rparr>) = alive s"
  by (simp_all add: alive_def fun_eq_iff)

lemma qinv_frame [simp]:
  "qinv E Y Z (s\<lparr>sc_kv := k\<rparr>) = qinv E Y Z s" "qinv E Y Z (s\<lparr>sc_encoder := e\<rparr>) = qinv E Y Z s"
  "qinv E Y Z (s\<lparr>sc_finished_req_ids := fi\<rparr>) = qinv E Y Z s" "qinv E Y Z (s\<lparr>sc_finished_req_ids_dict := fd\<rparr>) = qinv E Y Z s"
  "qinv E Y Z (s\<lparr>sc_prev_step_scheduled := ps\<rparr>) = qinv E Y Z s"
  "qinv E Y Z (s\<lparr>sc_num_waiting_for_streaming_input := nw\<rparr>) = qinv E Y Z s"
  "qinv E Y Z (s\<lparr>sc_finished_recving := fr\<rparr>) = qinv E Y Z s" "qinv E Y Z (s\<lparr>sc_failed_recving := fl\<rparr>) = qinv E Y Z s"
  "qinv E Y Z (s\<lparr>sc_pause_state := p\<rparr>) = qinv E Y Z s"
  by (simp_all add: qinv_def entry_ok_def)

lemma put_req_sel [simp]:
  "map_of (sc_requests (put_req r s)) rid = (if rid = request_id r then Some r else map_of (sc_requests s) rid)"
  "sc_running (put_req r s) = sc_running s" "sc_waiting (put_req r s) = sc_waiting s"
  "sc_skipped_waiting (put_req r s) = sc_skipped_waiting s" "places (put_req r s) = places s"
  "sc_kv (put_req r s) = sc_kv s" "sc_encoder (put_req r s) = sc_encoder s" "sc_pause_state (put_req r s) = sc_pause_state s"
  by (simp_all add: put_req_def update_conv' places_def)

lemma distinct_put [simp]: "distinct (keys (sc_requests s)) \<Longrightarrow> distinct (keys (sc_requests (put_req r s)))"
  by (simp add: put_req_def distinct_update)

lemma alive_put [simp]: "alive (put_req r s) rid = (if rid = request_id r then \<not> is_finished r else alive s rid)"
  by (simp add: alive_def)

text \<open>Writing a request back with the same status.\<close>

lemma qinv_put:
  assumes "qinv E Y Z s" and "map_of (sc_requests s) (request_id r) = Some r0" and "status r = status r0"
    and "resumable r = resumable r0"
  shows "qinv E Y Z (put_req r s)"
proof (rule qinvI)
  have "alive (put_req r s) = alive s" using assms(2,3) by (auto simp: alive_def fun_eq_iff is_finished_def)
  then show "count (places (put_req r s) + E) rid = (if alive (put_req r s) rid \<or> rid \<in> Y then 1 else 0)" for rid
    using qinvD(2) [OF assms(1)] by simp
  show "entry_ok Z (put_req r s) rid r'" if "map_of (sc_requests (put_req r s)) rid = Some r'" for rid r'
  proof (cases "rid = request_id r")
    case True
    then show ?thesis using that assms(2-4) qinvD(3) [OF assms(1), of rid r0] by (simp add: entry_ok_def)
  next
    case False
    then show ?thesis using that qinvD(3) [OF assms(1), of rid r'] by (simp add: entry_ok_def)
  qed
qed (use qinvD(1) [OF assms(1)] in simp)

lemma get_req_eq: "get_req rid s = Inr r \<longleftrightarrow> map_of (sc_requests s) rid = Some r"
  by (simp add: get_req_def of_option_eq_Inr)

lemma qinv_id: "qinv E Y Z s \<Longrightarrow> map_of (sc_requests s) rid = Some r \<Longrightarrow> request_id r = rid \<and> \<not> resumable r"
  using qinvD(3) by (fastforce simp: entry_ok_def)

text \<open>A request is dropped from the table only once it is finished.\<close>

lemma qinv_delete:
  assumes "qinv E Y Z s" and "\<not> alive s rid"
  shows "qinv E Y Z (s\<lparr>sc_requests := AList.delete rid (sc_requests s)\<rparr>)"
proof -
  have "alive (s\<lparr>sc_requests := AList.delete rid (sc_requests s)\<rparr>) = alive s"
    using assms(2) by (auto simp: alive_def delete_conv' fun_eq_iff)
  then show ?thesis
    using qinvD [OF assms(1)] by (intro qinvI) (auto simp: entry_ok_def delete_conv' distinct_delete split: if_splits)
qed

text \<open>The live requests of the second state are those of the first, unchanged.\<close>

definition keeps :: "scheduler \<Rightarrow> scheduler \<Rightarrow> bool" where
  "keeps s s' \<longleftrightarrow> (\<forall>x r. map_of (sc_requests s') x = Some r \<and> \<not> is_finished r \<longrightarrow> map_of (sc_requests s) x = Some r)"

lemma keeps_refl [simp]: "sc_requests s' = sc_requests s \<Longrightarrow> keeps s s'"
  by (simp add: keeps_def)

lemma keeps_trans: "keeps s s1 \<Longrightarrow> keeps s1 s2 \<Longrightarrow> keeps s s2"
  by (simp add: keeps_def)

lemma keeps_put: "is_finished r \<Longrightarrow> keeps s (put_req r s)"
  by (simp add: keeps_def)

lemma free_blocks_of_qinv:
  assumes "free_blocks_of r s = Inr s'" and "qinv E Y Z s" and "\<not> alive s (request_id r)"
  shows "qinv E Y Z s' \<and> \<not> alive s' (request_id r) \<and> keeps s s'"
proof -
  obtain k where "s' = s\<lparr>sc_kv := k, sc_requests := AList.delete (request_id r) (sc_requests s)\<rparr>"
    using assms(1) by (auto simp: free_blocks_of_def and_then_eq_Inr split: if_splits)
  then have "s' = (s\<lparr>sc_requests := AList.delete (request_id r) (sc_requests s)\<rparr>)\<lparr>sc_kv := k\<rparr>" by simp
  then show ?thesis using qinv_delete [OF assms(2,3)] by (simp add: alive_def keeps_def delete_conv')
qed

lemma connector_finished_frame:
  assumes "connector_finished env r s = Inr (d, s1)"
  obtains k where "s1 = s\<lparr>sc_kv := k\<rparr>"
proof -
  have "s1 = s \<or> (\<exists>k. s1 = s\<lparr>sc_kv := k\<rparr>)"
    using assms by (auto simp: connector_finished_def and_then_eq_Inr Let_def split: if_splits)
  moreover have "s = s\<lparr>sc_kv := sc_kv s\<rparr>" by simp
  ultimately show thesis using that by blast
qed

lemma free_request_qinv:
  assumes "free_request env d r s = Inr s'" and "qinv E Y Z s" and "\<not> alive s (request_id r)"
  shows "qinv E Y Z s' \<and> \<not> alive s' (request_id r) \<and> keeps s s'"
proof -
  obtain cd s1 e fi fd where c: "connector_finished env r s = Inr (cd, s1)"
    and f: "let s2 = s1\<lparr>sc_encoder := e, sc_finished_req_ids := fi, sc_finished_req_ids_dict := fd\<rparr>
      in s' = s2 \<or> free_blocks_of r s2 = Inr s'"
    using assms(1) by (fastforce simp: free_request_def and_then_eq_Inr Let_def split: if_splits)
  obtain k where "s1 = s\<lparr>sc_kv := k\<rparr>" using c by (rule connector_finished_frame)
  then show ?thesis
    using f assms(2,3) free_blocks_of_qinv [of r
      "s\<lparr>sc_kv := k, sc_encoder := e, sc_finished_req_ids := fi, sc_finished_req_ids_dict := fd\<rparr>" s' E Y Z]
    by (auto simp: Let_def keeps_def)
qed

text \<open>A request finished while it is in transit, or while it still is in a queue.\<close>

lemma qinv_finish_transit:
  assumes "qinv (add_mset (request_id r) E) Y Z s" and "is_finished r" and "\<not> resumable r" and "request_id r \<notin> Y"
  shows "qinv E Y (Z - {request_id r}) (put_req r s)"
proof -
  let ?i = "request_id r"
  have c: "count (places s + add_mset ?i E) ?i = (if alive s ?i then 1 else 0)"
    using qinvD(2) [OF assms(1), of ?i] assms(4) by simp
  then have z: "count (places s) ?i = 0" "count E ?i = 0" by (auto split: if_splits)
  then have out: "?i \<notin> set (sc_running s)" "?i \<notin># rq_elems (sc_waiting s)"
    by (auto simp: places_def count_eq_zero_iff)
  have "status r \<noteq> RUNNING" using assms(2) by (auto simp: is_finished_def)
  moreover have "count (places (put_req r s) + E) rid = (if alive (put_req r s) rid \<or> rid \<in> Y then 1 else 0)" for rid
    using qinvD(2) [OF assms(1), of rid] z assms(2,4)
    by (cases "rid = request_id r") (auto split: if_splits)
  ultimately show ?thesis
    using qinvD(1,3) [OF assms(1)] out assms(3) by (intro qinvI) (auto simp: entry_ok_def split: if_splits)
qed

lemma qinv_finish_placed:
  assumes "qinv E Y Z s" and "is_finished r" and "\<not> resumable r" and "alive s (request_id r)"
  shows "qinv E (insert (request_id r) Y) (insert (request_id r) Z) (put_req r s)"
  using assms(2-4) qinvD [OF assms(1)] by (intro qinvI) (auto simp: entry_ok_def split: if_splits)

section \<open>Finishing requests\<close>

lemma collect_finished_spec:
  assumes "\<And>rid r. map_of (sc_requests s) rid = Some r \<Longrightarrow> request_id r = rid"
  shows "\<exists>rs n. collect_finished ids s = (rs, s\<lparr>sc_num_waiting_for_streaming_input := n\<rparr>) \<and>
    map request_id rs = filter (alive s) ids \<and> (\<forall>r\<in>set rs. map_of (sc_requests s) (request_id r) = Some r \<and> \<not> is_finished r)"
  using assms
proof (induction ids arbitrary: s)
  case Nil
  then show ?case by (auto intro!: exI [of _ "sc_num_waiting_for_streaming_input s"])
next
  case (Cons rid ids)
  show ?case
  proof (cases "map_of (sc_requests s) rid")
    case None
    then show ?thesis using Cons by (simp add: alive_def)
  next
    case (Some r)
    define t where "t = (if status r = WAITING_FOR_STREAMING_REQ
      then s\<lparr>sc_num_waiting_for_streaming_input := sc_num_waiting_for_streaming_input s - 1\<rparr> else s)"
    have t: "alive t = alive s" "sc_requests t = sc_requests s"
      "t\<lparr>sc_num_waiting_for_streaming_input := n\<rparr> = s\<lparr>sc_num_waiting_for_streaming_input := n\<rparr>" for n
      by (simp_all add: t_def)
    obtain rs n where rs: "collect_finished ids t = (rs, s\<lparr>sc_num_waiting_for_streaming_input := n\<rparr>)"
      "map request_id rs = filter (alive s) ids"
      "\<forall>r\<in>set rs. map_of (sc_requests s) (request_id r) = Some r \<and> \<not> is_finished r"
      using Cons.IH [of t] Cons.prems unfolding t by blast
    show ?thesis
    proof (cases "is_finished r")
      case True
      then show ?thesis using Cons Some by (simp add: alive_def)
    next
      case False
      then have "collect_finished (rid # ids) s = (r # rs, s\<lparr>sc_num_waiting_for_streaming_input := n\<rparr>)"
        using Some rs(1) by (simp add: t_def)
      moreover have "alive s rid" using Some False by (simp add: alive_def)
      ultimately show ?thesis using rs(2,3) Some Cons.prems [OF Some] False by auto
    qed
  qed
qed

lemma qinv_distinct:
  assumes "qinv E {} Z s"
  shows "distinct (sc_running s)" "x \<in># rq_elems (sc_waiting s) \<or> x \<in># rq_elems (sc_skipped_waiting s) \<Longrightarrow> x \<notin> set (sc_running s)"
proof -
  have c: "count (mset (sc_running s)) x + count (rq_elems (sc_waiting s)) x + count (rq_elems (sc_skipped_waiting s)) x \<le> 1" for x
  proof -
    have "count (places s + E) x \<le> 1" using qinvD(2) [OF assms, of x] by simp
    then show ?thesis unfolding places_def count_union by linarith
  qed
  have "count (mset (sc_running s)) x \<le> 1" for x using c [of x] by linarith
  then show "distinct (sc_running s)"
    by (simp add: distinct_count_atmost_1) (metis One_nat_def count_mset_0_iff le_Suc_eq le_zero_eq)
  assume "x \<in># rq_elems (sc_waiting s) \<or> x \<in># rq_elems (sc_skipped_waiting s)"
  then have "count (rq_elems (sc_waiting s)) x + count (rq_elems (sc_skipped_waiting s)) x > 0" by auto
  then have "count (mset (sc_running s)) x = 0" using c [of x] by linarith
  then show "x \<notin> set (sc_running s)" by (simp add: count_mset_0_iff)
qed

lemma alive_request: "alive s rid \<Longrightarrow> \<exists>r. map_of (sc_requests s) rid = Some r \<and> \<not> is_finished r"
  by (simp add: alive_def)

text \<open>The queues without the requests about to be finished, which then are in transit.\<close>

definition without :: "request list \<Rightarrow> scheduler \<Rightarrow> scheduler" where
  "without valid s1 =
     (let run = set (map request_id (filter (\<lambda>r. status r = RUNNING) valid));
          wait = map request_id (filter (\<lambda>r. status r \<noteq> RUNNING) valid);
          s2 = (if run \<noteq> {} then s1\<lparr>sc_running := remove_all (sc_running s1) run\<rparr> else s1)
      in if wait \<noteq> []
         then s2\<lparr>sc_waiting := rq_remove_requests (req_lt s2) wait (sc_waiting s2),
                 sc_skipped_waiting := rq_remove_requests (req_lt s2) wait (sc_skipped_waiting s2)\<rparr>
         else s2)"

lemma without_qinv:
  assumes "qinv {#} {} {} s" and rs: "\<forall>r\<in>set rs. map_of (sc_requests s) (request_id r) = Some r \<and> \<not> is_finished r"
    and d: "distinct (map request_id rs)"
  shows "qinv (mset (map request_id rs)) {} (set (map request_id rs)) (without rs s)"
proof -
  let ?V = "set (map request_id rs)"
  let ?run = "set (map request_id (filter (\<lambda>r. status r = RUNNING) rs))"
  let ?wait = "set (map request_id (filter (\<lambda>r. status r \<noteq> RUNNING) rs))"
  note q = assms(1)
  have st: "status r = RUNNING \<longleftrightarrow> request_id r \<in> set (sc_running s)" if "r \<in> set rs" for r
    using qinvD(3) [OF q] rs that by (force simp: entry_ok_def)
  have run: "x \<in> ?run \<longleftrightarrow> x \<in> ?V" if "x \<in> set (sc_running s)" for x
    using st that by auto
  have wait: "x \<in> ?wait \<longleftrightarrow> x \<in> ?V" if "x \<in># rq_elems (sc_waiting s) \<or> x \<in># rq_elems (sc_skipped_waiting s)" for x
    using qinv_distinct(2) [OF q that] st by auto
  have 1: "sc_running (without rs s) = filter (\<lambda>x. x \<notin> ?V) (sc_running s)"
  proof (cases "?run = {}")
    case True
    have "x \<notin> ?V" if "x \<in> set (sc_running s)" for x using run [OF that] unfolding True by simp
    then show ?thesis using True by (auto simp: without_def Let_def filter_id_conv)
  next
    case False
    have "filter (\<lambda>x. x \<notin> ?run) (sc_running s) = filter (\<lambda>x. x \<notin> ?V) (sc_running s)"
      by (rule filter_cong) (simp_all only: run)
    then show ?thesis using False remove_all_filter [OF qinv_distinct(1) [OF q]] by (simp add: without_def Let_def)
  qed
  have f: "filter_mset (\<lambda>x. x \<notin> ?wait) (rq_elems Q) = filter_mset (\<lambda>x. x \<notin> ?V) (rq_elems Q)"
    if "Q = sc_waiting s \<or> Q = sc_skipped_waiting s" for Q
    by (rule filter_mset_cong) (use that wait in metis)+
  have 2: "rq_elems (sc_waiting (without rs s)) = filter_mset (\<lambda>x. x \<notin> ?V) (rq_elems (sc_waiting s))"
    "rq_elems (sc_skipped_waiting (without rs s)) = filter_mset (\<lambda>x. x \<notin> ?V) (rq_elems (sc_skipped_waiting s))"
  proof -
    define W where "W = map request_id (filter (\<lambda>r. status r \<noteq> RUNNING) rs)"
    have "rq_elems (sc_waiting (without rs s)) = filter_mset (\<lambda>x. x \<notin> set W) (rq_elems (sc_waiting s)) \<and>
      rq_elems (sc_skipped_waiting (without rs s)) = filter_mset (\<lambda>x. x \<notin> set W) (rq_elems (sc_skipped_waiting s))"
      unfolding without_def Let_def W_def [symmetric] by (cases "W = []") simp_all
    then show "rq_elems (sc_waiting (without rs s)) = filter_mset (\<lambda>x. x \<notin> ?V) (rq_elems (sc_waiting s))"
      "rq_elems (sc_skipped_waiting (without rs s)) = filter_mset (\<lambda>x. x \<notin> ?V) (rq_elems (sc_skipped_waiting s))"
      unfolding W_def using f [of "sc_waiting s"] f [of "sc_skipped_waiting s"] by simp_all
  qed
  have 3: "sc_requests (without rs s) = sc_requests s" by (simp add: without_def Let_def)
  have 4: "places (without rs s) = filter_mset (\<lambda>x. x \<notin> ?V) (places s)"
    unfolding places_def 1 2 by (simp add: mset_filter)
  have 5: "alive (without rs s) = alive s" by (simp add: alive_def 3 fun_eq_iff)
  have V: "count (mset (map request_id rs)) x = (if x \<in> ?V then 1 else 0)" for x
    using d by (metis count_mset_0_iff distinct_count_atmost_1)
  have a: "alive s x" if "x \<in> ?V" for x using that rs by (auto simp: alive_def)
  have "count (places (without rs s) + mset (map request_id rs)) x = (if alive s x \<or> x \<in> {} then 1 else 0)" for x
    using qinvD(2) [OF q, of x] a [of x] V [of x] by (simp add: 4)
  then show ?thesis
    using qinvD(1,3) [OF q] by (intro qinvI) (auto simp: 5 3 2 1 entry_ok_def)
qed

lemma finish_one_qinv:
  assumes "finish_one env fs r s = Inr s'" and "qinv (add_mset (request_id r) E) {} Z s"
    and "status_is_finished fs" and "\<not> resumable r"
  shows "qinv E {} (Z - {request_id r}) s' \<and> keeps s s'"
proof -
  let ?r = "r\<lparr>status := fs\<rparr>"
  obtain d fr ff where f: "free_request env d ?r (put_req ?r (s\<lparr>sc_finished_recving := fr, sc_failed_recving := ff\<rparr>)) = Inr s'"
  proof (cases "status r = WAITING_FOR_REMOTE_KVS")
    case True
    then show thesis using assms(1) by (intro that) (simp add: finish_one_def Let_def)
  next
    case False
    have "s\<lparr>sc_finished_recving := sc_finished_recving s, sc_failed_recving := sc_failed_recving s\<rparr> = s" by simp
    then show thesis using assms(1) that [of False "sc_failed_recving s" "sc_finished_recving s"] False
      by (simp add: finish_one_def Let_def)
  qed
  let ?s = "s\<lparr>sc_finished_recving := fr, sc_failed_recving := ff\<rparr>"
  have fin: "is_finished ?r" using assms(3) by (simp add: is_finished_def)
  have "qinv E {} (Z - {request_id r}) (put_req ?r ?s)"
    using qinv_finish_transit [of ?r E "{}" Z ?s] assms(2,4) fin by simp
  moreover have "keeps s (put_req ?r ?s)" using fin by (simp add: keeps_def)
  ultimately show ?thesis
    using free_request_qinv [OF f, of E "{}" "Z - {request_id r}"] fin by (auto intro: keeps_trans)
qed

lemma finish_all_qinv:
  assumes "fold_res (finish_one env fs) rs s = Inr s'"
    and "qinv (mset (map request_id rs)) {} (set (map request_id rs)) s"
    and "status_is_finished fs" and "\<forall>r\<in>set rs. \<not> resumable r" and "distinct (map request_id rs)"
  shows "qinv {#} {} {} s' \<and> keeps s s'"
  using assms
proof (induction rs arbitrary: s)
  case (Cons r rs)
  then obtain t where t: "finish_one env fs r s = Inr t" "fold_res (finish_one env fs) rs t = Inr s'"
    by (auto simp: and_then_eq_Inr)
  have "qinv (mset (map request_id rs)) {} (set (map request_id (r # rs)) - {request_id r}) t" "keeps s t"
    using finish_one_qinv [OF t(1) _ Cons.prems(3), of "mset (map request_id rs)" "set (map request_id (r # rs))"]
      Cons.prems(2,4) by simp_all
  moreover have "set (map request_id (r # rs)) - {request_id r} = set (map request_id rs)" using Cons.prems(5) by auto
  ultimately show ?case using Cons.IH [OF t(2)] Cons.prems(3-5) by (auto intro: keeps_trans)
qed simp

lemma finish_requests_qinv:
  assumes "finish_requests env ids fs s = Inr (res, s')" and "qinv {#} {} {} s"
  shows "qinv {#} {} {} s' \<and> keeps s s'"
proof -
  define l where "l = (case ids of None \<Rightarrow> keys (sc_requests s) | Some ids \<Rightarrow> remdups ids)"
  have "distinct l" using qinvD(1) [OF assms(2)] by (simp add: l_def split: option.splits)
  obtain rs n where rs: "collect_finished l s = (rs, s\<lparr>sc_num_waiting_for_streaming_input := n\<rparr>)"
    "map request_id rs = filter (alive s) l"
    "\<forall>r\<in>set rs. map_of (sc_requests s) (request_id r) = Some r \<and> \<not> is_finished r"
    using collect_finished_spec [of s l] qinv_id [OF assms(2)] by blast
  let ?s = "s\<lparr>sc_num_waiting_for_streaming_input := n\<rparr>"
  have f: "fold_res (finish_one env fs) rs (without rs ?s) = Inr s'" "status_is_finished fs"
    using assms(1) unfolding finish_requests_def l_def [symmetric] rs(1) Let_def without_def
    by (auto simp: and_then_eq_Inr)
  have d: "distinct (map request_id rs)" unfolding rs(2) using \<open>distinct l\<close> by simp
  have "qinv (mset (map request_id rs)) {} (set (map request_id rs)) (without rs ?s)"
    using without_qinv [of ?s rs] assms(2) rs(3) d by simp
  moreover have "\<forall>r\<in>set rs. \<not> resumable r" using rs(3) qinv_id [OF assms(2)] by blast
  moreover have "keeps s (without rs ?s)" by (simp add: without_def Let_def)
  ultimately show ?thesis using finish_all_qinv [OF f(1) _ f(2) _ d] keeps_trans by blast
qed

end
