(* ===== verification/Sched_Step.thy ===== *)
theory Sched_Step
  imports Sched_Queues
begin

text \<open>
  A scheduling step keeps every live request in one place and stays within the configured limits. The
  invariant of a step relates the requests it has scheduled to the running list and the tokens it has
  given out to the budget; its part on limits is conditional, since it needs requests that have not
  computed more tokens than they have.
\<close>

section \<open>Lists and dicts\<close>

lemma butlast_split: "xs = as @ x # bs \<Longrightarrow> last xs \<noteq> x \<Longrightarrow> butlast xs = as @ x # butlast bs \<and> last xs = last bs \<and> bs \<noteq> []"
  by (auto simp: butlast_append split: if_splits)

lemma sum_delete:
  "distinct (keys d) \<Longrightarrow> map_of d k = Some n \<Longrightarrow> sum_list (map snd (AList.delete k d)) = sum_list (map snd d) - (n :: int)"
proof (induction d)
  case (Cons p d)
  obtain k' v where p: "p = (k', v)" by fastforce
  show ?case
  proof (cases "k' = k")
    case True
    then have "AList.delete k d = d" using Cons.prems p by (simp add: delete_id)
    then show ?thesis using True Cons.prems p by simp
  qed (use Cons p in simp)
qed simp

lemma sum_update_new: "k \<notin> set (keys d) \<Longrightarrow> sum_list (map snd (AList.update k n d)) = sum_list (map snd d) + (n :: int)"
  by (simp add: update_new)

lemma snd_delete: "snd ` set (AList.delete k d) \<subseteq> snd ` set d"
  by (auto simp: AList.delete_eq)

section \<open>Moves between queues\<close>

lemma qinv_alive:
  assumes "qinv E {} Z s" and "x \<in># places s + E"
  obtains r where "map_of (sc_requests s) x = Some r" "\<not> is_finished r" "request_id r = x" "\<not> resumable r"
proof -
  have "count (places s + E) x > 0" using assms(2) unfolding count_greater_zero_iff .
  then have "alive s x" unfolding qinvD(2) [OF assms(1), of x] by (simp split: if_splits)
  then obtain r where "map_of (sc_requests s) x = Some r" "\<not> is_finished r" by (auto simp: alive_def)
  then show thesis using that qinv_id [OF assms(1)] by blast
qed

lemma preempt_qinv:
  assumes p: "preempt_request rid (s\<lparr>sc_running := run\<rparr>) = Inr s'" and q: "qinv E {} {} s"
    and m: "mset (sc_running s) = add_mset rid (mset run)"
  shows "qinv E {} {} s'" and "sc_running s' = run" and "sc_pause_state s' = sc_pause_state s"
    and "\<exists>r. map_of (sc_requests s) rid = Some r \<and> sc_requests s' = AList.update rid
      (r\<lparr>status := PREEMPTED, num_computed_tokens := 0, spec_token_ids := [], num_preemptions := num_preemptions r + 1\<rparr>) (sc_requests s)"
proof -
  let ?r = "\<lambda>r. r\<lparr>status := PREEMPTED, num_computed_tokens := 0, spec_token_ids := [], num_preemptions := num_preemptions r + 1\<rparr>"
  have "rid \<in># places s + E" using m by (simp add: places_def)
  then obtain r where r: "map_of (sc_requests s) rid = Some r" "\<not> is_finished r" "request_id r = rid" "\<not> resumable r"
    by (rule qinv_alive [OF q])
  then obtain k e where s': "s' = (let s1 = put_req (?r r) (s\<lparr>sc_running := run, sc_kv := k, sc_encoder := e\<rparr>)
      in s1\<lparr>sc_waiting := rq_prepend (req_lt s1) rid (sc_waiting s1)\<rparr>)"
    using p by (auto simp: preempt_request_def get_req_def and_then_eq_Inr Let_def)
  then show "sc_running s' = run" "sc_pause_state s' = sc_pause_state s" by (simp_all add: Let_def)
  have reqs: "sc_requests s' = AList.update rid (?r r) (sc_requests s)" using s' r(3) by (simp add: Let_def put_req_def)
  then show "\<exists>r. map_of (sc_requests s) rid = Some r \<and> sc_requests s' = AList.update rid (?r r) (sc_requests s)" using r(1) by blast
  have w: "rq_elems (sc_waiting s') = add_mset rid (rq_elems (sc_waiting s))" "sc_skipped_waiting s' = sc_skipped_waiting s"
    "sc_running s' = run" using s' by (simp_all add: Let_def)
  have pl: "places s' = places s" using m w by (simp add: places_def)
  have al: "alive s' = alive s" using r by (auto simp: alive_def reqs update_conv' fun_eq_iff is_finished_def)
  have out: "rid \<notin> set run"
    using qinv_distinct(1) [OF q] m by (metis distinct.simps(2) mset.simps(2) mset_eq_imp_distinct_iff)
  have mem: "x \<in> set run \<longleftrightarrow> x \<in> set (sc_running s)" if "x \<noteq> rid" for x
    using m that by (metis insert_iff mset.simps(2) set_mset_mset set_simps(2) mset_eq_setD)
  show "qinv E {} {} s'"
  proof (rule qinvI)
    show "distinct (keys (sc_requests s'))" using qinvD(1) [OF q] by (simp add: reqs distinct_update)
    show "count (places s' + E) x = (if alive s' x \<or> x \<in> {} then 1 else 0)" for x
      using qinvD(2) [OF q, of x] by (simp add: pl al)
    show "entry_ok {} s' x rx" if "map_of (sc_requests s') x = Some rx" for x rx
    proof (cases "x = rid")
      case True
      then show ?thesis using that r out w by (auto simp: reqs update_conv' entry_ok_def is_blocked_waiting_status_def)
    next
      case False
      then show ?thesis using that qinvD(3) [OF q, of x rx] mem [OF False] w
        by (simp add: reqs update_conv' entry_ok_def)
    qed
  qed
qed

section \<open>The invariant of a step\<close>

text \<open>No request has computed more tokens than it has, or as many as the model can take.\<close>

definition req_progress :: "sched_config \<Rightarrow> request \<Rightarrow> bool" where
  "req_progress cfg r \<longleftrightarrow> num_computed_tokens r \<le> num_tokens r + num_output_placeholders r \<and>
     num_computed_tokens r < cfg_max_model_len cfg \<and> 0 \<le> num_output_placeholders r"

definition progress :: "sched_config \<Rightarrow> scheduler \<Rightarrow> bool" where
  "progress cfg s \<longleftrightarrow> 0 < cfg_max_model_len cfg \<and> (\<forall>rid r. map_of (sc_requests s) rid = Some r \<longrightarrow> req_progress cfg r)"

definition scheduled :: "step \<Rightarrow> string list" where
  "scheduled st = st_new_reqs st @ st_resumed_reqs st @ st_running_reqs st"

text \<open>\<open>B\<close>: the token budget of the step; \<open>M\<close>: the most requests that may run; \<open>ok\<close>: whether the limits are kept.\<close>

definition step_inv :: "bool \<Rightarrow> int \<Rightarrow> nat \<Rightarrow> string multiset \<Rightarrow> step \<Rightarrow> bool" where
  "step_inv ok B M E st \<longleftrightarrow> qinv E {} {} (st_sched st) \<and> length (sc_running (st_sched st)) \<le> M \<and>
     distinct (scheduled st) \<and> set (scheduled st) \<subseteq> set (sc_running (st_sched st)) \<and>
     distinct (keys (st_num_scheduled st)) \<and> set (keys (st_num_scheduled st)) = set (scheduled st) \<and>
     st_budget st + sum_list (map snd (st_num_scheduled st)) = B \<and>
     (ok \<longrightarrow> 0 \<le> st_budget st \<and> (\<forall>n\<in>snd ` set (st_num_scheduled st). 0 \<le> n))"

lemma step_invD:
  assumes "step_inv ok B M E st"
  shows "qinv E {} {} (st_sched st)" "distinct (scheduled st)" "set (scheduled st) \<subseteq> set (sc_running (st_sched st))"
    "distinct (keys (st_num_scheduled st))" "set (keys (st_num_scheduled st)) = set (scheduled st)"
    "st_budget st + sum_list (map snd (st_num_scheduled st)) = B"
    "ok \<Longrightarrow> 0 \<le> st_budget st" "ok \<Longrightarrow> \<forall>n\<in>snd ` set (st_num_scheduled st). 0 \<le> n"
    "length (sc_running (st_sched st)) \<le> M"
  using assms by (simp_all add: step_inv_def)

text \<open>A change of the scheduler alone.\<close>

lemma step_inv_sched:
  assumes "step_inv ok B M E st" and "qinv E' {} {} s" and "set (scheduled st) \<subseteq> set (sc_running s)"
    and "length (sc_running s) \<le> M"
  shows "step_inv ok B M E' (st\<lparr>st_sched := s\<rparr>)"
  using assms by (simp add: step_inv_def scheduled_def)

lemma on_sched_sel [simp]:
  "st_sched (on_sched f st) = f (st_sched st)" "scheduled (on_sched f st) = scheduled st"
  "st_budget (on_sched f st) = st_budget st" "st_num_scheduled (on_sched f st) = st_num_scheduled st"
  "st_preempted (on_sched f st) = st_preempted st" "st_running_reqs (on_sched f st) = st_running_reqs st"
  "st_new_reqs (on_sched f st) = st_new_reqs st" "st_resumed_reqs (on_sched f st) = st_resumed_reqs st"
  by (simp_all add: on_sched_def scheduled_def)

lemma step_inv_on_sched:
  assumes "step_inv ok B M E st" and "qinv E {} {} (f (st_sched st))" and "sc_running (f (st_sched st)) = sc_running (st_sched st)"
  shows "step_inv ok B M E (on_sched f st)"
  using step_inv_sched [OF assms(1,2)] step_invD(3,9) [OF assms(1)] assms(3) by (simp add: on_sched_def)

lemma progress_put:
  "progress cfg s \<Longrightarrow> req_progress cfg r \<Longrightarrow> progress cfg (put_req r s)"
  by (auto simp: progress_def split: if_splits)

lemma progress_frame [simp]:
  "progress cfg (s\<lparr>sc_kv := k\<rparr>) = progress cfg s" "progress cfg (s\<lparr>sc_encoder := e\<rparr>) = progress cfg s"
  "progress cfg (s\<lparr>sc_running := ru\<rparr>) = progress cfg s"
  by (simp_all add: progress_def)

lemma memo_progress: "memo_only r r' \<Longrightarrow> req_progress cfg r' = req_progress cfg r"
  by (auto simp: memo_only_def req_progress_def num_tokens_def)

section \<open>Preemption in the running phase\<close>

lemma unschedule_inv:
  assumes u: "unschedule rid (idx, st) = Inr (idx', st')" and d: "distinct (scheduled st)"
    and k: "distinct (keys (st_num_scheduled st))" "set (keys (st_num_scheduled st)) = set (scheduled st)"
    and b: "st_budget st + sum_list (map snd (st_num_scheduled st)) = B"
    and l: "ok \<Longrightarrow> 0 \<le> st_budget st \<and> (\<forall>n\<in>snd ` set (st_num_scheduled st). 0 \<le> n)"
    and n: "st_new_reqs st = []" "st_resumed_reqs st = []"
  shows "scheduled st' = remove1 rid (scheduled st) \<and> st_sched st' = st_sched st \<and> st_new_reqs st' = [] \<and>
    st_resumed_reqs st' = [] \<and> st_preempted st' = st_preempted st \<and>
    idx' = (if rid \<in> set (st_running_reqs st) then idx - 1 else idx) \<and>
    distinct (keys (st_num_scheduled st')) \<and> set (keys (st_num_scheduled st')) = set (scheduled st') \<and>
    st_budget st' + sum_list (map snd (st_num_scheduled st')) = B \<and>
    (ok \<longrightarrow> st_budget st \<le> st_budget st' \<and> 0 \<le> st_budget st' \<and> (\<forall>n\<in>snd ` set (st_num_scheduled st'). 0 \<le> n))"
proof (cases "rid \<in> set (st_running_reqs st)")
  case False
  then show ?thesis using assms by (auto simp: unschedule_def scheduled_def remove1_idem)
next
  case True
  then obtain x bl e eb where m: "map_of (st_num_scheduled st) rid = Some x" and i: "idx' = idx - 1"
    and st': "st' = st\<lparr>st_running_reqs := remove1 rid (st_running_reqs st), st_num_scheduled := AList.delete rid (st_num_scheduled st),
      st_budget := st_budget st + x, st_new_blocks := bl, st_spec_tokens := AList.delete rid (st_spec_tokens st),
      st_encoder_inputs := e, st_encoder_budget := eb\<rparr>"
    using u by (auto simp: unschedule_def dict_pop_def and_then_eq_Inr of_option_eq_Inr)
  have x: "x \<in> snd ` set (st_num_scheduled st)" using map_of_SomeD [OF m] by force
  have s: "scheduled st' = remove1 rid (scheduled st)" using n st' by (simp add: scheduled_def)
  have "set (keys (AList.delete rid (st_num_scheduled st))) = set (keys (st_num_scheduled st)) - {rid}"
    by (simp add: delete_keys)
  also have "\<dots> = set (remove1 rid (scheduled st))" using d k(2) by (simp add: set_remove1_eq)
  finally have ks: "set (keys (st_num_scheduled st')) = set (scheduled st')" using s st' by simp
  have "(\<forall>n\<in>snd ` set (st_num_scheduled st'). 0 \<le> n) \<and> 0 \<le> x" if ok
  proof -
    have "st_num_scheduled st' = AList.delete rid (st_num_scheduled st)" using st' by simp
    then show ?thesis using l [OF that] x snd_delete [of rid "st_num_scheduled st"] by (simp only: subset_iff) blast
  qed
  then show ?thesis using s ks i st' n True l b k(1) sum_delete [OF k(1) m] by (auto simp: distinct_delete)
qed

text \<open>
  While a request gets its blocks: it stands behind all the requests scheduled so far, and not behind
  the index of the loop.
\<close>

definition alloc_inv :: "bool \<Rightarrow> sched_config \<Rightarrow> int \<Rightarrow> nat \<Rightarrow> string \<Rightarrow> int \<Rightarrow> int \<Rightarrow> step \<Rightarrow> bool" where
  "alloc_inv ok cfg B M rid n idx st \<longleftrightarrow> step_inv ok B M {#} st \<and> st_new_reqs st = [] \<and> st_resumed_reqs st = [] \<and>
     (ok \<longrightarrow> progress cfg (st_sched st) \<and> n \<le> st_budget st) \<and>
     (\<exists>as bs. sc_running (st_sched st) = as @ rid # bs \<and> set (st_running_reqs st) \<subseteq> set as \<and> int (length as) \<le> idx)"

definition run_inv :: "bool \<Rightarrow> sched_config \<Rightarrow> int \<Rightarrow> nat \<Rightarrow> int \<Rightarrow> step \<Rightarrow> bool" where
  "run_inv ok cfg B M idx st \<longleftrightarrow> step_inv ok B M {#} st \<and> st_new_reqs st = [] \<and> st_resumed_reqs st = [] \<and>
     (ok \<longrightarrow> progress cfg (st_sched st)) \<and> 0 \<le> idx \<and>
     set (st_running_reqs st) \<subseteq> set (take (nat idx) (sc_running (st_sched st)))"

text \<open>Dropping the victim from the running list, by either policy.\<close>

lemma pick_victim_fcfs:
  assumes "pick_victim cfg (idx, st) = Inr (v, idx', st2)" and "cfg_policy cfg \<noteq> PRIORITY"
  shows "sc_running (st_sched st) \<noteq> [] \<and> v = last (sc_running (st_sched st)) \<and> idx' = idx \<and>
    st2 = on_sched (\<lambda>s. s\<lparr>sc_running := butlast (sc_running s)\<rparr>) st"
  using assms by (auto simp: pick_victim_def split: if_splits)

lemma pick_victim_prio:
  assumes "pick_victim cfg (idx, st) = Inr (v, idx', st2)" and "cfg_policy cfg = PRIORITY"
  shows "v \<in> set (sc_running (st_sched st)) \<and>
    unschedule v (idx, on_sched (\<lambda>s. s\<lparr>sc_running := remove1 v (sc_running (st_sched st))\<rparr>) st) = Inr (idx', st2)"
  using assms by (auto simp: pick_victim_def list_remove_def and_then_eq_Inr split: if_splits)

lemma pick_victim_inv:
  assumes p: "pick_victim cfg (idx, st) = Inr (v, idx', st2)" and a: "alloc_inv ok cfg B M rid n idx st"
  obtains run where "mset (sc_running (st_sched st)) = add_mset v (mset run)"
    and "st_sched st2 = (st_sched st)\<lparr>sc_running := run\<rparr>"
    and "scheduled st2 = remove1 v (scheduled st)" and "st_new_reqs st2 = []" "st_resumed_reqs st2 = []"
    and "distinct (keys (st_num_scheduled st2))" "set (keys (st_num_scheduled st2)) = set (scheduled st2)"
    and "st_budget st2 + sum_list (map snd (st_num_scheduled st2)) = B"
    and "ok \<longrightarrow> n \<le> st_budget st2 \<and> 0 \<le> st_budget st2 \<and> (\<forall>n\<in>snd ` set (st_num_scheduled st2). 0 \<le> n)"
    and "v \<noteq> rid \<longrightarrow> (\<exists>as bs. run = as @ rid # bs \<and> set (st_running_reqs st2) \<subseteq> set as \<and> int (length as) \<le> idx')"
proof -
  obtain as bs where r: "sc_running (st_sched st) = as @ rid # bs" "set (st_running_reqs st) \<subseteq> set as" "int (length as) \<le> idx"
    using a by (auto simp: alloc_inv_def)
  have si: "step_inv ok B M {#} st" and n: "st_new_reqs st = []" "st_resumed_reqs st = []" and nb: "ok \<Longrightarrow> n \<le> st_budget st"
    using a by (simp_all add: alloc_inv_def)
  note d = step_invD [OF si]
  have sch: "scheduled st = st_running_reqs st" using n by (simp add: scheduled_def)
  have dr: "distinct (as @ rid # bs)" using qinv_distinct(1) [OF d(1)] r(1) by simp
  show thesis
  proof (cases "cfg_policy cfg = PRIORITY")
    case False
    note f = pick_victim_fcfs [OF p False]
    have v: "v \<notin> set (scheduled st)"
    proof (cases "v = rid")
      case True
      then show ?thesis using r(2) dr sch by auto
    next
      case neq: False
      then have "v \<in> set bs" using f butlast_split [OF r(1)] by auto
      then show ?thesis using r(2) dr sch by auto
    qed
    show thesis
    proof (rule that [of "butlast (sc_running (st_sched st))"], goal_cases)
      case 1
      then show ?case using f by (metis append_butlast_last_id mset_append mset_single_iff_right union_mset_add_mset_right add.right_neutral mset.simps(1) mset.simps(2))
    next
      case 10
      show ?case
      proof
      assume "v \<noteq> rid"
      then have b: "butlast (sc_running (st_sched st)) = as @ rid # butlast bs" using f butlast_split [OF r(1)] by simp
      then show "\<exists>as bs. butlast (sc_running (st_sched st)) = as @ rid # bs \<and> set (st_running_reqs st2) \<subseteq> set as \<and> int (length as) \<le> idx'"
        using r f by (intro exI [of _ as] exI [of _ "butlast bs"]) simp
      qed
    qed (use f v n d nb remove1_idem [OF v] in \<open>simp_all add: on_sched_def scheduled_def\<close>)
  next
    case True
    note f = pick_victim_prio [OF p True]
    let ?st = "on_sched (\<lambda>s. s\<lparr>sc_running := remove1 v (sc_running (st_sched st))\<rparr>) st"
    have u: "scheduled st2 = remove1 v (scheduled st) \<and> st_sched st2 = (st_sched st)\<lparr>sc_running := remove1 v (sc_running (st_sched st))\<rparr> \<and>
      st_new_reqs st2 = [] \<and> st_resumed_reqs st2 = [] \<and>
      idx' = (if v \<in> set (st_running_reqs st) then idx - 1 else idx) \<and>
      distinct (keys (st_num_scheduled st2)) \<and> set (keys (st_num_scheduled st2)) = set (scheduled st2) \<and>
      st_budget st2 + sum_list (map snd (st_num_scheduled st2)) = B \<and>
      (ok \<longrightarrow> st_budget st \<le> st_budget st2 \<and> 0 \<le> st_budget st2 \<and> (\<forall>n\<in>snd ` set (st_num_scheduled st2). 0 \<le> n))"
      using unschedule_inv [of v idx ?st idx' st2 B ok] f d n by simp
    have s2: "st_running_reqs st2 = remove1 v (st_running_reqs st)" using u sch by (auto simp: scheduled_def)
    show thesis
    proof (rule that [of "remove1 v (sc_running (st_sched st))"], goal_cases)
      case 1
      then show ?case using f by simp
    next
      case 10
      show ?case
      proof
        assume vr: "v \<noteq> rid"
        show "\<exists>as bs. remove1 v (sc_running (st_sched st)) = as @ rid # bs \<and> set (st_running_reqs st2) \<subseteq> set as \<and>
          int (length as) \<le> idx'"
        proof (cases "v \<in> set as")
        case va: True
        then have "remove1 v (sc_running (st_sched st)) = remove1 v as @ rid # bs" using r(1) by (simp add: remove1_append)
        moreover have "set (st_running_reqs st2) \<subseteq> set (remove1 v as)"
          using s2 r(2) dr d(2) sch by (auto simp: set_remove1_eq)
        moreover have "int (length (remove1 v as)) \<le> idx'"
        proof -
          have "int (length (remove1 v as)) = int (length as) - 1"
            using length_pos_if_in_set [OF va] unfolding length_remove1 if_P [OF va] by linarith
          then show ?thesis using u r(3) by (simp split: if_splits)
        qed
        ultimately show ?thesis by blast
      next
        case vn: False
        then have "remove1 v (sc_running (st_sched st)) = as @ rid # remove1 v bs" using r(1) vr by (simp add: remove1_append)
        moreover have "v \<notin> set (st_running_reqs st)" using vn r(2) by blast
        ultimately show ?thesis using u s2 r(2,3) by (auto simp: remove1_idem)
        qed
      qed
    qed (use u nb in auto)
  qed
qed

definition run_done :: "bool \<Rightarrow> int \<Rightarrow> nat \<Rightarrow> step \<Rightarrow> bool" where
  "run_done ok B M st \<longleftrightarrow> step_inv ok B M {#} st \<and> st_new_reqs st = [] \<and> st_resumed_reqs st = []"

lemma preempt_victim_inv:
  assumes a: "alloc_inv ok cfg B M rid n idx st" and p: "pick_victim cfg (idx, st) = Inr (v, idx', st2)"
    and e: "preempt_request v (st_sched st2) = Inr s'"
  shows "let st3 = st2\<lparr>st_sched := s', st_preempted := ps\<rparr>
    in if v = rid then run_done ok B M st3 else alloc_inv ok cfg B M rid n idx' st3"
proof -
  obtain run where m: "mset (sc_running (st_sched st)) = add_mset v (mset run)"
    and s2: "st_sched st2 = (st_sched st)\<lparr>sc_running := run\<rparr>" "scheduled st2 = remove1 v (scheduled st)"
    and n2: "st_new_reqs st2 = []" "st_resumed_reqs st2 = []"
    and k2: "distinct (keys (st_num_scheduled st2))" "set (keys (st_num_scheduled st2)) = set (scheduled st2)"
    and b2: "st_budget st2 + sum_list (map snd (st_num_scheduled st2)) = B"
    and l2: "ok \<longrightarrow> n \<le> st_budget st2 \<and> 0 \<le> st_budget st2 \<and> (\<forall>n\<in>snd ` set (st_num_scheduled st2). 0 \<le> n)"
    and pos: "v \<noteq> rid \<longrightarrow> (\<exists>as bs. run = as @ rid # bs \<and> set (st_running_reqs st2) \<subseteq> set as \<and> int (length as) \<le> idx')"
    by (rule pick_victim_inv [OF p a])
  have si: "step_inv ok B M {#} st" and pr: "ok \<Longrightarrow> progress cfg (st_sched st)" using a by (simp_all add: alloc_inv_def)
  note d = step_invD [OF si]
  note q = preempt_qinv [OF e [unfolded s2(1)] d(1) m]
  have "distinct (sc_running (st_sched st))" by (rule qinv_distinct(1) [OF d(1)])
  then have "set run = set (sc_running (st_sched st)) - {v}"
    using m by (metis Diff_insert_absorb distinct.simps(2) list.simps(15) mset.simps(2) mset_eq_imp_distinct_iff mset_eq_setD)
  then have sub: "set (scheduled st2) \<subseteq> set run" using s2(2) d(2,3) by (auto simp: set_remove1_eq)
  have len: "length run \<le> length (sc_running (st_sched st))"
    using arg_cong [OF m, of size] by simp
  have "distinct (scheduled st2)" using s2(2) d(2) by (simp add: distinct_remove1)
  then have "step_inv ok B M {#} (st2\<lparr>st_sched := s', st_preempted := ps\<rparr>)"
    using q(1,2) sub k2 b2 l2 d(9) len by (simp add: step_inv_def scheduled_def)
  moreover have "progress cfg s'" if ok
    using pr [OF that] q(4) by (auto simp: progress_def req_progress_def update_conv' num_tokens_def split: if_splits)
  ultimately show ?thesis using n2 l2 pos q(2) by (simp add: Let_def run_done_def alloc_inv_def)
qed

lemma put_memo_inv:
  assumes "qinv E {} {} s" and "map_of (sc_requests s) rid = Some r" and "memo_only r r'"
  shows "qinv E {} {} (put_req r' (s\<lparr>sc_kv := k\<rparr>))" and "progress cfg s \<Longrightarrow> progress cfg (put_req r' (s\<lparr>sc_kv := k\<rparr>))"
proof -
  have "request_id r = rid" using qinv_id [OF assms(1,2)] by simp
  then show "qinv E {} {} (put_req r' (s\<lparr>sc_kv := k\<rparr>))"
    using qinv_put [of E "{}" "{}" "s\<lparr>sc_kv := k\<rparr>" r' r] assms memo_sel [OF assms(3)] by simp
  assume p: "progress cfg s"
  then have "req_progress cfg r'" using assms(2) by (simp add: progress_def memo_progress [OF assms(3)])
  then show "progress cfg (put_req r' (s\<lparr>sc_kv := k\<rparr>))" using p by (simp add: progress_put)
qed

lemma alloc_inv_sched:
  assumes "alloc_inv ok cfg B M rid n idx st" and "qinv {#} {} {} (f (st_sched st))"
    and "sc_running (f (st_sched st)) = sc_running (st_sched st)"
    and "ok \<Longrightarrow> progress cfg (st_sched st) \<Longrightarrow> progress cfg (f (st_sched st))"
  shows "alloc_inv ok cfg B M rid n idx (on_sched f st)"
  using assms step_inv_on_sched [of ok B M "{#}" st f] by (auto simp: alloc_inv_def)

lemma allocate_or_preempt_inv:
  assumes "alloc_inv ok cfg B M rid n idx st"
  shows "res_all (\<lambda>(bl, idx', st'). if bl = None then run_done ok B M st' else alloc_inv ok cfg B M rid n idx' st')
    (allocate_or_preempt cfg env fuel rid n (idx, st))"
  using assms
proof (induction fuel arbitrary: idx st)
  case (Suc fuel)
  show ?case unfolding allocate_or_preempt.simps
  proof (intro res_all_and_then res_all_prod, goal_cases)
    case (1 r p bl kr k r')
    let ?f = "\<lambda>s. put_req r' (s\<lparr>sc_kv := k\<rparr>)"
    have "step_inv ok B M {#} st" using Suc.prems by (simp add: alloc_inv_def)
    note q = step_invD(1) [OF this]
    have r: "map_of (sc_requests (st_sched st)) rid = Some r" "memo_only r r'"
      using 1 by (simp_all add: get_req_eq allocate_slots_memo)
    have a: "alloc_inv ok cfg B M rid n idx (on_sched ?f st)"
      using put_memo_inv [OF q r] by (intro alloc_inv_sched [OF Suc.prems]) simp_all
    show ?case
    proof (cases bl)
      case (Some b)
      then show ?thesis using a by (simp add: Let_def)
    next
      case None
      have "res_all (\<lambda>(bl, idx', st'). if bl = None then run_done ok B M st' else alloc_inv ok cfg B M rid n idx' st')
        (and_then (pick_victim cfg (idx, on_sched ?f st)) (\<lambda>(victim, idx', st2).
           and_then (preempt_request victim (st_sched st2)) (\<lambda>s'.
             let st3 = st2\<lparr>st_sched := s', st_preempted := st_preempted st2 @ [victim]\<rparr>
             in if victim = rid then Inr (None, idx', st3) else allocate_or_preempt cfg env fuel rid n (idx', st3))))"
      proof (intro res_all_and_then res_all_prod, goal_cases)
        case (1 x v y idx' st2 s')
        then have "let st3 = st2\<lparr>st_sched := s', st_preempted := st_preempted st2 @ [v]\<rparr>
          in if v = rid then run_done ok B M st3 else alloc_inv ok cfg B M rid n idx' st3"
          by (intro preempt_victim_inv [OF a]) simp_all
        then show ?case using Suc.IH by (cases "v = rid") (simp_all add: Let_def)
      qed
      then show ?thesis using None by (simp add: Let_def)
    qed
  qed
qed simp

section \<open>The running phase\<close>

lemma encoder_loop_bounds:
  "0 \<le> ep_num_new_tokens p \<Longrightarrow> res_all (\<lambda>(p', m'). 0 \<le> ep_num_new_tokens p' \<and> ep_num_new_tokens p' \<le> ep_num_new_tokens p)
     (encoder_loop encdec disable has_item r computed shift fs (p, m))"
proof (induction fs arbitrary: p m)
  case (Cons f fs)
  obtain i ff where f: "f = (i, ff)" by fastforce
  have c: "res_all (\<lambda>(p', m'). 0 \<le> ep_num_new_tokens p' \<and> ep_num_new_tokens p' \<le> ep_num_new_tokens p)
     (encoder_loop encdec disable has_item r computed shift fs (q, m))" if "ep_num_new_tokens q = ep_num_new_tokens p" for q m
    using Cons.IH [of q m] Cons.prems that by simp
  have "res_all (\<lambda>(p', m'). 0 \<le> ep_num_new_tokens p' \<and> ep_num_new_tokens p' \<le> ep_num_new_tokens p)
     (schedule_input disable has_item r computed shift i ff (encoder_loop encdec disable has_item r computed shift fs) (p, m))"
    if "\<not> mm_offset ff \<ge> computed + ep_num_new_tokens p + shift" for m
    unfolding schedule_input_def Let_def prod.case
    by (intro res_all_intros c) (use that Cons.prems in auto)
  then show ?case unfolding f encoder_loop.simps Let_def
    by (intro res_all_intros c; simp add: Cons.prems)
qed simp

lemma plan_encoder_inv:
  "res_all (\<lambda>((inputs, n', b, ext), st'). (\<exists>e. st' = on_sched (\<lambda>s. s\<lparr>sc_encoder := e\<rparr>) st) \<and> (0 \<le> n \<longrightarrow> 0 \<le> n' \<and> n' \<le> n))
     (plan_encoder cfg env r computed n st)"
proof -
  have same: "on_sched (\<lambda>s. s\<lparr>sc_encoder := sc_encoder (st_sched st)\<rparr>) st = st" by (simp add: on_sched_def)
  have t: "res_all (\<lambda>((inputs, n', b, ext), m'). 0 \<le> n \<longrightarrow> 0 \<le> n' \<and> n' \<le> n)
    (try_schedule_encoder_inputs encdec disable has_item r computed n budget shift m)"
    for encdec disable has_item budget shift m
  proof (cases "0 \<le> n")
    case True
    let ?p = "\<lparr>ep_inputs = [], ep_num_new_tokens = n, ep_budget = budget, ep_external = [], ep_hashes = {}, ep_num_embeds = 0\<rparr>"
    have b: "0 \<le> ep_num_new_tokens p \<and> ep_num_new_tokens p \<le> n"
      if "encoder_loop encdec disable has_item r computed shift fs (?p, m) = Inr (p, m')" for fs p m'
      using res_allD [OF encoder_loop_bounds that] True by simp
    show ?thesis unfolding try_schedule_encoder_inputs_def
      by (intro res_all_intros) (use True b in auto)
  qed (simp add: res_all_def split_beta)
  show ?thesis
  proof (cases "has_encoder_inputs r")
    case True
    show ?thesis unfolding plan_encoder_def if_P [OF True]
    proof (intro res_all_and_then, goal_cases)
      case (1 x)
      obtain inputs n' b ext e where x: "x = ((inputs, n', b, ext), e)" by (metis surj_pair)
      show ?case using res_allD [OF t 1] x by auto
    qed
  next
    case False
    then show ?thesis using same by (auto simp: plan_encoder_def intro: exI [of _ "sc_encoder (st_sched st)"])
  qed
qed

lemma mamba_split_bounds:
  assumes "0 < cfg_cache_block_size cfg" and "0 \<le> n"
  shows "res_all (\<lambda>n'. 0 \<le> n' \<and> n' \<le> n) (mamba_block_aligned_split cfg r n a b)"
proof -
  have "n div cfg_cache_block_size cfg * cfg_cache_block_size cfg \<le> n" "0 \<le> n div cfg_cache_block_size cfg"
    using assms by (simp_all add: div_mult_mod_eq [symmetric] minus_mod_eq_div_mult [symmetric] pos_imp_zdiv_nonneg_iff)
  then show ?thesis unfolding mamba_block_aligned_split_def Let_def
    by (intro res_all_intros) (use assms in auto)
qed

lemma mamba_opt_bounds:
  assumes "(if c then mamba_block_aligned_split cfg r n1 a b else Inr n1) = Inr n" and "0 < cfg_cache_block_size cfg" and "0 \<le> n1"
  shows "0 \<le> n \<and> n \<le> n1"
proof (cases c)
  case True
  then show ?thesis using res_allD [OF mamba_split_bounds [OF assms(2,3)], of r a b n] assms(1) by simp
qed (use assms in simp)

lemma running_num_new_bounds:
  assumes "req_progress cfg r" and "0 \<le> budget"
  shows "0 \<le> running_num_new cfg r budget \<and> running_num_new cfg r budget \<le> budget"
  using assms by (auto simp: running_num_new_def Let_def req_progress_def num_tokens_with_spec_def num_tokens_def)

lemma step_inv_frame [simp]:
  "step_inv ok B M E (st\<lparr>st_spec_tokens := x\<rparr>) = step_inv ok B M E st"
  "step_inv ok B M E (st\<lparr>st_encoder_inputs := ei\<rparr>) = step_inv ok B M E st"
  "step_inv ok B M E (st\<lparr>st_encoder_budget := eb\<rparr>) = step_inv ok B M E st"
  "step_inv ok B M E (st\<lparr>st_new_blocks := nb\<rparr>) = step_inv ok B M E st"
  by (simp_all add: step_inv_def scheduled_def)

lemma run_inv_sched:
  assumes "run_inv ok cfg B M idx st" and "qinv {#} {} {} (f (st_sched st))"
    and "sc_running (f (st_sched st)) = sc_running (st_sched st)"
    and "ok \<Longrightarrow> progress cfg (st_sched st) \<Longrightarrow> progress cfg (f (st_sched st))"
  shows "run_inv ok cfg B M idx (on_sched f st)"
  using assms step_inv_on_sched [of ok B M "{#}" st f] by (simp add: run_inv_def)

lemma run_inv_frame [simp]:
  "run_inv ok cfg B M idx (st\<lparr>st_spec_tokens := x\<rparr>) = run_inv ok cfg B M idx st"
  "run_inv ok cfg B M idx (st\<lparr>st_encoder_inputs := ei\<rparr>) = run_inv ok cfg B M idx st"
  "run_inv ok cfg B M idx (st\<lparr>st_encoder_budget := eb\<rparr>) = run_inv ok cfg B M idx st"
  by (simp_all add: run_inv_def)

lemma run_inv_qinv: "run_inv ok cfg B M idx st \<Longrightarrow> qinv {#} {} {} (st_sched st)"
  by (simp add: run_inv_def step_inv_def)

lemma schedule_spec_tokens_inv:
  assumes "run_inv ok cfg B M idx st"
  shows "res_all (run_inv ok cfg B M idx) (schedule_spec_tokens rid n st)"
  unfolding schedule_spec_tokens_def Let_def
proof (intro res_all_and_then res_all_if, goal_cases)
  case (1 r)
  then show ?case using assms by simp
next
  case (2 r)
  let ?r = "r\<lparr>spec_token_ids := []\<rparr>"
  have r: "map_of (sc_requests (st_sched st)) rid = Some r" using 2 by (simp add: get_req_eq)
  have q: "qinv {#} {} {} (put_req ?r (st_sched st))"
    using qinv_put [OF run_inv_qinv [OF assms], of ?r r] qinv_id [OF run_inv_qinv [OF assms] r] r by simp
  have "progress cfg (put_req ?r (st_sched st))" if "progress cfg (st_sched st)"
    using that r by (intro progress_put) (auto simp: progress_def req_progress_def num_tokens_def)
  then have "run_inv ok cfg B M idx (on_sched (put_req ?r) st')"
    if "run_inv ok cfg B M idx st'" "st_sched st' = st_sched st" for st'
    using q that by (intro run_inv_sched) simp_all
  then show ?case using assms by simp
qed

lemma allocate_encoder_inputs_sched:
  "res_all (\<lambda>st'. \<exists>e x y. st' = on_sched (\<lambda>s. s\<lparr>sc_encoder := e\<rparr>) (st\<lparr>st_encoder_inputs := x, st_encoder_budget := y\<rparr>))
     (allocate_encoder_inputs rid inputs external b st)"
proof -
  define st1 where "st1 = (if inputs \<noteq> []
    then st\<lparr>st_encoder_inputs := AList.update rid inputs (st_encoder_inputs st), st_encoder_budget := b\<rparr> else st)"
  have "st = st\<lparr>st_encoder_inputs := st_encoder_inputs st, st_encoder_budget := st_encoder_budget st\<rparr>" by simp
  then obtain x y where x: "st1 = st\<lparr>st_encoder_inputs := x, st_encoder_budget := y\<rparr>" unfolding st1_def by metis
  show ?thesis unfolding allocate_encoder_inputs_def Let_def st1_def [symmetric] x
    by (intro res_all_and_then) auto
qed

text \<open>The request just given its blocks is scheduled.\<close>

lemma schedule_running_inv:
  assumes a: "alloc_inv ok cfg B M rid n idx st" and n: "ok \<Longrightarrow> 0 \<le> n"
  shows "run_inv ok cfg B M (idx + 1) (st\<lparr>st_running_reqs := st_running_reqs st @ [rid], st_new_blocks := nb,
    st_num_scheduled := AList.update rid n (st_num_scheduled st), st_budget := st_budget st - n\<rparr>)"
proof -
  obtain as bs where r: "sc_running (st_sched st) = as @ rid # bs" "set (st_running_reqs st) \<subseteq> set as" "int (length as) \<le> idx"
    and si: "step_inv ok B M {#} st" and e: "st_new_reqs st = []" "st_resumed_reqs st = []"
    using a by (auto simp: alloc_inv_def)
  note d = step_invD [OF si]
  have "distinct (as @ rid # bs)" using qinv_distinct(1) [OF d(1)] r(1) by simp
  then have out: "rid \<notin> set (st_running_reqs st)" using r(2) by auto
  then have k: "rid \<notin> set (keys (st_num_scheduled st))" using d(5) e by (simp add: scheduled_def)
  have "Suc (length as) \<le> nat (idx + 1)" using r(3) by linarith
  then have "set (as @ [rid]) \<subseteq> set (take (nat (idx + 1)) (as @ rid # bs))"
    using set_take_subset_set_take [of "Suc (length as)" "nat (idx + 1)" "as @ rid # bs"] by simp
  then have "set (st_running_reqs st @ [rid]) \<subseteq> set (take (nat (idx + 1)) (sc_running (st_sched st)))"
    using r(1,2) by auto
  then show ?thesis
    using a d e out k n sum_update_new [OF k, of n] r(1,3)
    by (auto simp: run_inv_def step_inv_def scheduled_def alloc_inv_def update_new)
qed

lemma run_inv_alloc:
  assumes "run_inv ok cfg B M idx st" and "py_index (sc_running (st_sched st)) idx = Inr rid"
    and "idx < int (length (sc_running (st_sched st)))" and "ok \<Longrightarrow> n \<le> st_budget st"
  shows "alloc_inv ok cfg B M rid n idx st"
proof -
  have i: "0 \<le> idx" using assms(1) by (simp add: run_inv_def)
  let ?l = "sc_running (st_sched st)"
  have l: "nat idx < length ?l" using i assms(3) by linarith
  have "rid = ?l ! nat idx" using assms(2) i l by (metis Inr_inject int_nat_eq py_index_nat)
  then have "?l = take (nat idx) ?l @ rid # drop (Suc (nat idx)) ?l" using id_take_nth_drop [OF l] by simp
  moreover have "set (st_running_reqs st) \<subseteq> set (take (nat idx) ?l)" using assms(1) by (simp add: run_inv_def)
  moreover have "int (length (take (nat idx) ?l)) \<le> idx" using i by simp
  ultimately have "\<exists>as bs. ?l = as @ rid # bs \<and> set (st_running_reqs st) \<subseteq> set as \<and> int (length as) \<le> idx" by blast
  then show ?thesis using assms(1,4) by (simp add: run_inv_def alloc_inv_def)
qed

lemma run_inv_Suc: "run_inv ok cfg B M idx st \<Longrightarrow> run_inv ok cfg B M (idx + 1) st"
proof -
  have "nat idx \<le> nat (idx + 1)" by linarith
  note set_take_subset_set_take [OF this, of "sc_running (st_sched st)"]
  then show "run_inv ok cfg B M idx st \<Longrightarrow> run_inv ok cfg B M (idx + 1) st" unfolding run_inv_def by auto
qed

lemma running_loop_inv:
  assumes "run_inv ok cfg B M idx st" and c: "ok \<Longrightarrow> 0 < cfg_cache_block_size cfg"
  shows "res_all (run_done ok B M) (running_loop cfg env fuel (idx, st))"
  using assms(1)
proof (induction fuel arbitrary: idx st)
  case (Suc fuel)
  show ?case unfolding running_loop.simps
  proof (intro res_all_if res_all_and_then, goal_cases)
    case 1
    then show ?case using Suc.prems by (simp add: run_inv_def run_done_def)
  next
    case (2 rid r)
    show ?case by (rule Suc.IH [OF run_inv_Suc [OF Suc.prems]])
  next
    case (3 rid r p)
    obtain inputs n1 nb ext st1 where p: "p = ((inputs, n1, nb, ext), st1)" by (metis surj_pair)
    let ?n = "running_num_new cfg r (st_budget st)"
    obtain e where st1: "st1 = on_sched (\<lambda>s. s\<lparr>sc_encoder := e\<rparr>) st" and n1: "0 \<le> ?n \<longrightarrow> 0 \<le> n1 \<and> n1 \<le> ?n"
      using res_allD [OF plan_encoder_inv 3(5)] p by auto
    have r1: "run_inv ok cfg B M idx st1"
      unfolding st1 using run_inv_qinv [OF Suc.prems] by (intro run_inv_sched [OF Suc.prems]) simp_all
    have bnd: "0 \<le> n1 \<and> n1 \<le> st_budget st1" if ok
    proof -
      have "req_progress cfg r" "0 \<le> st_budget st"
        using Suc.prems that 3(3) by (auto simp: run_inv_def step_inv_def progress_def get_req_eq)
      then show ?thesis using running_num_new_bounds [of cfg r "st_budget st"] n1 st1 by simp
    qed
    show ?case unfolding p prod.case
    proof (rule res_all_and_then)
      fix n assume n: "(if cfg_need_mamba_split cfg then mamba_block_aligned_split cfg r n1 0 0 else Inr n1) = Inr n"
      have nb': "0 \<le> n \<and> n \<le> st_budget st1" if ok
        using bnd [OF that] mamba_opt_bounds [OF n c [OF that]] by linarith
      show "res_all (run_done ok B M) (if n = 0 then running_loop cfg env fuel (idx + 1, st1)
        else and_then (allocate_or_preempt cfg env (Suc (length (sc_running (st_sched st1)))) rid n (idx, st1))
          (\<lambda>(blocks, idx', st2). case blocks of None \<Rightarrow> Inr st2
             | Some b \<Rightarrow> let st3 = st2\<lparr>st_running_reqs := st_running_reqs st2 @ [rid],
                   st_new_blocks := AList.update rid b (st_new_blocks st2),
                   st_num_scheduled := AList.update rid n (st_num_scheduled st2), st_budget := st_budget st2 - n\<rparr>
                 in and_then (schedule_spec_tokens rid n st3) (\<lambda>st4.
                    and_then (allocate_encoder_inputs rid inputs ext nb st4) (\<lambda>st5.
                      running_loop cfg env fuel (idx' + 1, st5)))))"
      proof (rule res_all_if)
        show "res_all (run_done ok B M) (running_loop cfg env fuel (idx + 1, st1))" by (rule Suc.IH [OF run_inv_Suc [OF r1]])
        have a: "alloc_inv ok cfg B M rid n idx st1"
          using 3(1,2) st1 nb' by (intro run_inv_alloc [OF r1]) auto
        show "res_all (run_done ok B M) (and_then (allocate_or_preempt cfg env (Suc (length (sc_running (st_sched st1)))) rid n (idx, st1))
          (\<lambda>(blocks, idx', st2). case blocks of None \<Rightarrow> Inr st2
             | Some b \<Rightarrow> let st3 = st2\<lparr>st_running_reqs := st_running_reqs st2 @ [rid],
                   st_new_blocks := AList.update rid b (st_new_blocks st2),
                   st_num_scheduled := AList.update rid n (st_num_scheduled st2), st_budget := st_budget st2 - n\<rparr>
                 in and_then (schedule_spec_tokens rid n st3) (\<lambda>st4.
                    and_then (allocate_encoder_inputs rid inputs ext nb st4) (\<lambda>st5.
                      running_loop cfg env fuel (idx' + 1, st5)))))"
        proof (intro res_all_and_then res_all_prod res_all_option, goal_cases)
          case (1 x bl y idx' st2)
          then show ?case using res_allD [OF allocate_or_preempt_inv [OF a]] by fastforce
        next
          case (2 x bl y idx' st2 b)
          then have "alloc_inv ok cfg B M rid n idx' st2" using res_allD [OF allocate_or_preempt_inv [OF a]] by fastforce
          note s3 = schedule_running_inv [OF this, of "AList.update rid b (st_new_blocks st2)"]
          show ?case unfolding Let_def
          proof (intro res_all_and_then, goal_cases)
            case (1 st4 st5)
            have "run_inv ok cfg B M (idx' + 1) st4" using res_allD [OF schedule_spec_tokens_inv [OF s3] 1(1)] nb' by simp
            then have "run_inv ok cfg B M (idx' + 1) st5"
              using res_allD [OF allocate_encoder_inputs_sched 1(2)] run_inv_qinv by (fastforce intro: run_inv_sched)
            then show ?case by (rule Suc.IH)
          qed
        qed
      qed
    qed
  qed
qed simp

end
