(* ===== verification/Sched_Wait.thy ===== *)
theory Sched_Wait
  imports Sched_Step
begin

text \<open>
  The second phase of a scheduling step, on the waiting requests, and the whole step: the requests
  passed over are in transit until they are put back.
\<close>

lemma res_all_map: "res_all P m \<Longrightarrow> (\<And>x. P x \<Longrightarrow> Q (g x)) \<Longrightarrow> res_all Q (and_then m (\<lambda>x. Inr (g x)))"
  by (cases m) simp_all

section \<open>Moves of waiting requests\<close>

lemma pop_queue_inv:
  assumes p: "pop_queue w s = Inr (rid, s')" and q: "qinv E Y Z s"
  shows "qinv (add_mset rid E) Y Z s'" and "sc_requests s' = sc_requests s" and "sc_running s' = sc_running s"
    and "rq_peek (queue_of w s) = Inr rid"
proof -
  obtain q' where q': "rq_pop (req_lt s) (queue_of w s) = Inr (rid, q')" "s' = set_queue w q' s"
    using p by (auto simp: pop_queue_def and_then_eq_Inr)
  note c = rq_pop_elems [OF q'(1)]
  show "rq_peek (queue_of w s) = Inr rid" by (rule c(2))
  show r: "sc_requests s' = sc_requests s" "sc_running s' = sc_running s"
    using q'(2) by (cases w; simp add: set_queue_def)+
  have pl: "places s' + add_mset rid E = places s + E"
    using c(1) q'(2) by (cases w) (simp_all add: places_def queue_of_def set_queue_def)
  have w: "rq_elems (sc_waiting s') \<subseteq># rq_elems (sc_waiting s)"
    using c(1) q'(2) by (cases w) (simp_all add: queue_of_def set_queue_def)
  have al: "alive s' = alive s" using r(1) by (simp add: alive_def fun_eq_iff)
  show "qinv (add_mset rid E) Y Z s'"
    using qinvD(1,3) [OF q] qinvD(2) [OF q] mset_subset_eqD [OF w]
    by (intro qinvI) (auto simp: r al entry_ok_def simp flip: pl)
qed

text \<open>Writing a live request back with another status, neither being or becoming a running one.\<close>

lemma qinv_put_status:
  assumes q: "qinv E {} Z s" and r: "map_of (sc_requests s) (request_id r) = Some r0" "\<not> is_finished r0" "\<not> is_finished r"
    and s: "status r0 \<noteq> RUNNING" "status r \<noteq> RUNNING" "resumable r = resumable r0"
    and b: "is_blocked_waiting_status (status r) \<Longrightarrow> request_id r \<notin># rq_elems (sc_waiting s)"
  shows "qinv E {} Z (put_req r s)"
proof (rule qinvI)
  show "distinct (keys (sc_requests (put_req r s)))" using qinvD(1) [OF q] by simp
  have "alive (put_req r s) = alive s" using r by (auto simp: alive_def fun_eq_iff)
  then show "count (places (put_req r s) + E) x = (if alive (put_req r s) x \<or> x \<in> {} then 1 else 0)" for x
    using qinvD(2) [OF q, of x] by simp
  show "entry_ok Z (put_req r s) x rx" if "map_of (sc_requests (put_req r s)) x = Some rx" for x rx
  proof (cases "x = request_id r")
    case True
    then show ?thesis using that qinvD(3) [OF q r(1)] s b by (auto simp: entry_ok_def)
  next
    case False
    then show ?thesis using that qinvD(3) [OF q, of x rx] by (simp add: entry_ok_def)
  qed
qed

text \<open>A request in transit is in no queue and not running.\<close>

lemma transit_out:
  assumes q: "qinv E {} {} s" and e: "x \<in># E"
  obtains r where "map_of (sc_requests s) x = Some r" "\<not> is_finished r" "status r \<noteq> RUNNING" "request_id r = x" "\<not> resumable r"
    and "x \<notin># rq_elems (sc_waiting s)" and "x \<notin> set (sc_running s)" and "x \<notin># E - {#x#}"
proof -
  obtain r where r: "map_of (sc_requests s) x = Some r" "\<not> is_finished r" "request_id r = x" "\<not> resumable r"
    by (rule qinv_alive [OF q, of x]) (use e in auto)
  have "count (places s + E) x = 1" using qinvD(2) [OF q, of x] r by (auto simp: alive_def)
  moreover have "count E x > 0" using e by (simp only: count_greater_zero_iff)
  ultimately have z: "count (places s) x = 0" "count E x = 1" unfolding count_union by linarith+
  then have out: "x \<notin># rq_elems (sc_waiting s)" "x \<notin> set (sc_running s)" by (auto simp: places_def count_eq_zero_iff)
  then have "status r \<noteq> RUNNING" using qinvD(3) [OF q r(1)] by (simp add: entry_ok_def)
  then show thesis using that [of r] r out z by (simp add: not_in_iff)
qed

lemma start_qinv:
  assumes q: "qinv (add_mset rid E) {} {} s" and r: "map_of (sc_requests s) rid = Some r0"
    and r': "request_id r = rid" "status r = RUNNING" "resumable r = resumable r0"
  shows "qinv E {} {} (put_req r (s\<lparr>sc_running := sc_running s @ [rid]\<rparr>))"
proof (rule transit_out [OF q, of rid])
  fix r1 assume o: "map_of (sc_requests s) rid = Some r1" "\<not> is_finished r1" "\<not> resumable r1"
    "rid \<notin># rq_elems (sc_waiting s)" "rid \<notin> set (sc_running s)"
  let ?s = "put_req r (s\<lparr>sc_running := sc_running s @ [rid]\<rparr>)"
  have "alive ?s = alive s" using o(1,2) r' by (auto simp: alive_def fun_eq_iff is_finished_def)
  moreover have "places ?s + E = places s + add_mset rid E" by (simp add: places_def)
  ultimately have "count (places ?s + E) x = (if alive ?s x \<or> x \<in> {} then 1 else 0)" for x
    using qinvD(2) [OF q, of x] by presburger
  moreover have "entry_ok {} ?s x rx" if "map_of (sc_requests ?s) x = Some rx" for x rx
  proof (cases "x = rid")
    case True
    then show ?thesis using that r r' o by (auto simp: entry_ok_def is_blocked_waiting_status_def)
  next
    case False
    then show ?thesis using that r' qinvD(3) [OF q, of x rx] by (auto simp: entry_ok_def)
  qed
  moreover have "distinct (keys (sc_requests ?s))" using qinvD(1) [OF q] by simp
  ultimately show ?thesis by (intro qinvI) blast+
qed simp

section \<open>One waiting request\<close>

text \<open>The request at the head of a queue, with its entry in the table, while it is considered.\<close>

definition wait_ok ::
  "bool \<Rightarrow> int \<Rightarrow> nat \<Rightarrow> string multiset \<Rightarrow> waiting_queue \<Rightarrow> string \<Rightarrow> request \<Rightarrow> step \<Rightarrow> bool" where
  "wait_ok ok B M E w rid r st \<longleftrightarrow> step_inv ok B M E st \<and> map_of (sc_requests (st_sched st)) rid = Some r \<and>
     rq_peek (queue_of w (st_sched st)) = Inr rid \<and> length (sc_running (st_sched st)) < M"

lemma wait_ok_inv: "wait_ok ok B M E w rid r st \<Longrightarrow> step_inv ok B M E st"
  by (simp add: wait_ok_def)

lemma wait_ok_id: "wait_ok ok B M E w rid r st \<Longrightarrow> request_id r = rid \<and> \<not> resumable r"
  using qinv_id by (fastforce simp: wait_ok_def step_inv_def)

lemma wait_ok_sched:
  assumes "wait_ok ok B M E w rid r st" and "qinv E {} {} (f (st_sched st))"
    and "sc_running (f (st_sched st)) = sc_running (st_sched st)" "sc_waiting (f (st_sched st)) = sc_waiting (st_sched st)"
    "sc_skipped_waiting (f (st_sched st)) = sc_skipped_waiting (st_sched st)"
    and "map_of (sc_requests (f (st_sched st))) rid = Some r'"
  shows "wait_ok ok B M E w rid r' (on_sched f st)"
  using assms step_inv_on_sched [of ok B M E st f] by (cases w) (simp_all add: wait_ok_def queue_of_def)

lemma wait_ok_frame:
  assumes "wait_ok ok B M E w rid r st"
  shows "wait_ok ok B M E w rid r (on_sched (\<lambda>s. s\<lparr>sc_kv := k\<rparr>) st)"
    and "wait_ok ok B M E w rid r (on_sched (\<lambda>s. s\<lparr>sc_encoder := e\<rparr>) st)"
proof -
  have "qinv E {} {} (st_sched st)" "map_of (sc_requests (st_sched st)) rid = Some r"
    using assms by (simp_all add: wait_ok_def step_inv_def)
  then show "wait_ok ok B M E w rid r (on_sched (\<lambda>s. s\<lparr>sc_kv := k\<rparr>) st)"
    "wait_ok ok B M E w rid r (on_sched (\<lambda>s. s\<lparr>sc_encoder := e\<rparr>) st)"
    by (intro wait_ok_sched [OF assms]; simp)+
qed

lemma wait_ok_put:
  assumes a: "wait_ok ok B M E w rid r st" and "request_id r' = request_id r" "status r' = status r" "resumable r' = resumable r"
  shows "wait_ok ok B M E w rid r' (on_sched (\<lambda>s. put_req r' (s\<lparr>sc_kv := k\<rparr>)) st)"
    and "wait_ok ok B M E w rid r' (on_sched (put_req r') st)"
proof -
  have r: "request_id r' = rid" "map_of (sc_requests (st_sched st)) rid = Some r" "qinv E {} {} (st_sched st)"
    using wait_ok_id [OF a] a assms(2) by (simp_all add: wait_ok_def step_inv_def)
  show "wait_ok ok B M E w rid r' (on_sched (\<lambda>s. put_req r' (s\<lparr>sc_kv := k\<rparr>)) st)"
    using r assms qinv_put [of E "{}" "{}" "(st_sched st)\<lparr>sc_kv := k\<rparr>" r' r] by (intro wait_ok_sched [OF a]) simp_all
  show "wait_ok ok B M E w rid r' (on_sched (put_req r') st)"
    using r assms qinv_put [of E "{}" "{}" "st_sched st" r' r] by (intro wait_ok_sched [OF a]) simp_all
qed

lemma remote_kv_frame:
  assumes "update_waiting_for_remote_kv env r s = Inr (r', s')"
  shows "request_id r' = request_id r \<and> resumable r' = resumable r \<and> status r' = status r \<and>
    (\<exists>k fl fr. s' = put_req r' (s\<lparr>sc_kv := k, sc_failed_recving := fl, sc_finished_recving := fr\<rparr>))"
proof -
  have "res_all (\<lambda>(r', s'). request_id r' = request_id r \<and> resumable r' = resumable r \<and> status r' = status r \<and>
      (\<exists>k fl fr. s' = put_req r' (s\<lparr>sc_kv := k, sc_failed_recving := fl, sc_finished_recving := fr\<rparr>)))
    (update_waiting_for_remote_kv env r s)"
    unfolding update_waiting_for_remote_kv_def
  proof (intro res_all_and_then res_all_prod, goal_cases)
    case (1 x p r4 s1)
    have "res_all (\<lambda>(r4, s1). request_id r4 = request_id r \<and> resumable r4 = resumable r \<and> status r4 = status r \<and>
        (\<exists>k fl. s1 = s\<lparr>sc_kv := k, sc_failed_recving := fl\<rparr>))
      (if request_id r \<in> sc_failed_recving s
        then and_then (if num_computed_tokens r \<noteq> 0
                       then kv_cache_blocks_op (en_hash env) r (num_computed_tokens r) (sc_kv s)
                       else and_then (kv_free r (sc_kv s)) (\<lambda>k. Inr (k, r)))
               (\<lambda>(k, r1). Inr (r1, s\<lparr>sc_kv := k, sc_failed_recving := sc_failed_recving s - {request_id r}\<rparr>))
        else and_then (kv_cache_blocks_op (en_hash env) r (num_computed_tokens r) (sc_kv s)) (\<lambda>(k, r1).
               let r2 = (if num_computed_tokens r1 = num_tokens r1 then r1\<lparr>num_computed_tokens := num_tokens r1 - 1\<rparr> else r1);
                   r3 = (if num_cached_tokens r2 < 0 then r2\<lparr>num_cached_tokens := num_computed_tokens r2\<rparr> else r2)
               in Inr (r3, s\<lparr>sc_kv := k\<rparr>)))"
    proof (intro res_all_if res_all_and_then res_all_prod, goal_cases)
      case (1 p k r1)
      then have "memo_only r r1"
        by (auto simp: and_then_eq_Inr split: if_splits dest: kv_cache_blocks_op_memo)
      then show ?case by (auto simp: memo_sel)
    next
      case (2 p k r1)
      then have "memo_only r r1" by (auto dest: kv_cache_blocks_op_memo)
      moreover have "\<exists>k' fl. s\<lparr>sc_kv := k\<rparr> = s\<lparr>sc_kv := k', sc_failed_recving := fl\<rparr>"
        by (intro exI [of _ k] exI [of _ "sc_failed_recving s"]) simp
      ultimately show ?case by (auto simp: memo_sel Let_def)
    qed
    note f = res_allD [OF this 1(2)]
    show ?case using f 1(3) by (auto simp: split_def)
  qed
  then show ?thesis using assms by simp
qed

lemma wait_ok_status:
  assumes a: "wait_ok ok B M E w rid r st" and r: "request_id r' = request_id r" "resumable r' = resumable r"
    and s: "is_blocked_waiting_status (status r)" "status r' = WAITING \<or> status r' = PREEMPTED"
  shows "wait_ok ok B M E w rid r' (on_sched (put_req r') st)"
proof -
  have q: "request_id r' = rid" "map_of (sc_requests (st_sched st)) rid = Some r" "qinv E {} {} (st_sched st)"
    using wait_ok_id [OF a] a r by (simp_all add: wait_ok_def step_inv_def)
  have "qinv E {} {} (put_req r' (st_sched st))"
    by (rule qinv_put_status [OF q(3)]) (use q r s in \<open>auto simp: is_blocked_waiting_status_def is_finished_def\<close>)
  then show ?thesis using q by (intro wait_ok_sched [OF a]) simp_all
qed

lemma try_promote_inv:
  assumes a: "wait_ok ok B M E w rid r st" and b: "is_blocked_waiting_status (status r)"
  shows "res_all (\<lambda>(ready, r', s'). wait_ok ok B M E w rid r' (st\<lparr>st_sched := s'\<rparr>)) (try_promote_blocked env r (st_sched st))"
proof -
  have same: "st\<lparr>st_sched := st_sched st\<rparr> = st" by simp
  consider "status r = WAITING_FOR_REMOTE_KVS" | "status r = WAITING_FOR_STRUCTURED_OUTPUT_GRAMMAR"
    | "status r = WAITING_FOR_STREAMING_REQ" using b by (auto simp: is_blocked_waiting_status_def)
  then show ?thesis
  proof cases
    case 1
    show ?thesis unfolding try_promote_blocked_def 1 request_status.case Let_def
    proof (intro res_all_if res_all_and_then res_all_prod, goal_cases)
      case 1
      then show ?case using a by simp
    next
      case (2 p r1 s1)
      have p: "update_waiting_for_remote_kv env r (st_sched st) = Inr (r1, s1)" using 2 by simp
      note f = remote_kv_frame [OF p]
      then obtain k fl fr where s1: "s1 = put_req r1 ((st_sched st)\<lparr>sc_kv := k, sc_failed_recving := fl, sc_finished_recving := fr\<rparr>)"
        by auto
      have q: "map_of (sc_requests (st_sched st)) rid = Some r" "qinv E {} {} (st_sched st)" "request_id r1 = rid"
        using a f wait_ok_id [OF a] by (simp_all add: wait_ok_def step_inv_def)
      then have "qinv E {} {} s1"
        unfolding s1 using f qinv_put [of E "{}" "{}" "(st_sched st)\<lparr>sc_kv := k, sc_failed_recving := fl, sc_finished_recving := fr\<rparr>" r1 r]
        by simp
      then have "wait_ok ok B M E w rid r1 (on_sched (\<lambda>_. s1) st)" using q by (intro wait_ok_sched [OF a]) (simp_all add: s1)
      then have "wait_ok ok B M E w rid (r1\<lparr>status := if num_preemptions r1 \<noteq> 0 then PREEMPTED else WAITING\<rparr>)
        (on_sched (put_req (r1\<lparr>status := if num_preemptions r1 \<noteq> 0 then PREEMPTED else WAITING\<rparr>)) (on_sched (\<lambda>_. s1) st))"
        by (rule wait_ok_status) (use b f in simp_all)
      then show ?case by (simp add: on_sched_def)
    qed
  next
    case 2
    have "wait_ok ok B M E w rid (r\<lparr>status := WAITING\<rparr>) (on_sched (put_req (r\<lparr>status := WAITING\<rparr>)) st)"
      by (rule wait_ok_status [OF a]) (use b in simp_all)
    then show ?thesis unfolding try_promote_blocked_def 2 request_status.case Let_def
      by (intro res_all_intros) (use a in \<open>simp_all add: on_sched_def\<close>)
  next
    case 3
    show ?thesis unfolding try_promote_blocked_def 3 request_status.case
      by (intro res_all_intros) (use a in simp)
  qed
qed

lemma lookup_computed_inv:
  assumes a: "wait_ok ok B M E w rid r st"
  shows "res_all (\<lambda>(res, r', st'). wait_ok ok B M E w rid r' st' \<and> st_budget st' = st_budget st) (lookup_computed env r st)"
  unfolding lookup_computed_def
proof (rule res_all_if, rule res_all_and_then)
  fix p assume "get_computed_blocks r (sc_kv (st_sched st)) = Inr p"
  obtain blocks n k where p: "p = ((blocks, n), k)" by (metis surj_pair)
  let ?st1 = "on_sched (\<lambda>s. s\<lparr>sc_kv := k\<rparr>) st"
  have st1: "wait_ok ok B M E w rid r ?st1" by (rule wait_ok_frame(1) [OF a])
  have put: "wait_ok ok B M E w rid (r\<lparr>num_external_computed_tokens := ext\<rparr>)
      (on_sched (put_req (r\<lparr>num_external_computed_tokens := ext\<rparr>)) ?st1)" for ext
    by (rule wait_ok_put(2) [OF st1]) simp_all
  obtain e la where m: "en_matched env r n = (e, la)" by fastforce
  show "res_all (\<lambda>(res, r', st'). wait_ok ok B M E w rid r' st' \<and> st_budget st' = st_budget st)
    ((\<lambda>((blocks, num_local), k). let st1 = on_sched (\<lambda>s. s\<lparr>sc_kv := k\<rparr>) st
        in if \<not> en_connector env
           then and_then (py_assert (num_local \<le> num_tokens r)) (\<lambda>_. Inr (Admit blocks num_local 0 num_local False, r, st1))
           else case en_matched env r num_local of
                  (None, _) \<Rightarrow> Inr (Skip, r, st1)
                | (Some ext, load_async) \<Rightarrow>
                    let r1 = r\<lparr>num_external_computed_tokens := ext\<rparr>; st2 = on_sched (put_req r1) st1
                    in and_then (py_assert (num_local + ext \<le> num_tokens r1)) (\<lambda>_.
                         Inr (Admit blocks num_local ext (num_local + ext) load_async, r1, st2))) p)"
    unfolding p prod.case Let_def m
    by (cases e) (use st1 put in \<open>auto intro!: res_all_if res_all_and_then\<close>)
qed (use a in simp)

lemma waiting_num_new_inv:
  assumes a: "wait_ok ok B M E w rid r st" and c: "ok \<Longrightarrow> 0 < cfg_cache_block_size cfg"
  shows "res_all (\<lambda>(plan, st'). wait_ok ok B M E w rid r st' \<and>
      (\<forall>inputs n b ext. plan = Some (inputs, n, b, ext) \<and> ok \<and> \<not> load_async \<longrightarrow> 0 \<le> n \<and> n \<le> st_budget st'))
    (waiting_num_new cfg env r nl ne computed load_async st)"
proof -
  let ?Q = "\<lambda>(plan, st'). wait_ok ok B M E w rid r st' \<and>
      (\<forall>inputs n b ext. plan = Some (inputs, n, b, ext) \<and> ok \<and> \<not> load_async \<longrightarrow> 0 \<le> n \<and> n \<le> st_budget st')"
  have second: "res_all ?Q (case res of None \<Rightarrow> Inr (None, st1)
          | Some (inputs, n, b, ext) \<Rightarrow>
              if cfg_need_mamba_split cfg
              then and_then (mamba_block_aligned_split cfg r n nl ne) (\<lambda>n'.
                     Inr (if n' = 0 then None else Some (inputs, n', b, ext), st1))
              else Inr (Some (inputs, n, b, ext), st1))" if q: "?Q (res, st1)" for res st1
  proof (cases res)
    case None
    then show ?thesis using q by simp
  next
    case (Some p)
    obtain inputs n b ext where p: "p = (inputs, n, b, ext)" by (metis surj_pair)
    have "0 \<le> n' \<and> n' \<le> st_budget st1" if "mamba_block_aligned_split cfg r n nl ne = Inr n'" "ok" "\<not> load_async" for n'
      using mamba_opt_bounds [of True cfg r n nl ne n'] that c [OF that(2)] q Some p by fastforce
    then show ?thesis using q Some p by (auto intro!: res_all_if res_all_and_then)
  qed
  have pe: "?Q (if has_encoder_inputs r \<and> n3 = 0 then (None, st1) else (Some (inputs, n3, b, ext), st1))"
    if "plan_encoder cfg env r computed n2 st = Inr ((inputs, n3, b, ext), st1)" "0 < n2" "n2 \<le> st_budget st" for inputs n3 b ext st1 n2
    using res_allD [OF plan_encoder_inv that(1)] that(2,3) wait_ok_frame(2) [OF a] by auto
  let ?n = "min (if 0 < cfg_long_prefill_token_threshold cfg \<and> cfg_long_prefill_token_threshold cfg < num_tokens r - computed
      then cfg_long_prefill_token_threshold cfg else num_tokens r - computed) (st_budget st)"
  have enc: "res_all ?Q (and_then (plan_encoder cfg env r computed ?n st) (\<lambda>((inputs, n3, b, ext), st1).
      if has_encoder_inputs r \<and> n3 = 0 then Inr (None, st1) else Inr (Some (inputs, n3, b, ext), st1)))" if "?n > 0"
  proof (rule res_all_and_then, goal_cases)
    case (1 x)
    obtain inputs n3 b ext st1 where p: "x = ((inputs, n3, b, ext), st1)" by (metis surj_pair)
    show ?case unfolding p prod.case using pe [OF 1 [unfolded p] that] by (simp split: if_splits)
  qed
  show ?thesis unfolding waiting_num_new_def Let_def
  proof (rule res_all_and_then, goal_cases)
    case (1 x)
    obtain res st1 where x: "x = (res, st1)" by fastforce
    have "?Q x"
      by (rule res_allD [OF _ 1]) (intro res_all_if res_all_and_then [of "py_assert b" for b]; use a enc in simp)
    then have "?Q (res, st1)" unfolding x .
    from second [OF this] show ?case unfolding x prod.case .
  qed
qed

lemma untouch_encoder_inv:
  assumes a: "wait_ok ok B M E w rid r st"
  shows "res_all (wait_ok ok B M E w rid r) (untouch_encoder r' st)"
  unfolding untouch_encoder_def by (intro res_all_intros) (use a wait_ok_frame(2) [OF a] in simp_all)

lemma admit_blocks_inv:
  assumes a: "wait_ok ok B M E w rid r st"
  shows "res_all (\<lambda>(b, st'). \<exists>r'. wait_ok ok B M E w rid r' st' \<and> status r' = status r \<and> (b \<longrightarrow> st_budget st' = st_budget st))
    (admit_blocks cfg env r n bl nl ne la inputs st)"
proof -
  let ?Q = "\<lambda>(b, st'). \<exists>r'. wait_ok ok B M E w rid r' st' \<and> status r' = status r \<and> (b \<longrightarrow> st_budget st' = st_budget st)"
  have no: "res_all ?Q (and_then (untouch_encoder r' st2) (\<lambda>st3. Inr (False, st3)))"
    if "wait_ok ok B M E w rid r' st2" "status r' = status r" for r' st2
    using untouch_encoder_inv [OF that(1), of r'] that(2) by (intro res_all_and_then) (auto dest: res_allD)
  show ?thesis unfolding admit_blocks_def
  proof (intro res_all_and_then [of "if c then m else m'" for c m m'], goal_cases)
    case (1 enc x)
    obtain fits st1 where x: "x = (fits, st1)" by fastforce
    have st1: "wait_ok ok B M E w rid r st1 \<and> st_budget st1 = st_budget st"
      using 1(2) x a wait_ok_frame(1) [OF a] by (auto simp: and_then_eq_Inr split: if_splits)
    show ?case unfolding x prod.case
    proof (intro res_all_if, goal_cases)
      case 1
      show ?case by (rule no) (use st1 in simp_all)
    next
      case 2
      show ?case
      proof (rule res_all_and_then, goal_cases)
        case (1 y)
        obtain nb k r' where yy: "y = (nb, k, r')" by (metis surj_pair)
        note y = 1
        note m = memo_sel [OF allocate_slots_memo [OF y [unfolded yy]]]
        have st2: "wait_ok ok B M E w rid r' (on_sched (\<lambda>s. put_req r' (s\<lparr>sc_kv := k\<rparr>)) st1)"
          using m st1 by (intro wait_ok_put(1) [of ok B M E w rid r]) simp_all
        show ?case
          unfolding yy prod.case Let_def using no [OF st2] st2 m st1 by (cases nb) auto
      qed
    qed
  qed
qed

section \<open>The waiting phase\<close>

definition wait_inv :: "bool \<Rightarrow> int \<Rightarrow> nat \<Rightarrow> wstep \<Rightarrow> bool" where
  "wait_inv ok B M ws \<longleftrightarrow> step_inv ok B M (rq_elems (ws_skipped ws)) (ws_step ws)"

lemma pop_step_inv:
  assumes "step_inv ok B M E st" and "pop_queue w (st_sched st) = Inr (rid, s')"
  shows "step_inv ok B M (add_mset rid E) (st\<lparr>st_sched := s'\<rparr>)"
  using pop_queue_inv [OF assms(2) step_invD(1) [OF assms(1)]] step_invD(3,9) [OF assms(1)]
  by (intro step_inv_sched [OF assms(1)]) simp_all

lemma skip_request_inv:
  assumes "wait_inv ok B M ws"
  shows "res_all (wait_inv ok B M) (skip_request w ws)"
  unfolding skip_request_def Let_def
  by (intro res_all_intros) (use assms in \<open>auto simp: wait_inv_def intro: pop_step_inv\<close>)

lemma load_async_inv:
  assumes i: "step_inv ok B M (add_mset rid E) st" and r: "map_of (sc_requests (st_sched st)) rid = Some r"
  shows "step_inv ok B M (add_mset rid E)
    (on_sched (put_req (r\<lparr>status := WAITING_FOR_REMOTE_KVS, num_computed_tokens := n\<rparr>)) st)"
proof (rule transit_out [OF step_invD(1) [OF i], of rid])
  fix r1 assume o: "map_of (sc_requests (st_sched st)) rid = Some r1" "\<not> is_finished r1" "status r1 \<noteq> RUNNING" "request_id r1 = rid"
    "rid \<notin># rq_elems (sc_waiting (st_sched st))"
  let ?r = "r\<lparr>status := WAITING_FOR_REMOTE_KVS, num_computed_tokens := n\<rparr>"
  have "qinv (add_mset rid E) {} {} (put_req ?r (st_sched st))"
    by (rule qinv_put_status [OF step_invD(1) [OF i]]) (use o r in \<open>auto simp: is_finished_def\<close>)
  then show ?thesis by (intro step_inv_on_sched [OF i]) simp_all
qed simp

text \<open>The effect of starting a request on the locals of the step.\<close>

lemma start_step_inv:
  assumes i: "step_inv ok B M (add_mset rid E) st" and r0: "map_of (sc_requests (st_sched st)) rid = Some r0"
    and r: "request_id r = rid" "status r = RUNNING" "resumable r = resumable r0"
    and M: "length (sc_running (st_sched st)) < M" and n: "ok \<Longrightarrow> 0 \<le> n \<and> n \<le> st_budget st"
    and st': "st_sched st' = put_req r ((st_sched st)\<lparr>sc_running := sc_running (st_sched st) @ [rid]\<rparr>)"
      "scheduled st' = as @ rid # bs" "scheduled st = as @ bs"
      "st_num_scheduled st' = AList.update rid n (st_num_scheduled st)" "st_budget st' = st_budget st - n"
  shows "step_inv ok B M E st'"
proof -
  note d = step_invD [OF i]
  have q: "qinv E {} {} (st_sched st')" unfolding st' by (rule start_qinv [OF d(1) r0 r])
  have "rid \<notin> set (sc_running (st_sched st))" by (rule transit_out [OF d(1), of rid]) simp_all
  then have out: "rid \<notin> set (scheduled st)" using d(3) by blast
  then have k: "rid \<notin> set (keys (st_num_scheduled st))" using d(5) by simp
  have "distinct (scheduled st')" using d(2) out unfolding st' by auto
  moreover have "set (scheduled st') = insert rid (set (scheduled st))" unfolding st' by auto
  ultimately show ?thesis
    using q d M n k sum_update_new [OF k, of n] st'(1,4,5) by (auto simp: step_inv_def update_new)
qed

lemma start_request_inv:
  assumes i: "step_inv ok B M (add_mset rid (rq_elems (ws_skipped ws))) (ws_step ws)"
    and M: "length (sc_running (st_sched (ws_step ws))) < M" and n: "ok \<Longrightarrow> 0 \<le> n \<and> n \<le> st_budget (ws_step ws)"
  shows "res_all (wait_inv ok B M) (start_request cfg rid n computed plan ws)"
proof -
  obtain inputs nb ext where p: "plan = (inputs, nb, ext)" by (metis surj_pair)
  let ?st = "ws_step ws"
  let ?st1 = "on_sched (\<lambda>s. s\<lparr>sc_running := sc_running s @ [rid]\<rparr>) ?st"
  show ?thesis unfolding start_request_def p prod.case Let_def
  proof (intro res_all_and_then, goal_cases)
    case (1 r st2 st4)
    let ?r = "r\<lparr>status := RUNNING, num_computed_tokens := computed,
       num_cached_tokens := (if num_cached_tokens r < 0 then computed else num_cached_tokens r)\<rparr>"
    have r: "map_of (sc_requests (st_sched ?st)) rid = Some r" using 1(1) by (simp add: get_req_eq)
    then have id: "request_id r = rid" using qinv_id [OF step_invD(1) [OF i]] by blast
    have st2: "st2 = ?st1\<lparr>st_new_reqs := st_new_reqs ?st1 @ [rid]\<rparr> \<or> st2 = ?st1\<lparr>st_resumed_reqs := st_resumed_reqs ?st1 @ [rid]\<rparr>"
      using 1(2) by (auto split: request_status.splits)
    obtain e x y where st4: "st4 = on_sched (\<lambda>s. s\<lparr>sc_encoder := e\<rparr>) ((on_sched (put_req ?r) (st2\<lparr>
        st_new_blocks := AList.update rid (kv_get_blocks rid (sc_kv (st_sched st2))) (st_new_blocks st2),
        st_num_scheduled := AList.update rid n (st_num_scheduled st2), st_budget := st_budget st2 - n\<rparr>))
        \<lparr>st_encoder_inputs := x, st_encoder_budget := y\<rparr>)"
      using res_allD [OF allocate_encoder_inputs_sched 1(3)] by blast
    define t where "t = on_sched (put_req ?r) (st2\<lparr>
        st_new_blocks := AList.update rid (kv_get_blocks rid (sc_kv (st_sched st2))) (st_new_blocks st2),
        st_num_scheduled := AList.update rid n (st_num_scheduled st2), st_budget := st_budget st2 - n\<rparr>)"
    have t: "st_sched t = put_req ?r ((st_sched ?st)\<lparr>sc_running := sc_running (st_sched ?st) @ [rid]\<rparr>)"
      "st_num_scheduled t = AList.update rid n (st_num_scheduled ?st)" "st_budget t = st_budget ?st - n"
      using st2 by (auto simp: t_def on_sched_def)
    have "\<exists>as bs. scheduled t = as @ rid # bs \<and> scheduled ?st = as @ bs"
      using st2
    proof
      assume "st2 = ?st1\<lparr>st_new_reqs := st_new_reqs ?st1 @ [rid]\<rparr>"
      then show ?thesis by (intro exI [of _ "st_new_reqs ?st"] exI [of _ "st_resumed_reqs ?st @ st_running_reqs ?st"])
        (simp add: t_def scheduled_def on_sched_def)
    next
      assume "st2 = ?st1\<lparr>st_resumed_reqs := st_resumed_reqs ?st1 @ [rid]\<rparr>"
      then show ?thesis by (intro exI [of _ "st_new_reqs ?st @ st_resumed_reqs ?st"] exI [of _ "st_running_reqs ?st"])
        (simp add: t_def scheduled_def on_sched_def)
    qed
    then obtain as bs where s: "scheduled t = as @ rid # bs" "scheduled ?st = as @ bs" by blast
    have "step_inv ok B M (rq_elems (ws_skipped ws)) t"
      by (rule start_step_inv [OF i r _ _ _ M n t(1) s t(2,3)]) (use id in simp_all)
    then have "step_inv ok B M (rq_elems (ws_skipped ws)) st4"
      unfolding st4 t_def [symmetric] by (intro step_inv_on_sched) (simp_all add: step_invD(1))
    then show ?case by (simp add: wait_inv_def)
  qed
qed

lemma admit_request_inv:
  assumes a: "wait_ok ok B M (rq_elems (ws_skipped ws)) w rid r (ws_step ws)" and c: "ok \<Longrightarrow> 0 < cfg_cache_block_size cfg"
  shows "res_all (\<lambda>(go_on, ws'). wait_inv ok B M ws') (admit_request cfg env w r ws)"
  unfolding admit_request_def
proof (rule res_all_and_then, goal_cases)
  case (1 x)
  let ?E = "rq_elems (ws_skipped ws)"
  obtain res r1 st1 where x: "x = (res, r1, st1)" by (metis surj_pair)
  have w1: "wait_ok ok B M ?E w rid r1 st1" using res_allD [OF lookup_computed_inv [OF a] 1] x by simp
  show ?case
  proof (cases res)
    case Skip
    have "wait_inv ok B M (ws\<lparr>ws_step := st1\<rparr>)" using wait_ok_inv [OF w1] by (simp add: wait_inv_def)
    then show ?thesis unfolding x Skip prod.case lookup_result.case
      by (rule res_all_map [OF skip_request_inv]) simp
  next
    case (Admit blocks nl ne computed la)
    show ?thesis unfolding x Admit prod.case lookup_result.case
    proof (rule res_all_and_then, goal_cases)
      case (1 y)
      obtain plan st2 where y: "y = (plan, st2)" by fastforce
      note w2 = res_allD [OF waiting_num_new_inv [OF w1 c] 1, unfolded y prod.case]
      show ?case
      proof (cases plan)
        case None
        then show ?thesis using w2 y by (auto simp: wait_inv_def dest: wait_ok_inv)
      next
        case (Some q)
        obtain inputs n nb ext where q: "q = (inputs, n, nb, ext)" by (metis surj_pair)
        show ?thesis unfolding y Some q prod.case option.case
        proof (rule res_all_and_then, goal_cases)
          case (1 z)
          obtain b st3 where z: "z = (b, st3)" by fastforce
          obtain r' where w3: "wait_ok ok B M ?E w rid r' st3" "b \<longrightarrow> st_budget st3 = st_budget st2"
            using res_allD [OF admit_blocks_inv [OF conjunct1 [OF w2]] 1] z by auto
          have nb': "0 \<le> n \<and> n \<le> st_budget st3" if b ok "\<not> la" using w2 w3(2) that Some q by auto
          show ?case unfolding z prod.case
          proof (intro res_all_if, goal_cases)
            case 1
            then show ?case using wait_ok_inv [OF w3(1)] by (simp add: wait_inv_def)
          next
            case b: 2
            show ?case
            proof (intro res_all_and_then res_all_prod, unfold Let_def, intro res_all_if, goal_cases)
              case (1 u rid' s')
              have i: "step_inv ok B M (add_mset rid' ?E) (st3\<lparr>st_sched := s'\<rparr>)"
                using pop_step_inv [OF wait_ok_inv [OF w3(1)]] 1 by simp
              show ?case
                by (intro res_all_and_then) (use load_async_inv [OF i] in \<open>auto simp: wait_inv_def get_req_eq on_sched_def\<close>)
            next
              case (2 u rid' s')
              have i: "step_inv ok B M (add_mset rid' ?E) (st3\<lparr>st_sched := s'\<rparr>)"
                using pop_step_inv [OF wait_ok_inv [OF w3(1)]] 2 by simp
              have "sc_running s' = sc_running (st_sched st3)"
                using pop_queue_inv(3) [OF _ step_invD(1) [OF wait_ok_inv [OF w3(1)]]] 2 by simp
              then have "res_all (wait_inv ok B M) (start_request cfg rid' n computed (inputs, nb, ext) (ws\<lparr>ws_step := st3\<lparr>st_sched := s'\<rparr>\<rparr>))"
                using i w3(1) nb' b 2 by (intro start_request_inv) (simp_all add: wait_ok_def)
              then show ?case by (rule res_all_map) simp
            qed
          qed
        qed
      qed
    qed
  qed
qed

lemma waiting_iteration_inv:
  assumes i: "wait_inv ok B (cfg_max_num_running_reqs cfg) ws" and c: "ok \<Longrightarrow> 0 < cfg_cache_block_size cfg"
  shows "res_all (\<lambda>(go_on, ws'). wait_inv ok B (cfg_max_num_running_reqs cfg) ws') (waiting_iteration cfg env ws)"
proof -
  let ?M = "cfg_max_num_running_reqs cfg" let ?E = "rq_elems (ws_skipped ws)"
  have si: "step_inv ok B ?M ?E (ws_step ws)" using i by (simp add: wait_inv_def)
  show ?thesis unfolding waiting_iteration_def Let_def
  proof (intro res_all_if res_all_and_then, goal_cases)
    case 1
    then show ?case using i by simp
  next
    case (2 sel w rid r x)
    have a: "wait_ok ok B ?M ?E w rid r (ws_step ws)"
      using 2 si step_invD(9) [OF si] by (simp add: wait_ok_def get_req_eq)
    obtain ready r1 s1 where x: "x = (ready, r1, s1)" by (metis surj_pair)
    have "wait_ok ok B ?M ?E w rid r1 ((ws_step ws)\<lparr>st_sched := s1\<rparr>)"
    proof (cases "is_blocked_waiting_status (status r)")
      case True
      then show ?thesis using res_allD [OF try_promote_inv [OF a True], of env x] 2 x by simp
    next
      case False
      then have "s1 = st_sched (ws_step ws)" "r1 = r" using 2 x by simp_all
      then show ?thesis using a by simp
    qed
    then show ?case unfolding x prod.case
    proof (intro res_all_if, goal_cases)
      case 1
      then have "wait_inv ok B ?M (ws\<lparr>ws_step := (ws_step ws)\<lparr>st_sched := s1\<rparr>\<rparr>)"
        using wait_ok_inv by (fastforce simp: wait_inv_def)
      then show ?case by (rule res_all_map [OF skip_request_inv]) simp
    next
      case 2
      then show ?case using c by (intro admit_request_inv [of _ _ _ _ _ rid]) simp_all
    qed
  qed
qed

lemma waiting_loop_inv:
  assumes "wait_inv ok B (cfg_max_num_running_reqs cfg) ws" and c: "ok \<Longrightarrow> 0 < cfg_cache_block_size cfg"
  shows "res_all (wait_inv ok B (cfg_max_num_running_reqs cfg)) (waiting_loop cfg env fuel ws)"
  using assms(1)
proof (induction fuel arbitrary: ws)
  case (Suc fuel)
  show ?case unfolding waiting_loop.simps Let_def
    by (intro res_all_if res_all_and_then res_all_prod)
      (use Suc res_allD [OF waiting_iteration_inv [OF Suc.prems c]] in \<open>auto simp: Suc.prems\<close>)
qed simp

section \<open>The whole step\<close>

definition step_budget :: "sched_config \<Rightarrow> scheduler \<Rightarrow> int" where
  "step_budget cfg s = (if sc_pause_state s = PAUSED_ALL then 0 else cfg_max_num_scheduled_tokens cfg)"

definition sched_inv :: "sched_config \<Rightarrow> scheduler \<Rightarrow> bool" where
  "sched_inv cfg s \<longleftrightarrow> qinv {#} {} {} s \<and> length (sc_running s) \<le> cfg_max_num_running_reqs cfg"

lemma schedule_running_phase:
  assumes "sched_inv cfg s"
    and "ok \<Longrightarrow> progress cfg s \<and> 0 < cfg_cache_block_size cfg \<and> 0 \<le> cfg_max_num_scheduled_tokens cfg"
  shows "res_all (run_done ok (step_budget cfg s) (cfg_max_num_running_reqs cfg)) (schedule_running cfg env s)"
  unfolding schedule_running_def Let_def
  by (rule running_loop_inv)
    (use assms in \<open>auto simp: run_inv_def step_inv_def scheduled_def sched_inv_def step_budget_def\<close>)

lemma schedule_waiting_phase:
  assumes d: "run_done ok B (cfg_max_num_running_reqs cfg) st" and c: "ok \<Longrightarrow> 0 < cfg_cache_block_size cfg"
  shows "res_all (step_inv ok B (cfg_max_num_running_reqs cfg) {#}) (schedule_waiting cfg env st)"
  unfolding schedule_waiting_def Let_def
proof (intro res_all_and_then res_all_if, goal_cases)
  case (1 loras ws)
  let ?M = "cfg_max_num_running_reqs cfg"
  have "wait_inv ok B ?M \<lparr>ws_step = st, ws_skipped = create_request_queue (cfg_policy cfg), ws_loras = loras\<rparr>"
    using d by (simp add: wait_inv_def run_done_def)
  from res_allD [OF waiting_loop_inv [OF this c] 1(3)]
  have i: "step_inv ok B ?M (rq_elems (ws_skipped ws)) (ws_step ws)" by (simp add: wait_inv_def)
  show ?case
  proof (cases "rq_len (ws_skipped ws) > 0")
    case False
    then have "rq_elems (ws_skipped ws) = {#}" by (metis gr0I size_rq_elems size_eq_0_iff_empty)
    then show ?thesis using i False by simp
  next
    case True
    let ?s = "st_sched (ws_step ws)"
    let ?s' = "?s\<lparr>sc_skipped_waiting := rq_prepend_requests (req_lt ?s) (rq_list (req_lt ?s) (ws_skipped ws)) (sc_skipped_waiting ?s)\<rparr>"
    have pl: "places ?s' + {#} = places ?s + rq_elems (ws_skipped ws)" by (simp add: places_def)
    note q = step_invD(1) [OF i]
    have "qinv {#} {} {} ?s'"
    proof (rule qinvI)
      show "count (places ?s' + {#}) x = (if alive ?s' x \<or> x \<in> {} then 1 else 0)" for x
        using qinvD(2) [OF q, of x] unfolding pl by simp
    qed (use qinvD(1,3) [OF q] in \<open>simp_all add: entry_ok_def\<close>)
    then have "step_inv ok B ?M {#} ((ws_step ws)\<lparr>st_sched := ?s'\<rparr>)"
      using step_invD(3,9) [OF i] by (intro step_inv_sched [OF i]) simp_all
    then show ?thesis using True by (simp add: on_sched_def)
  qed
next
  case (2 loras)
  then show ?case using d by (simp add: run_done_def)
qed

end
