(* ===== verification/Sched_Finish.thy ===== *)
theory Sched_Finish
  imports Sched_Wait
begin

text \<open>
  The update at the end of a step keeps every live request in one place: the requests that stop are
  finished while they still are in the running list, and are then removed together.
\<close>

lemma distinct_count_le:
  assumes "\<And>x. count (mset l) x \<le> 1"
  shows "distinct l"
  using assms by (simp add: distinct_count_atmost_1) (metis One_nat_def count_mset_0_iff le_Suc_eq le_zero_eq)

section \<open>Writing requests back\<close>

text \<open>The given requests run if they are alive.\<close>

definition pending :: "string set \<Rightarrow> scheduler \<Rightarrow> bool" where
  "pending K s \<longleftrightarrow> (\<forall>x\<in>K. alive s x \<longrightarrow> x \<in> set (sc_running s))"

lemma alive_put_same:
  assumes "map_of (sc_requests s) (request_id r) = Some r0" and "status r = status r0"
  shows "alive (put_req r s) = alive s"
  using assms by (auto simp: fun_eq_iff alive_def is_finished_def)

lemma alive_finish: "is_finished r \<Longrightarrow> alive (put_req r s) x \<Longrightarrow> alive s x"
  by (simp split: if_splits)

lemma keeps_alive: "keeps s s' \<Longrightarrow> alive s' x \<Longrightarrow> alive s x"
  by (auto simp: keeps_def alive_def)

lemma scan_blocks_frame:
  "scan_blocks bs invalid evict ids computed ibs (h, own, r, v) = (h', own', r', v') \<Longrightarrow>
   request_id r' = request_id r \<and> status r' = status r \<and> resumable r' = resumable r \<and> iv_sched v' = iv_sched v"
proof (induction ibs arbitrary: h own r v evict)
  case (Cons ib ibs)
  obtain i b where "ib = (i, b)" by fastforce
  then show ?case using Cons.prems by (auto simp: Let_def split: if_splits dest!: Cons.IH)
qed simp

lemma scan_request_inv:
  assumes q: "qinv {#} {} {} (iv_sched v)" "pending K (iv_sched v)" "sc_running (iv_sched v) = R"
  shows "res_all (\<lambda>v'. qinv {#} {} {} (iv_sched v') \<and> pending K (iv_sched v') \<and> sc_running (iv_sched v') = R)
    (scan_request bs invalid ns evict rid v)"
  unfolding scan_request_def
proof (rule res_all_and_then, goal_cases)
  case (1 r)
  then have r: "map_of (sc_requests (iv_sched v)) rid = Some r" by (simp add: get_req_eq)
  have "qinv {#} {} {} (put_req r' (iv_sched v)) \<and> pending K (put_req r' (iv_sched v)) \<and> sc_running (put_req r' (iv_sched v)) = R"
    if "request_id r' = request_id r" "status r' = status r" "resumable r' = resumable r" for r'
    using that q r qinv_id [OF q(1) r] qinv_put [OF q(1), of r' r] alive_put_same [of "iv_sched v" r' r]
    by (simp add: pending_def)
  then show ?case
    by (auto simp: Let_def split: list.split prod.split dest!: scan_blocks_frame)
qed

lemma fold_res_all:
  assumes "P s" and "\<And>x s. x \<in> set xs \<Longrightarrow> P s \<Longrightarrow> res_all P (f x s)"
  shows "res_all P (fold_res f xs s)"
  using fold_res_invariant [of f xs s _ P] assms by (fastforce simp: res_all_def)

definition keeps_inv :: "string set \<Rightarrow> string list \<Rightarrow> scheduler \<Rightarrow> bool" where
  "keeps_inv K R s \<longleftrightarrow> qinv {#} {} {} s \<and> pending K s \<and> sc_running s = R"

lemma keeps_inv_frame [simp]:
  "keeps_inv K R (s\<lparr>sc_kv := k\<rparr>) = keeps_inv K R s" "keeps_inv K R (s\<lparr>sc_failed_recving := fr\<rparr>) = keeps_inv K R s"
  by (simp_all add: keeps_inv_def pending_def)

lemma update_requests_with_invalid_blocks_inv:
  assumes "keeps_inv K R s"
  shows "res_all (\<lambda>(a, t, e, s'). keeps_inv K R s') (update_requests_with_invalid_blocks cfg rids invalid ns evict s)"
proof -
  have "res_all (\<lambda>v. keeps_inv K R (iv_sched v)) (fold_res (scan_request (cfg_block_size cfg) invalid ns evict) rids
      \<lparr>iv_sched = s, iv_affected = [], iv_total = 0, iv_evict = [], iv_marked = {}\<rparr>)"
    by (rule fold_res_all) (use assms scan_request_inv in \<open>auto simp: keeps_inv_def\<close>)
  then show ?thesis unfolding update_requests_with_invalid_blocks_def by (rule res_all_map) simp
qed

lemma handle_invalid_blocks_inv:
  assumes "keeps_inv K R s"
  shows "res_all (\<lambda>(failed, s'). keeps_inv K R s') (handle_invalid_blocks cfg invalid ns s)"
  unfolding handle_invalid_blocks_def Let_def
proof (rule res_all_and_then, goal_cases)
  case (1 x)
  obtain af t1 e1 s1 where x: "x = (af, t1, e1, s1)" by (metis surj_pair)
  have s1: "keeps_inv K R s1" using res_allD [OF update_requests_with_invalid_blocks_inv [OF assms] 1] x by simp
  show ?case unfolding x prod.case
  proof (rule res_all_and_then, goal_cases)
    case (1 y)
    obtain sf t2 ev s2 where y: "y = (sf, t2, ev, s2)" by (metis surj_pair)
    have "keeps_inv K R s2" using res_allD [OF update_requests_with_invalid_blocks_inv [OF s1] 1] y by simp
    then show ?case unfolding y prod.case
      by (intro res_all_if res_all_and_then) (auto simp: and_then_eq_Inr split: if_splits)
  qed
qed

section \<open>One request's output\<close>

lemma update_request_with_output_frame:
  "res_all (\<lambda>(ts, stopped, r', s'). request_id r' = request_id r \<and> resumable r' = resumable r \<and>
      (if stopped then is_finished r' else status r' = status r) \<and> (\<exists>k. s' = put_req r' (s\<lparr>sc_kv := k\<rparr>)))
    (update_request_with_output cfg env new r s)"
proof -
  have same: "s = s\<lparr>sc_kv := sc_kv s\<rparr>" by simp
  show ?thesis unfolding update_request_with_output_def Let_def
  proof (intro res_all_if res_all_and_then, goal_cases)
    case 1
    then show ?case by (auto intro!: exI [of _ "sc_kv s"])
  next
    case (2 x)
    obtain kept stopped r1 where x: "x = (kept, stopped, r1)" by (metis surj_pair)
    have f: "append_frame r new (kept, stopped, r1)" using res_allD [OF append_until_stop_frame 2(2)] x by simp
    show ?case unfolding x prod.case
    proof (intro res_all_if res_all_and_then, goal_cases)
      case 1
      then show ?case using f by (auto simp: append_frame_def intro!: exI [of _ "sc_kv s"])
    next
      case (2 u y)
      obtain k r3 where y: "y = (k, r3)" by fastforce
      let ?r2 = "r1\<lparr>num_output_placeholders := num_output_placeholders r1 - int (length kept)\<rparr>"
      have "memo_only ?r2 r3" using 2(3) y by (auto split: if_splits dest: kv_cache_blocks_op_memo)
      then show ?case using f y by (auto simp: append_frame_def memo_sel is_finished_def)
    qed
  qed
qed

lemma free_request_frame:
  assumes "free_request env d r s = Inr s'"
  shows "sc_running s' = sc_running s \<and>
    (sc_requests s' = sc_requests s \<or> sc_requests s' = AList.delete (request_id r) (sc_requests s))"
proof -
  have fb: "sc_running s2 = sc_running s1 \<and> sc_requests s2 = AList.delete (request_id r) (sc_requests s1)"
    if "free_blocks_of r s1 = Inr s2" for s1 s2
    using that by (auto simp: free_blocks_of_def and_then_eq_Inr split: if_splits)
  obtain cd s1 e fi fd where c: "connector_finished env r s = Inr (cd, s1)"
    and f: "let s2 = s1\<lparr>sc_encoder := e, sc_finished_req_ids := fi, sc_finished_req_ids_dict := fd\<rparr>
      in s' = s2 \<or> free_blocks_of r s2 = Inr s'"
    using assms by (fastforce simp: free_request_def and_then_eq_Inr Let_def split: if_splits)
  obtain k where "s1 = s\<lparr>sc_kv := k\<rparr>" using c by (rule connector_finished_frame)
  then show ?thesis using f fb by (auto simp: Let_def)
qed

text \<open>While the outputs are taken: \<open>R\<close> is the running list, \<open>K\<close> the scheduled requests.\<close>

definition upd_inv :: "string set \<Rightarrow> string list \<Rightarrow> update_state \<Rightarrow> bool" where
  "upd_inv K R u \<longleftrightarrow> sc_running (us_sched u) = R \<and> us_stopped_running u \<subseteq> set R \<and> us_stopped_preempted u = [] \<and>
     qinv {#} (us_stopped_running u) (us_stopped_running u) (us_sched u) \<and>
     (\<forall>x\<in>us_stopped_running u. \<not> alive (us_sched u) x) \<and> pending K (us_sched u)"

lemma upd_inv_put:
  assumes u: "upd_inv K R u" and r: "map_of (sc_requests (us_sched u)) (request_id r) = Some r0" "status r = status r0"
    "resumable r = resumable r0"
  shows "upd_inv K R (u\<lparr>us_sched := put_req r ((us_sched u)\<lparr>sc_kv := k\<rparr>)\<rparr>)"
proof -
  have "alive (put_req r ((us_sched u)\<lparr>sc_kv := k\<rparr>)) = alive (us_sched u)"
    using alive_put_same [of "(us_sched u)\<lparr>sc_kv := k\<rparr>" r r0] r by simp
  moreover have "qinv {#} (us_stopped_running u) (us_stopped_running u) (put_req r ((us_sched u)\<lparr>sc_kv := k\<rparr>))"
    using qinv_put [of _ _ _ "(us_sched u)\<lparr>sc_kv := k\<rparr>" r r0] u r by (simp add: upd_inv_def)
  ultimately show ?thesis using u by (auto simp: upd_inv_def pending_def)
qed

text \<open>A live scheduled request runs.\<close>

lemma upd_inv_running:
  assumes u: "upd_inv K R u" and k: "rid \<in> K" and r: "map_of (sc_requests (us_sched u)) rid = Some r" "\<not> is_finished r"
  shows "status r = RUNNING \<and> rid \<in> set R \<and> request_id r = rid \<and> \<not> resumable r \<and> rid \<notin> us_stopped_running u"
proof -
  have al: "alive (us_sched u) rid" using r by (simp add: alive_def)
  then have "rid \<in> set R" "rid \<notin> us_stopped_running u" using u k by (auto simp: upd_inv_def pending_def)
  moreover have "entry_ok (us_stopped_running u) (us_sched u) rid r"
    by (rule qinvD(3) [OF _ r(1)]) (use u in \<open>auto simp: upd_inv_def\<close>)
  ultimately show ?thesis using u by (simp add: entry_ok_def upd_inv_def)
qed

lemma stop_request_inv:
  assumes u: "upd_inv K R u" and rid: "rid \<in> K"
    and r: "map_of (sc_requests (us_sched u)) rid = Some r0" "\<not> is_finished r0"
    and r': "request_id r = rid" "resumable r = resumable r0" "is_finished r"
  shows "res_all (\<lambda>(reason, r3, u1). upd_inv K R u1 \<and> r3 = r \<and>
      (map_of (sc_requests (us_sched u1)) rid = None \<or> map_of (sc_requests (us_sched u1)) rid = Some r))
    (stop_request env RUNNING r (u\<lparr>us_sched := put_req r ((us_sched u)\<lparr>sc_kv := k\<rparr>)\<rparr>))"
proof -
  note run = upd_inv_running [OF u rid r]
  let ?s = "put_req r ((us_sched u)\<lparr>sc_kv := k\<rparr>)" let ?S = "us_stopped_running u"
  have al: "alive ((us_sched u)\<lparr>sc_kv := k\<rparr>) (request_id r)" using r r'(1) by (simp add: alive_def)
  have q: "qinv {#} (insert rid ?S) (insert rid ?S) ?s"
    using qinv_finish_placed [of "{#}" ?S ?S "(us_sched u)\<lparr>sc_kv := k\<rparr>" r] u r' run al by (simp add: upd_inv_def)
  have na: "\<not> alive ?s (request_id r)" using r' by simp
  have "upd_inv K R (u\<lparr>us_sched := s2, us_stopped_running := insert rid ?S\<rparr>) \<and>
      (map_of (sc_requests s2) rid = None \<or> map_of (sc_requests s2) rid = Some r)" if f: "free_request env False r ?s = Inr s2" for s2
  proof -
    note a = free_request_qinv [OF f q na] free_request_frame [OF f]
    have "alive s2 x \<Longrightarrow> alive (us_sched u) x" for x using a keeps_alive [of ?s s2 x] r' by (auto split: if_splits simp: al [simplified])
    then show ?thesis using a u run r' by (auto simp: upd_inv_def pending_def delete_conv')
  qed
  moreover have "\<not> resumable r" using r' run by simp
  ultimately show ?thesis unfolding stop_request_def handle_stopped_request_def Let_def
    by (auto intro!: res_all_and_then simp: r'(1))
qed

lemma adjust_rejected_frame [simp]:
  "request_id (adjust_rejected sp g r) = request_id r" "status (adjust_rejected sp g r) = status r"
  "resumable (adjust_rejected sp g r) = resumable r"
  by (simp_all add: adjust_rejected_def Let_def split: option.split list.split)

text \<open>The middle part of the update of one request: the new tokens, and a stop.\<close>

lemma update_tokens_inv:
  assumes u: "upd_inv K R u" and rid: "rid \<in> K"
    and r: "map_of (sc_requests (us_sched u)) rid = Some r" "\<not> is_finished r"
  shows "res_all (\<lambda>(ts, stopped, r2, s2). res_all (\<lambda>(reason, r3, u1). upd_inv K R u1 \<and> request_id r3 = rid \<and>
        (map_of (sc_requests (us_sched u1)) rid = None \<or> map_of (sc_requests (us_sched u1)) rid = Some r3))
      (if stopped then stop_request env (status r) r2 (u\<lparr>us_sched := s2\<rparr>) else Inr (None, r2, u\<lparr>us_sched := s2\<rparr>)))
    (if generated \<noteq> [] then update_request_with_output cfg env generated r (us_sched u)
     else if pooling_params r \<noteq> None \<and> pooled
     then let r2 = r\<lparr>status := FINISHED_STOPPED\<rparr> in Inr ([], True, r2, put_req r2 (us_sched u))
     else Inr ([], False, r, us_sched u))"
proof -
  note run = upd_inv_running [OF u rid r]
  have stop: "res_all (\<lambda>(reason, r3, u1). upd_inv K R u1 \<and> request_id r3 = rid \<and>
        (map_of (sc_requests (us_sched u1)) rid = None \<or> map_of (sc_requests (us_sched u1)) rid = Some r3))
      (stop_request env (status r) r2 (u\<lparr>us_sched := put_req r2 ((us_sched u)\<lparr>sc_kv := k\<rparr>)\<rparr>))"
    if "request_id r2 = rid" "resumable r2 = resumable r" "is_finished r2" for r2 k
    using stop_request_inv [OF u rid r, of r2 env k] that run by (auto simp: res_all_def split: prod.splits)
  have go: "upd_inv K R (u\<lparr>us_sched := put_req r2 ((us_sched u)\<lparr>sc_kv := k\<rparr>)\<rparr>)"
    if "request_id r2 = rid" "resumable r2 = resumable r" "status r2 = status r" for r2 k
    using upd_inv_put [OF u, of r2 r k] that r by simp
  have same: "put_req x ((us_sched u)\<lparr>sc_kv := sc_kv (us_sched u)\<rparr>) = put_req x (us_sched u)" for x by simp
  show ?thesis
  proof (intro res_all_if, goal_cases)
    case 1
    show ?case
    proof (unfold res_all_def [of _ "update_request_with_output cfg env generated r (us_sched u)"], intro allI impI)
      fix x assume "update_request_with_output cfg env generated r (us_sched u) = Inr x"
      note f = res_allD [OF update_request_with_output_frame this]
      obtain ts st r2 s2 where x: "x = (ts, st, r2, s2)" by (metis surj_pair)
      then obtain k where k: "s2 = put_req r2 ((us_sched u)\<lparr>sc_kv := k\<rparr>)" using f by auto
      show "case x of (ts, stopped, r2, s2) \<Rightarrow> res_all (\<lambda>(reason, r3, u1). upd_inv K R u1 \<and> request_id r3 = rid \<and>
          (map_of (sc_requests (us_sched u1)) rid = None \<or> map_of (sc_requests (us_sched u1)) rid = Some r3))
        (if stopped then stop_request env (status r) r2 (u\<lparr>us_sched := s2\<rparr>) else Inr (None, r2, u\<lparr>us_sched := s2\<rparr>))"
        using f x k run stop [of r2 k] go [of r2 k] by auto
    qed
  next
    case 2
    have "is_finished (r\<lparr>status := FINISHED_STOPPED\<rparr>)" by (simp add: is_finished_def)
    then show ?case using stop [of "r\<lparr>status := FINISHED_STOPPED\<rparr>" "sc_kv (us_sched u)"] run by (simp add: Let_def)
  next
    case 3
    then show ?case using u r run by simp
  qed
qed

lemma update_tokens_step:
  assumes "upd_inv K R (u\<lparr>us_sched := s\<rparr>)" and "rid \<in> K" and "map_of (sc_requests s) rid = Some r" and "\<not> is_finished r"
    and "(if generated \<noteq> [] then update_request_with_output cfg env generated r s
     else if pooling_params r \<noteq> None \<and> pooled
     then Inr ([], True, r\<lparr>status := FINISHED_STOPPED\<rparr>, put_req (r\<lparr>status := FINISHED_STOPPED\<rparr>) s)
     else Inr ([], False, r, s)) = Inr (ts, stopped, r2, s2)"
  shows "res_all (\<lambda>(reason, r3, u1). upd_inv K R u1 \<and> request_id r3 = rid \<and>
        (map_of (sc_requests (us_sched u1)) rid = None \<or> map_of (sc_requests (us_sched u1)) rid = Some r3))
      (if stopped then stop_request env (status r) r2 (u\<lparr>us_sched := s2\<rparr>) else Inr (None, r2, u\<lparr>us_sched := s2\<rparr>))"
proof -
  let ?u = "u\<lparr>us_sched := s\<rparr>"
  have sel: "us_sched ?u = s" "?u\<lparr>us_sched := s2\<rparr> = u\<lparr>us_sched := s2\<rparr>" by simp_all
  have r: "map_of (sc_requests (us_sched ?u)) rid = Some r" using assms(3) by simp
  note t = update_tokens_inv [OF assms(1,2) r assms(4), of env generated cfg pooled, unfolded sel(1) Let_def]
  show ?thesis using res_allD [OF t assms(5)] unfolding prod.case sel(2) .
qed

lemma update_one_inv:
  assumes u: "upd_inv K R u" and rid: "fst rn \<in> K"
  shows "res_all (upd_inv K R) (update_one cfg env out mo failed rn u)"
proof -
  obtain rid n where rn: "rn = (rid, n)" by fastforce
  show ?thesis unfolding update_one_def rn prod.case
  proof (intro res_all_and_then res_all_if res_all_option, goal_cases)
    case 1 then show ?case using u by simp
  next
    case 2 then show ?case using u by simp
  next
    case 3 then show ?case using u by simp
  next
    case (4 y r idx generated pooled)
    let ?r = "adjust_rejected (map_of (scheduled_spec_decode_tokens out) rid) generated r"
    have r: "map_of (sc_requests (us_sched u)) rid = Some r" "\<not> is_finished r" "rid \<in> K" using 4 rid rn by simp_all
    note run = upd_inv_running [OF u r(3,1,2)]
    let ?u = "u\<lparr>us_sched := put_req ?r (us_sched u)\<rparr>"
    have u1: "upd_inv K R ?u" using upd_inv_put [OF u, of ?r r "sc_kv (us_sched u)"] r run by simp
    have r1: "map_of (sc_requests (put_req ?r (us_sched u))) rid = Some ?r" "\<not> is_finished ?r" using run r by (simp_all add: is_finished_def)
    show ?case unfolding Let_def
    proof (rule res_all_and_then, goal_cases)
      case (1 x)
      obtain ts st r2 s2 where x: "x = (ts, st, r2, s2)" by (metis surj_pair)
      have t: "res_all (\<lambda>(reason, r3, u1). upd_inv K R u1 \<and> request_id r3 = rid \<and>
          (map_of (sc_requests (us_sched u1)) rid = None \<or> map_of (sc_requests (us_sched u1)) rid = Some r3))
        (if st then stop_request env (status ?r) r2 (u\<lparr>us_sched := s2\<rparr>) else Inr (None, r2, u\<lparr>us_sched := s2\<rparr>))"
        by (rule update_tokens_step [OF u1 r(3) r1, of generated cfg env pooled ts st r2 s2]) (use 1 x in simp)
      show ?case unfolding x prod.case
      proof (rule res_all_and_then, goal_cases)
        case (1 z)
        obtain reason r3 v where z: "z = (reason, r3, v)" by (metis surj_pair)
        have v: "upd_inv K R v" "request_id r3 = rid"
          "map_of (sc_requests (us_sched v)) rid = None \<or> map_of (sc_requests (us_sched v)) rid = Some r3"
          using res_allD [OF t 1] z by simp_all
        have put: "upd_inv K R (v\<lparr>us_sched := put_req (r3\<lparr>num_nans_in_logits := m\<rparr>) (us_sched v)\<rparr>)"
          if "rid \<in> fst ` set (sc_requests (us_sched v))" for m
        proof -
          have "map_of (sc_requests (us_sched v)) rid = Some r3" using v(3) that by (auto simp: map_of_eq_None_iff)
          then show ?thesis using upd_inv_put [OF v(1), of "r3\<lparr>num_nans_in_logits := m\<rparr>" r3 "sc_kv (us_sched v)"] v(2) by simp
        qed
        have outs: "upd_inv K R (w\<lparr>us_outputs := os\<rparr>) = upd_inv K R w" for w os by (simp add: upd_inv_def)
        show ?case unfolding z prod.case
          by (intro res_all_and_then res_all_if) (use v(1) put in \<open>auto simp: outs split: option.splits\<close>)
      qed
    qed
  qed
qed

section \<open>The whole update\<close>

lemma keeps_running:
  assumes "qinv {#} {} {} s" "qinv {#} {} {} s'" "keeps s s'"
  shows "length (sc_running s') \<le> length (sc_running s)" and "pending K s \<Longrightarrow> pending K s'"
proof -
  have entry: "x \<in> set (sc_running s) \<longleftrightarrow> x \<in> set (sc_running s')" if al: "alive s' x" for x
  proof -
    obtain r where "map_of (sc_requests s') x = Some r" "\<not> is_finished r" using al by (auto simp: alive_def)
    then have m: "map_of (sc_requests s') x = Some r" "map_of (sc_requests s) x = Some r" using assms(3) by (auto simp: keeps_def)
    show ?thesis using qinvD(3) [OF assms(1) m(2)] qinvD(3) [OF assms(2) m(1)] by (simp add: entry_ok_def)
  qed
  have "alive s' x" if "x \<in> set (sc_running s')" for x
    by (rule qinv_alive [OF assms(2), of x]) (use that in \<open>auto simp: places_def alive_def\<close>)
  then have "set (sc_running s') \<subseteq> set (sc_running s)" using entry by blast
  then show "length (sc_running s') \<le> length (sc_running s)"
    using qinv_distinct(1) [OF assms(1)] qinv_distinct(1) [OF assms(2)] by (metis card_mono distinct_card finite_set)
  show "pending K s'" if "pending K s"
    using that entry keeps_alive [OF assms(3)] by (auto simp: pending_def)
qed

lemma finish_requests_sched_inv:
  assumes "finish_requests env ids fs s = Inr (res, s')" and "sched_inv cfg s"
  shows "sched_inv cfg s'" and "pending K s \<Longrightarrow> pending K s'"
proof -
  have q: "qinv {#} {} {} s" using assms(2) by (simp add: sched_inv_def)
  note f = finish_requests_qinv [OF assms(1) q]
  show "sched_inv cfg s'" using keeps_running(1) [OF q] f assms(2) by (auto simp: sched_inv_def intro: order_trans)
  show "pending K s'" if "pending K s" using keeps_running(2) [OF q _ _ that] f by blast
qed

lemma remove_stopped_inv:
  assumes u: "upd_inv K R u" and l: "length R \<le> cfg_max_num_running_reqs cfg"
  shows "sched_inv cfg (remove_stopped u)"
proof -
  let ?s = "us_sched u" let ?S = "us_stopped_running u" let ?t = "remove_stopped u"
  have q: "qinv {#} ?S ?S ?s" and R: "sc_running ?s = R" "?S \<subseteq> set R" and na: "\<forall>x\<in>?S. \<not> alive ?s x"
    using u by (simp_all add: upd_inv_def)
  have le1: "count (places ?s) x \<le> 1" for x using qinvD(2) [OF q, of x] by simp
  have cR: "count (mset R) x \<le> count (places ?s) x" for x using R by (simp add: places_def)
  have "distinct R"
    by (rule distinct_count_le) (rule order_trans [OF cR le1])
  then have run: "sc_running ?t = filter (\<lambda>x. x \<notin> ?S) R"
    using remove_all_filter [of R ?S] R u by (simp add: remove_stopped_def Let_def upd_inv_def)
  have t: "sc_waiting ?t = sc_waiting ?s" "sc_skipped_waiting ?t = sc_skipped_waiting ?s" "sc_requests ?t = sc_requests ?s"
    using u by (simp_all add: remove_stopped_def Let_def upd_inv_def)
  have al: "alive ?t = alive ?s" using t(3) by (simp add: alive_def fun_eq_iff)
  have cnt: "count (places ?t) x = (if x \<in> ?S then 0 else count (places ?s) x)" for x
  proof (cases "x \<in> ?S")
    case True
    then have "count (mset R) x > 0" using R(2) by (auto simp: count_greater_zero_iff)
    then have "count (rq_elems (sc_waiting ?s)) x = 0 \<and> count (rq_elems (sc_skipped_waiting ?s)) x = 0"
      using le1 [of x] unfolding places_def count_union R(1) by linarith
    then show ?thesis using True run t by (simp add: places_def)
  qed (use run t R in \<open>simp add: places_def\<close>)
  have "qinv {#} {} {} ?t"
  proof (rule qinvI)
    show "distinct (keys (sc_requests ?t))" using qinvD(1) [OF q] t by simp
    show "count (places ?t + {#}) x = (if alive ?t x \<or> x \<in> {} then 1 else 0)" for x
      using qinvD(2) [OF q, of x] cnt [of x] na by (simp add: al)
    show "entry_ok {} ?t x r" if "map_of (sc_requests ?t) x = Some r" for x r
    proof (cases "x \<in> ?S")
      case True
      then have "count (places ?t) x = 0" "is_finished r" using cnt [of x] na that t by (auto simp: alive_def)
      then have "x \<notin># rq_elems (sc_waiting ?t)" "status r \<noteq> RUNNING" by (auto simp: places_def is_finished_def count_eq_zero_iff)
      then show ?thesis using qinvD(3) [OF q, of x r] that t True run by (auto simp: entry_ok_def)
    next
      case False
      then show ?thesis using qinvD(3) [OF q, of x r] that t run R(1) by (auto simp: entry_ok_def)
    qed
  qed
  moreover have "length (sc_running ?t) \<le> length R" using run by simp
  ultimately show ?thesis using l by (simp add: sched_inv_def)
qed

lemma sched_inv_frame [simp]:
  "sched_inv cfg (s\<lparr>sc_kv := k\<rparr>) = sched_inv cfg s" "sched_inv cfg (s\<lparr>sc_encoder := e\<rparr>) = sched_inv cfg s"
  "sched_inv cfg (s\<lparr>sc_finished_recving := fr\<rparr>) = sched_inv cfg s"
  "sched_inv cfg (s\<lparr>sc_finished_req_ids := fi\<rparr>) = sched_inv cfg s"
  "sched_inv cfg (s\<lparr>sc_finished_req_ids_dict := fd\<rparr>) = sched_inv cfg s"
  "sched_inv cfg (s\<lparr>sc_prev_step_scheduled := ps\<rparr>) = sched_inv cfg s"
  "sched_inv cfg (s\<lparr>sc_pause_state := p\<rparr>) = sched_inv cfg s"
  by (simp_all add: sched_inv_def)

lemma free_blocks_of_sched_inv:
  assumes "free_blocks_of r s = Inr s'" and "sched_inv cfg s" and "map_of (sc_requests s) rid = Some r"
  shows "sched_inv cfg s'"
proof -
  have q: "qinv {#} {} {} s" using assms(2) by (simp add: sched_inv_def)
  have "is_finished r" using assms(1) by (simp add: free_blocks_of_def and_then_eq_Inr)
  then have "\<not> alive s (request_id r)" using assms(3) qinv_id [OF q assms(3)] by (simp add: alive_def)
  from free_blocks_of_qinv [OF assms(1) q this] show ?thesis
    using keeps_running(1) [OF q] assms(2) by (auto simp: sched_inv_def intro: order_trans)
qed

lemma update_from_kv_xfer_finished_inv:
  assumes "sched_inv cfg s"
  shows "res_all (sched_inv cfg) (update_from_kv_xfer_finished ko s)"
proof -
  have f: "res_all (sched_inv cfg) (finish_recving rid t)" "res_all (sched_inv cfg) (finish_sending rid t)"
    if "sched_inv cfg t" for rid t
    unfolding finish_recving_def finish_sending_def
    by (intro res_all_and_then res_all_if;
        use that free_blocks_of_sched_inv in \<open>fastforce simp: res_all_def of_option_eq_Inr\<close>)+
  have r: "res_all (sched_inv cfg) (fold_res finish_recving (ko_finished_recving ko) s)"
    by (rule fold_res_all) (use assms f in auto)
  show ?thesis unfolding update_from_kv_xfer_finished_def
    by (intro res_all_and_then fold_res_all) (use res_allD [OF r] f in auto)
qed

lemma update_from_output_inv:
  assumes i: "sched_inv cfg s" and p: "pending (set (keys (num_scheduled_tokens out))) s"
  shows "res_all (\<lambda>(outs, s'). sched_inv cfg s') (update_from_output cfg env out mo s)"
proof -
  let ?K = "set (keys (num_scheduled_tokens out))" let ?R = "sc_running s"
  have k: "keeps_inv ?K ?R s" and l: "length ?R \<le> cfg_max_num_running_reqs cfg" using i p by (simp_all add: keeps_inv_def sched_inv_def)
  show ?thesis unfolding update_from_output_def
  proof (rule res_all_and_then, goal_cases)
    case (1 x)
    obtain failed s1 where x: "x = (failed, s1)" by fastforce
    have "res_all (\<lambda>(failed, s'). keeps_inv ?K ?R s') (case mo_kv_connector_output mo of
         Some ko \<Rightarrow> if ko_invalid_block_ids ko \<noteq> {}
           then handle_invalid_blocks cfg (ko_invalid_block_ids ko) (num_scheduled_tokens out) s else Inr ([], s)
       | None \<Rightarrow> Inr ([], s))"
      using k by (intro res_all_option res_all_if handle_invalid_blocks_inv) simp_all
    then have k1: "keeps_inv ?K ?R s1" using 1 x by (simp add: res_all_def)
    show ?case unfolding x prod.case
    proof (rule res_all_and_then, goal_cases)
      case (1 u)
      have "upd_inv ?K ?R \<lparr>us_sched = s1, us_outputs = [], us_stopped_running = {}, us_stopped_preempted = []\<rparr>"
        using k1 by (simp add: upd_inv_def keeps_inv_def)
      then have "res_all (upd_inv ?K ?R) (fold_res (update_one cfg env out mo failed) (num_scheduled_tokens out)
         \<lparr>us_sched = s1, us_outputs = [], us_stopped_running = {}, us_stopped_preempted = []\<rparr>)"
        by (rule fold_res_all) (intro update_one_inv, auto)
      then have rs: "sched_inv cfg (remove_stopped u)" using 1 l by (intro remove_stopped_inv) (simp_all add: res_all_def)
      show ?case
      proof (rule res_all_and_then, goal_cases)
        case (1 u2)
        have u2: "sched_inv cfg (us_sched u2)"
          using 1 rs by (auto simp: Let_def fail_requests_def and_then_eq_Inr split: if_splits dest!: finish_requests_sched_inv(1) [of _ _ _ _ _ _ cfg])
        show ?case
        proof (rule res_all_and_then, goal_cases)
          case (1 s2)
          have "sched_inv cfg s2"
            using 1 u2 update_from_kv_xfer_finished_inv [OF u2] by (auto simp: res_all_def split: option.splits)
          then show ?case by (simp add: Let_def split: prod.split)
        qed
      qed
    qed
  qed
qed

end
