(* ===== verification/Returns.thy ===== *)
theory Returns
  imports Sched_Wait
begin

text \<open>
  Loops that carry fuel never run out of it: no operation of a scheduling step returns \<open>Diverges\<close>. The
  operations without loops of their own return because those they call do; the collection \<open>returns\<close>
  has a fact for each.
\<close>

named_theorems returns

definition returns :: "'a res \<Rightarrow> bool" where
  "returns m \<longleftrightarrow> m \<noteq> Inl Diverges"

lemma returns_simps [simp]:
  "returns (Inr x)" "returns (Inl e) \<longleftrightarrow> e \<noteq> Diverges" "returns (py_assert b)" "returns (py_index xs i)"
  "returns (of_option e v) \<longleftrightarrow> v = None \<longrightarrow> e \<noteq> Diverges"
  by (auto simp: returns_def py_assert_def py_index_def of_option_def split: option.split)

lemma returns_and_then [simp]: "returns (and_then m f) \<longleftrightarrow> returns m \<and> (\<forall>x. m = Inr x \<longrightarrow> returns (f x))"
  by (cases m) (auto simp: returns_def)

lemma returns_fold [returns]: "(\<And>x s. x \<in> set xs \<Longrightarrow> returns (f x s)) \<Longrightarrow> returns (fold_res f xs s)"
  by (induction xs arbitrary: s) simp_all

lemma returns_map [returns]: "(\<And>x. x \<in> set xs \<Longrightarrow> returns (f x)) \<Longrightarrow> returns (map_res f xs)"
  by (induction xs) simp_all

lemma returns_bind: "returns m \<Longrightarrow> (\<And>x. m = Inr x \<Longrightarrow> returns (f x)) \<Longrightarrow> returns (and_then m f)"
  and returns_if: "(c \<Longrightarrow> returns a) \<Longrightarrow> (\<not> c \<Longrightarrow> returns b) \<Longrightarrow> returns (if c then a else b)"
  and returns_option: "(v = None \<Longrightarrow> returns a) \<Longrightarrow> (\<And>x. v = Some x \<Longrightarrow> returns (g x)) \<Longrightarrow> returns (case v of None \<Rightarrow> a | Some x \<Rightarrow> g x)"
  and returns_prod: "(\<And>y z. p = (y, z) \<Longrightarrow> returns (h y z)) \<Longrightarrow> returns (case p of (y, z) \<Rightarrow> h y z)"
  and returns_prod': "(\<And>y z. p = (y, z) \<Longrightarrow> returns (k y z w)) \<Longrightarrow> returns ((case p of (y, z) \<Rightarrow> k y z) w)"
  by (simp_all split: option.split prod.split)

lemmas returns_intros = returns_bind returns_if returns_option returns_prod returns_prod'

lemma res_all_prod': "(\<And>a b. p = (a, b) \<Longrightarrow> res_all P (f a b w)) \<Longrightarrow> res_all P ((case p of (a, b) \<Rightarrow> f a b) w)"
  by (cases p) simp

section \<open>The KV cache\<close>

lemma returns_popleft_n_loop [returns]: "returns (popleft_n_loop x0 x1 x2)"
  by (induction x0 x1 x2 rule: popleft_n_loop.induct) (simp_all add: Let_def returns split: if_split option.split prod.split list.split)

lemma returns_queue [returns]:
  "returns (popleft_n a0 a1)" "returns (remove b0 b1)" "returns (append_n c0 c1)" "returns (set_block_hash d0 d1)"
  by (simp_all add: popleft_n_def remove_def append_n_def set_block_hash_def Let_def returns split: if_split option.split prod.split list.split)

lemma returns_merge_hashes [returns]: "returns (merge_hashes x0 x1 x2)"
  by (induction x0 x1 x2 rule: merge_hashes.induct) (simp_all add: Let_def returns split: if_split option.split prod.split list.split)

lemma returns_hash [returns]:
  "returns (to_bytes4 a0)" "returns (make_block_hash_with_group_id b0 b1)" "returns (gen_mm_extra_hash_keys c0 c1 c2 c3)"
  "returns (generate_block_hash_extra_keys d0 d1 d2 d3 d4)" "returns (scale_factor e0 e1)" "returns (get_value_at f0 f1 f2)"
  "returns (scaled_hashes g0 g1)" "returns (get_num_encoder_embeds h0 h1)"
  by (simp_all add: to_bytes4_def make_block_hash_with_group_id_def gen_mm_extra_hash_keys_def generate_block_hash_extra_keys_def scale_factor_def get_value_at_def scaled_hashes_def get_num_encoder_embeds_def Let_def returns split: if_split option.split prod.split list.split)

lemma returns_lookup [returns]:
  "returns (get_one_block a0 a1)" "returns (hash_list_at b0 b1)" "returns (hash_list_from c0 c1)"
  "returns (group_hashes d0 d1 d2)"
  by (simp_all add: get_one_block_def hash_list_at_def hash_list_from_def group_hashes_def Let_def returns split: if_split option.split prod.split list.split hash_list.split cache_entry.split)

lemma returns_get_cached_block [returns]: "returns (get_cached_block x0 x1 x2)"
  by (induction x0 x1 x2 rule: get_cached_block.induct) (simp_all add: Let_def returns split: if_split option.split prod.split list.split)

lemma returns_cache_loop [returns]: "returns (cache_loop x0 x1 x2 x3 x4)"
  by (induction x0 x1 x2 x3 x4 rule: cache_loop.induct) (simp_all add: Let_def returns split: if_split option.split prod.split list.split)

lemma returns_event_keys [returns]: "returns (event_keys x0 x1 x2 x3 x4 x5 x6)"
  by (induction x0 x1 x2 x3 x4 x5 x6 rule: event_keys.induct) (simp_all add: Let_def returns split: if_split option.split prod.split list.split)

lemma returns_pool [returns]:
  "returns (cache_full_blocks a0 a1 a2 a3 a4 a5 a6 a7)" "returns (take_block b0 b1)"
  by (simp_all add: cache_full_blocks_def take_block_def Let_def returns split: if_split option.split prod.split list.split)

lemma returns_pool_blocks [returns]:
  "returns (get_new_blocks a0 a1)" "returns (touch_block b0 b1)" "returns (touch c0 c1)" "returns (free_blocks d0 d1)"
  by (simp_all add: get_new_blocks_def touch_block_def touch_def free_blocks_def Let_def returns split: if_split option.split prod.split list.split)

lemma returns_reuse_speculative [returns]: "returns (reuse_speculative x0 x1 x2 x3)"
  by (induction x0 x1 x2 x3 rule: reuse_speculative.induct) (simp_all add: Let_def returns split: if_split option.split prod.split list.split)

lemma returns_record_cached [returns]: "returns (record_cached x0 x1 x2)"
  by (induction x0 x1 x2 rule: record_cached.induct) (simp_all add: Let_def returns split: if_split option.split prod.split list.split)

lemma returns_need [returns]:
  "returns (base_get_num_blocks_to_allocate a0 a1 a2 a3 a4 a5)"
  "returns (mamba_get_num_blocks_to_allocate b0 b1 b2 b3 b4 b5 b6)"
  "returns (get_num_blocks_to_allocate c0 c1 c2 c3 c4 c5 c6)"
  by (simp_all add: base_get_num_blocks_to_allocate_def mamba_get_num_blocks_to_allocate_def get_num_blocks_to_allocate_def Let_def returns split: if_split option.split prod.split list.split)

lemma returns_base [returns]:
  "returns (base_allocate_new_computed_blocks a0 a1 a2 a3 a4 a5)" "returns (base_allocate_new_blocks b0 b1 b2 b3)"
  "returns (base_cache_blocks c0 c1 c2 c3 c4)" "returns (base_free d0 d1 d2)"
  "returns (base_remove_skipped_blocks e0 e1 e2 e3)"
  by (simp_all add: base_allocate_new_computed_blocks_def base_allocate_new_blocks_def base_cache_blocks_def base_free_def base_remove_skipped_blocks_def Let_def returns split: if_split option.split prod.split list.split)

lemma returns_mamba [returns]:
  "returns (mamba_allocate_new_blocks a0 a1 a2 a3 a4)" "returns (mamba_cache_blocks b0 b1 b2 b3 b4)"
  "returns (mamba_remove_skipped_blocks c0 c1 c2 c3)"
  by (simp_all add: mamba_allocate_new_blocks_def mamba_cache_blocks_def mamba_remove_skipped_blocks_def Let_def returns split: if_split option.split prod.split list.split)

lemma returns_managers [returns]:
  "returns (allocate_new_computed_blocks a0 a1 a2 a3 a4 a5)" "returns (allocate_new_blocks b0 b1 b2 b3 b4)"
  "returns (cache_blocks c0 c1 c2 c3 c4)" "returns (free d0 d1 d2)" "returns (remove_skipped_blocks e0 e1 e2 e3)"
  by (simp_all add: allocate_new_computed_blocks_def allocate_new_blocks_def cache_blocks_def free_def remove_skipped_blocks_def Let_def returns split: if_split option.split prod.split list.split)

lemma returns_hits [returns]:
  "returns (lookup_at a0 a1 a2 a3)" "returns (pop_hits b0)"
  by (simp_all add: lookup_at_def pop_hits_def Let_def returns split: if_split option.split prod.split list.split)

lemma returns_append_hits [returns]: "returns (append_hits x0 x1 x2 x3 x4)"
  by (induction x0 x1 x2 x3 x4 rule: append_hits.induct) (simp_all add: Let_def returns split: if_split option.split prod.split list.split)

lemma returns_align_loop [returns]: "returns (align_loop x0 x1 x2 x3)"
  by (induction x0 x1 x2 x3 rule: align_loop.induct) (simp_all add: Let_def returns split: if_split option.split prod.split list.split)

lemma returns_swa_loop [returns]: "returns (swa_loop i p hl gids bs alignment need contiguous computed)"
proof (induction i arbitrary: contiguous computed)
  case (Suc i)
  show ?case using Suc unfolding swa_loop.simps by (cases "bs = alignment") (simp_all add: Let_def returns split: option.split)
qed simp

lemma returns_mamba_loop [returns]: "returns (mamba_loop x0 x1 x2 x3 x4 x5)"
  by (induction x0 x1 x2 x3 x4 x5 rule: mamba_loop.induct) (simp_all add: Let_def returns split: if_split option.split prod.split list.split)

lemma returns_find [returns]:
  "returns (align_hits a0 a1 a2)" "returns (full_find_longest_cache_hit b0 b1 b2 b3 b4 b5 b6 b7 b8)"
  "returns (swa_find_longest_cache_hit c0 c1 c2 c3 c4 c5 c6 c7 c8 c9)"
  "returns (chunked_find_longest_cache_hit d0 d1 d2 d3 d4 d5 d6 d7 d8 d9)"
  "returns (mamba_find_longest_cache_hit e0 e1 e2 e3 e4 e5 e6 e7)"
  by (simp_all add: align_hits_def full_find_longest_cache_hit_def swa_find_longest_cache_hit_def chunked_find_longest_cache_hit_def mamba_find_longest_cache_hit_def Let_def returns split: if_split option.split prod.split list.split)

lemma returns_find_longest_cache_hit [returns]:
  "returns (find_longest_cache_hit hl n gids p spec use_eagle alignment dcp pcp)"
  by (cases spec) (simp_all add: find_longest_cache_hit_def returns)

lemma returns_each_manager: "(\<And>i m p. returns (f i m p)) \<Longrightarrow> returns (each_manager f i ms p)"
  by (induction ms arbitrary: i p) (simp_all split: prod.split)

lemma returns_on_managers [returns]: "(\<And>i m p. returns (f i m p)) \<Longrightarrow> returns (on_managers f c)"
  by (simp add: on_managers_def returns_each_manager split: prod.split)

lemma returns_cache_managers [returns]: "returns (cache_managers x0 x1 x2 x3 x4)"
  by (induction x0 x1 x2 x3 x4 rule: cache_managers.induct) (simp_all add: Let_def returns split: if_split option.split prod.split list.split)

lemma returns_coord [returns]:
  "returns (coord_get_num_blocks_to_allocate a0 a1 a2 a3 a4 a5 a6)"
  "returns (coord_allocate_new_computed_blocks b0 b1 b2 b3 b4)" "returns (coord_allocate_new_blocks c0 c1 c2 c3 c4)"
  "returns (coord_cache_blocks d0 d1 d2 d3)" "returns (coord_free e0 e1)" "returns (coord_remove_skipped_blocks f0 f1 f2)"
  "returns (unitary_find_longest_cache_hit g0 g1 g2)" "returns (truncate_full h0 h1 h2)"
  by (simp_all add: coord_get_num_blocks_to_allocate_def coord_allocate_new_computed_blocks_def coord_allocate_new_blocks_def coord_cache_blocks_def coord_free_def coord_remove_skipped_blocks_def unitary_find_longest_cache_hit_def truncate_full_def Let_def returns split: if_split option.split prod.split list.split)

lemma returns_kv [returns]:
  "returns (can_fit_full_sequence a0 a1 a2 a3 a4 a5)" "returns (allocate_slots b0 b1 b2 b3 b4 b5 b6 b7 b8 b9)"
  "returns (kv_free c0 c1)" "returns (kv_cache_blocks_op d0 d1 d2 d3)"
  by (simp_all add: can_fit_full_sequence_def allocate_slots_def kv_free_def kv_cache_blocks_op_def Let_def returns split: if_split option.split prod.split list.split)

lemma returns_hybrid_pass [returns]: "returns (hybrid_pass c hs gs n hits)"
proof (induction gs arbitrary: n hits)
  case (Cons g gs)
  obtain a gids where "g = (a, gids)" by fastforce
  then show ?case by (simp add: Let_def Cons returns)
qed simp

section \<open>Queues and the encoder cache\<close>

lemma returns_heap [returns]:
  "returns (heappop a0 a1)" "returns (fcfs_pop b0)" "returns (fcfs_peek c0)" "returns (prio_pop d0 d1)"
  "returns (prio_peek e0)"
  by (simp_all add: heappop_def fcfs_pop_def fcfs_peek_def prio_pop_def prio_peek_def Let_def returns split: if_split option.split prod.split list.split)

lemma returns_rq [returns]:
  "returns (rq_pop a0 a1)" "returns (rq_peek b0)"
  by (simp_all add: rq_pop_def rq_peek_def Let_def returns split: if_split option.split prod.split list.split rqueue.split)

lemma returns_evict_loop [returns]: "returns (evict_loop x0 x1 x2)"
  by (induction x0 x1 x2 rule: evict_loop.induct) (simp_all add: Let_def returns split: if_split option.split prod.split list.split)

lemma returns_ec [returns]:
  "returns (ec_check_and_update_cache a0 a1 a2)" "returns (ec_can_allocate b0 b1 b2 b3 b4)" "returns (ec_allocate c0 c1 c2)"
  "returns (ec_free_encoder_input d0 d1 d2)" "returns (ed_can_allocate e0 e1 e2 e3 e4)" "returns (ed_allocate f0 f1 f2)"
  "returns (ed_free_encoder_input g0 g1 g2)" "returns (get_embeds_indices_in_range h0 h1 h2)"
  by (simp_all add: ec_check_and_update_cache_def ec_can_allocate_def ec_allocate_def ec_free_encoder_input_def ed_can_allocate_def ed_allocate_def ed_free_encoder_input_def get_embeds_indices_in_range_def Let_def returns split: if_split option.split prod.split list.split)

lemma returns_ec_free [returns]:
  "returns (ec_free a0 a1)" "returns (ed_free b0 b1)"
  by (simp_all add: ec_free_def ed_free_def Let_def returns split: if_split option.split prod.split list.split)

lemma returns_em [returns]:
  "returns (em_check_and_update_cache a0 a1 a2)" "returns (em_can_allocate b0 b1 b2 b3 b4)" "returns (em_allocate c0 c1 c2)"
  "returns (em_free_encoder_input d0 d1 d2)" "returns (em_free e0 e1)"
  by (simp_all add: em_check_and_update_cache_def em_can_allocate_def em_allocate_def em_free_encoder_input_def em_free_def Let_def returns split: if_split option.split prod.split list.split encoder_manager.split)

lemma returns_schedule_input:
  "(\<And>y. returns (continue y)) \<Longrightarrow> returns (schedule_input disable has_item r computed shift i f continue s)"
  by (simp add: schedule_input_def Let_def returns split: if_split prod.split)

lemma returns_encoder_loop [returns]: "returns (encoder_loop encdec disable has_item r computed shift fs s)"
proof (induction fs arbitrary: s)
  case (Cons f fs)
  obtain i ff p m where "f = (i, ff)" "s = (p, m)" by (metis surj_pair)
  then show ?case using Cons by (cases encdec) (simp_all add: Let_def returns returns_schedule_input split: prod.split)
qed simp

lemma returns_encoder_inputs [returns]:
  "returns (try_schedule_encoder_inputs a0 a1 a2 a3 a4 a5 a6 a7 a8)" "returns (free_encoder_inputs b0 b1 b2)"
  by (simp_all add: try_schedule_encoder_inputs_def free_encoder_inputs_def Let_def returns split: if_split option.split prod.split list.split)

section \<open>The parts of a step\<close>

lemma returns_requests [returns]:
  "returns (get_req a0 a1)" "returns (select_waiting_queue b0 b1)" "returns (pop_queue c0 c1)"
  by (simp_all add: get_req_def select_waiting_queue_def pop_queue_def Let_def returns split: if_split option.split prod.split list.split)

lemma returns_preempt [returns]:
  "returns (preempt_request a0 a1)" "returns (update_waiting_for_remote_kv b0 b1 b2)"
  by (simp_all add: preempt_request_def update_waiting_for_remote_kv_def Let_def returns split: if_split option.split prod.split list.split)

lemma returns_try_promote_blocked [returns]: "returns (try_promote_blocked env r s)"
  by (cases "status r") (simp_all add: try_promote_blocked_def Let_def returns split: option.split prod.split)

lemma returns_running [returns]:
  "returns (dict_pop a0 a1)" "returns (list_remove b0 b1)" "returns (mamba_block_aligned_split c0 c1 c2 c3 c4)"
  "returns (lowest_priority d0)" "returns (unschedule e0 e1)"
  by (simp_all add: dict_pop_def list_remove_def mamba_block_aligned_split_def lowest_priority_def unschedule_def Let_def returns split: if_split option.split prod.split list.split)

lemma returns_victim [returns]:
  "returns (pick_victim a0 a1)" "returns (schedule_spec_tokens b0 b1 b2)" "returns (allocate_encoder_inputs c0 c1 c2 c3 c4)"
  "returns (plan_encoder d0 d1 d2 d3 d4 d5)"
  by (simp_all add: pick_victim_def schedule_spec_tokens_def allocate_encoder_inputs_def plan_encoder_def Let_def returns split: if_split option.split prod.split list.split)

lemma returns_waiting [returns]:
  "returns (skip_request a0 a1)" "returns (waiting_num_new b0 b1 b2 b3 b4 b5 b6 b7)" "returns (untouch_encoder c0 c1)"
  by (simp_all add: skip_request_def waiting_num_new_def untouch_encoder_def Let_def returns split: if_split option.split prod.split list.split)

lemma returns_admit [returns]:
  "returns (admit_blocks a0 a1 a2 a3 a4 a5 a6 a7 a8 a9)" "returns (lora_ids b0 b1)"
  by (simp_all add: admit_blocks_def lora_ids_def Let_def returns split: if_split option.split prod.split list.split)

lemma returns_start_request [returns]: "returns (start_request cfg rid n computed plan ws)"
proof -
  have "returns (case st of WAITING \<Rightarrow> Inr x | PREEMPTED \<Rightarrow> Inr y | _ \<Rightarrow> Inl RuntimeError)" for st and x y :: step
    by (cases st) simp_all
  then show ?thesis by (simp add: start_request_def Let_def returns split: prod.split)
qed

lemma returns_message [returns]:
  "returns (block_ids_for a0 a1 a2)" "returns (new_request_entry b0 b1 b2)" "returns (cached_entry c0 c1 c2 c3 c4)"
  "returns (make_cached_request_data d0 d1 d2 d3)"
  by (simp_all add: block_ids_for_def new_request_entry_def cached_entry_def make_cached_request_data_def Let_def returns split: if_split option.split prod.split list.split)

lemma returns_after [returns]:
  "returns (advance_request a0 a1 a2)" "returns (add_placeholders b0 b1 b2 b3)"
  by (simp_all add: advance_request_def add_placeholders_def Let_def returns split: if_split option.split prod.split list.split)

lemma returns_output [returns]:
  "returns (update_after_schedule a0 a1 a2)" "returns (build_output b0 b1)"
  by (simp_all add: update_after_schedule_def build_output_def Let_def returns split: if_split option.split prod.split list.split)

section \<open>The lookup of a hybrid coordinator\<close>

definition kv_attention :: "kv_manager \<Rightarrow> (group_spec \<times> int list) list" where
  "kv_attention k = attention_groups (kv_coordinator k)"

definition positive_blocks :: "kv_manager \<Rightarrow> bool" where
  "positive_blocks k \<longleftrightarrow> (\<forall>a\<in>set (kv_attention k). 0 < spec_block_size (snd (fst a)))"

lemma hybrid_pass_nonneg:
  assumes "hybrid_pass c hs gs n hits = Inr (m, hits')" and "\<forall>a\<in>set gs. 0 < spec_block_size (snd (fst a))"
    and "0 \<le> n \<or> gs \<noteq> [] \<and> set hits \<subseteq> {None}"
  shows "0 \<le> m"
  using assms
proof (induction gs arbitrary: n hits)
  case (Cons a gs)
  obtain g gids where a: "a = (g, gids)" by fastforce
  let ?bs = "spec_block_size (snd g)"
  have bs: "0 < ?bs" using Cons.prems(2) a by simp
  obtain g0 cached where h: "py_index gids 0 = Inr g0" "py_index hits g0 = Inr cached"
    using Cons.prems(1) a by (auto simp: Let_def and_then_eq_Inr)
  show ?case
  proof (cases "is_full_attention (snd g) \<and> cached \<noteq> None")
    case True
    moreover have "cached \<in> set hits" using h(2) by (auto simp: py_index_def split: if_splits)
    ultimately have "0 \<le> n" using Cons.prems(3) by auto
    then have "0 \<le> n div ?bs * ?bs" using bs by (simp add: pos_imp_zdiv_nonneg_iff)
    moreover have "hybrid_pass c hs gs (n div ?bs * ?bs) hits = Inr (m, hits')"
      using Cons.prems(1) True h a by (simp add: Let_def)
    ultimately show ?thesis using Cons.IH Cons.prems(2) by (meson list.set_intros(2))
  next
    case False
    then obtain hit and b0 :: "node list" where "hybrid_pass c hs gs (int (length b0) * ?bs) (store_hits gids hit hits) = Inr (m, hits')"
      using Cons.prems(1) unfolding a hybrid_pass.simps Let_def h and_then_simps if_not_P [OF False]
        and_then_eq_Inr by blast
    then show ?thesis using Cons.IH Cons.prems(2) bs by (meson list.set_intros(2) mult_nonneg_nonneg of_nat_0_le_iff order_less_imp_le)
  qed
qed simp

text \<open>The hit length decreases with every further pass, and after the first one it is not negative.\<close>

lemma returns_hybrid_loop:
  assumes "nat n < fuel" and "\<forall>a\<in>set (attention_groups c). 0 < spec_block_size (snd (fst a))" and "0 \<le> n \<or> set hits \<subseteq> {None}"
  shows "returns (hybrid_loop fuel c hs simple n hits)"
  using assms
proof (induction fuel arbitrary: n hits)
  case (Suc fuel)
  have "returns (hybrid_loop fuel c hs simple m hits')"
    if p: "hybrid_pass c hs (attention_groups c) n hits = Inr (m, hits')" and m: "m < n" for m hits'
  proof -
    have "0 \<le> m" by (rule hybrid_pass_nonneg [OF p Suc.prems(2)]) (use p m Suc.prems(3) in \<open>cases "attention_groups c"; auto\<close>)
    then show ?thesis using Suc.prems m by (intro Suc.IH) auto
  qed
  then show ?case by (auto simp: returns)
qed simp

lemma returns_get_computed_blocks:
  assumes "positive_blocks k" shows "returns (get_computed_blocks r k)"
proof -
  have "returns (hybrid_loop (Suc (nat n)) (kv_coordinator k) hs simple n (replicate m None))" for hs simple n m
    by (rule returns_hybrid_loop) (use assms in \<open>auto simp: positive_blocks_def kv_attention_def\<close>)
  then have "returns (hybrid_find_longest_cache_hit (kv_coordinator k) hs n)" for hs n
    by (simp add: hybrid_find_longest_cache_hit_def Let_def returns del: hybrid_loop.simps)
  then show ?thesis
    by (simp add: get_computed_blocks_def coord_find_longest_cache_hit_def Let_def returns split: coord_kind.split prod.split)
qed

lemma on_managers_attention: "on_managers f c = Inr (x, c') \<Longrightarrow> attention_groups c' = attention_groups c"
  by (auto simp: on_managers_def and_then_eq_Inr split: prod.splits)

lemma coord_attention:
  "coord_free rid c = Inr c' \<Longrightarrow> attention_groups c' = attention_groups c"
  "coord_remove_skipped_blocks rid n c = Inr c' \<Longrightarrow> attention_groups c' = attention_groups c"
  "coord_get_num_blocks_to_allocate rid n bl e t m c = Inr (x, c') \<Longrightarrow> attention_groups c' = attention_groups c"
  "coord_allocate_new_computed_blocks rid bl a b c = Inr c' \<Longrightarrow> attention_groups c' = attention_groups c"
  "coord_allocate_new_blocks rid n m e c = Inr (y, c') \<Longrightarrow> attention_groups c' = attention_groups c"
  "coord_cache_blocks env r n c = Inr (c', r') \<Longrightarrow> attention_groups c' = attention_groups c"
  by (auto simp: coord_free_def coord_remove_skipped_blocks_def coord_get_num_blocks_to_allocate_def
      coord_allocate_new_computed_blocks_def coord_allocate_new_blocks_def coord_cache_blocks_def and_then_eq_Inr
      split: prod.splits dest: on_managers_attention)

lemma allocate_slots_attention:
  "allocate_slots env r a b bl c d e f k = Inr (res, k', r') \<Longrightarrow> kv_attention k' = kv_attention k"
  by (auto simp: allocate_slots_def kv_attention_def and_then_eq_Inr Let_def split: if_splits prod.splits dest!: coord_attention)

lemma kv_ops_attention:
  "kv_free r k = Inr k' \<Longrightarrow> kv_attention k' = kv_attention k"
  "kv_cache_blocks_op env r n k = Inr (k', r') \<Longrightarrow> kv_attention k' = kv_attention k"
  "can_fit_full_sequence r a bl b e k = Inr (ok, k') \<Longrightarrow> kv_attention k' = kv_attention k"
  "get_computed_blocks r k = Inr (x, k') \<Longrightarrow> kv_attention k' = kv_attention k"
  "kv_attention (kv_new_step_starts k) = kv_attention k"
  by (auto simp: kv_free_def kv_cache_blocks_op_def can_fit_full_sequence_def get_computed_blocks_def kv_new_step_starts_def
      coord_new_step_starts_def kv_attention_def and_then_eq_Inr Let_def split: if_splits prod.splits dest!: coord_attention)

section \<open>The loop over the running requests\<close>

text \<open>What the step's loops count: the running requests and the attention groups stay but for preemption.\<close>

definition same_running :: "step \<Rightarrow> step \<Rightarrow> bool" where
  "same_running st st' \<longleftrightarrow> kv_attention (sc_kv (st_sched st')) = kv_attention (sc_kv (st_sched st)) \<and>
     sc_running (st_sched st') = sc_running (st_sched st)"

lemma pick_victim_size:
  assumes "pick_victim cfg (i, st) = Inr (v, i', st')"
  shows "Suc (length (sc_running (st_sched st'))) = length (sc_running (st_sched st)) \<and> i - 1 \<le> i' \<and>
    kv_attention (sc_kv (st_sched st')) = kv_attention (sc_kv (st_sched st))"
  using assms
  by (auto simp: pick_victim_def list_remove_def unschedule_def and_then_eq_Inr length_remove1 on_sched_def
      Suc_pred [OF length_pos_if_in_set, simplified] split: if_splits prod.splits)

lemma preempt_request_size:
  assumes "preempt_request v s = Inr s'"
  shows "sc_running s' = sc_running s \<and> kv_attention (sc_kv s') = kv_attention (sc_kv s)"
  using assms by (auto simp: preempt_request_def and_then_eq_Inr Let_def put_req_def dest: kv_ops_attention(1))

lemma returns_allocate_or_preempt:
  "length (sc_running (st_sched st)) < fuel \<Longrightarrow> returns (allocate_or_preempt cfg env fuel rid n (i, st))"
proof (induction fuel arbitrary: i st)
  case (Suc fuel)
  have "returns (allocate_or_preempt cfg env fuel rid n (i', st2\<lparr>st_sched := s', st_preempted := pr\<rparr>))"
    if p: "pick_victim cfg (i, on_sched (\<lambda>s. put_req r' (s\<lparr>sc_kv := k\<rparr>)) st) = Inr (v, i', st2)"
      and q: "preempt_request v (st_sched st2) = Inr s'" for r' k v i' st2 s' pr
    using pick_victim_size [OF p] preempt_request_size [OF q] Suc.prems by (intro Suc.IH) (simp add: put_req_def)
  then show ?case by (simp add: Let_def returns split: option.split)
qed simp

lemma allocate_or_preempt_size:
  assumes "allocate_or_preempt cfg env fuel rid n (i, st) = Inr (b, i', st')"
  shows "kv_attention (sc_kv (st_sched st')) = kv_attention (sc_kv (st_sched st)) \<and>
    int (length (sc_running (st_sched st'))) - i' \<le> int (length (sc_running (st_sched st))) - i"
  using assms
proof (induction fuel arbitrary: i st)
  case (Suc fuel)
  obtain r blocks k r' where a: "get_req rid (st_sched st) = Inr r"
    "allocate_slots (en_hash env) r n 0 None (cfg_num_lookahead_tokens cfg) 0 False 0 (sc_kv (st_sched st)) = Inr (blocks, k, r')"
    using Suc.prems by (auto simp: and_then_eq_Inr)
  let ?st1 = "on_sched (\<lambda>s. put_req r' (s\<lparr>sc_kv := k\<rparr>)) st"
  have k: "kv_attention k = kv_attention (sc_kv (st_sched st))" by (rule allocate_slots_attention [OF a(2)])
  show ?case
  proof (cases blocks)
    case None
    then obtain v i2 st2 s2 where v: "pick_victim cfg (i, ?st1) = Inr (v, i2, st2)" "preempt_request v (st_sched st2) = Inr s2"
      and e: "(if v = rid then Inr (None, i2, st2\<lparr>st_sched := s2, st_preempted := st_preempted st2 @ [v]\<rparr>)
        else allocate_or_preempt cfg env fuel rid n (i2, st2\<lparr>st_sched := s2, st_preempted := st_preempted st2 @ [v]\<rparr>)) = Inr (b, i', st')"
      using Suc.prems a by (auto simp: and_then_eq_Inr Let_def)
    note f = pick_victim_size [OF v(1)] preempt_request_size [OF v(2)]
    show ?thesis
    proof (cases "v = rid")
      case True
      then show ?thesis using e f k by (auto simp: put_req_def)
    next
      case False
      then show ?thesis using Suc.IH e f k by (fastforce simp: put_req_def)
    qed
  qed (use Suc.prems a k in \<open>auto simp: put_req_def Let_def\<close>)
qed simp

lemma running_step_size:
  "plan_encoder cfg env r c n st = Inr (x, st') \<Longrightarrow> same_running st st'"
  "schedule_spec_tokens rid n st = Inr st' \<Longrightarrow> same_running st st'"
  "allocate_encoder_inputs rid inputs ext b st = Inr st' \<Longrightarrow> same_running st st'"
  by (auto simp: plan_encoder_def schedule_spec_tokens_def allocate_encoder_inputs_def same_running_def on_sched_def put_req_def
      and_then_eq_Inr Let_def split: if_splits prod.splits)

lemma running_scheduled_size:
  assumes a: "allocate_or_preempt cfg env f rid n (i, st1) = Inr (b, i', st2)" and p: "same_running st st1"
    and s: "schedule_spec_tokens rid n (st2\<lparr>st_running_reqs := rr, st_new_blocks := nb, st_num_scheduled := ns, st_budget := bu\<rparr>) = Inr st4"
    and e: "allocate_encoder_inputs rid inputs ext b' st4 = Inr st5"
  shows "kv_attention (sc_kv (st_sched st5)) = kv_attention (sc_kv (st_sched st)) \<and>
    int (length (sc_running (st_sched st5))) - i' \<le> int (length (sc_running (st_sched st))) - i"
  using allocate_or_preempt_size [OF a] p running_step_size(2) [OF s] running_step_size(3) [OF e]
  by (simp add: same_running_def)

lemma returns_running_loop:
  "nat (int (length (sc_running (st_sched st))) - i) < fuel \<Longrightarrow> returns (running_loop cfg env fuel (i, st))"
proof (induction fuel arbitrary: i st)
  case (Suc fuel)
  have go: "returns (running_loop cfg env fuel (i' + 1, st'))"
    if "int (length (sc_running (st_sched st'))) - i' \<le> int (length (sc_running (st_sched st))) - i"
      "i < int (length (sc_running (st_sched st)))" for i' st'
    using that Suc.prems by (intro Suc.IH) linarith
  have skip: "returns (running_loop cfg env fuel (i + 1, st1))"
    if "plan_encoder cfg env r c n st = Inr (x, st1)" "i < int (length (sc_running (st_sched st)))" for r c n x st1
    using running_step_size(1) [OF that(1)] that(2) by (intro go) (simp_all add: same_running_def)
  have next_req: "returns (running_loop cfg env fuel (i' + 1, st5))"
    if "plan_encoder cfg env r c n st = Inr (x, st1)" "allocate_or_preempt cfg env f rid m (i, st1) = Inr (b, i', st2)"
      "schedule_spec_tokens rid m (st2\<lparr>st_running_reqs := rr, st_new_blocks := nb, st_num_scheduled := ns, st_budget := bu\<rparr>) = Inr st4"
      "allocate_encoder_inputs rid inputs ext b' st4 = Inr st5" "i < int (length (sc_running (st_sched st)))"
    for r c n x st1 f rid m b i' st2 rr nb ns bu st4 inputs ext b' st5
    using running_scheduled_size [OF that(2) running_step_size(1) [OF that(1)] that(3,4)] that(5) by (intro go) simp_all
  show ?case unfolding running_loop.simps Let_def
    by (intro returns_intros) ((clarify, erule (3) next_req, simp) | (clarify, erule skip, simp) |
        simp add: returns go returns_allocate_or_preempt del: allocate_or_preempt.simps)+
qed simp

lemma running_loop_attention:
  "running_loop cfg env fuel (i, st) = Inr st' \<Longrightarrow> kv_attention (sc_kv (st_sched st')) = kv_attention (sc_kv (st_sched st))"
proof (induction fuel arbitrary: i st st')
  case (Suc fuel)
  let ?same = "\<lambda>st1. kv_attention (sc_kv (st_sched st1)) = kv_attention (sc_kv (st_sched st))"
  have plan: "?same st1" if "plan_encoder cfg env r c n st = Inr (x, st1)" for r c n x st1
    using running_step_size(1) [OF that] by (simp add: same_running_def)
  have alloc: "?same st2"
    if "plan_encoder cfg env r c n st = Inr (x, st1)" "allocate_or_preempt cfg env f rid m (i, st1) = Inr (b, i', st2)"
    for r c n x st1 f rid m b i' st2
    using allocate_or_preempt_size [OF that(2)] plan [OF that(1)] by simp
  have next_req: "?same st5"
    if "plan_encoder cfg env r c n st = Inr (x, st1)" "allocate_or_preempt cfg env f rid m (i, st1) = Inr (b, i', st2)"
      "schedule_spec_tokens rid m (st2\<lparr>st_running_reqs := rr, st_new_blocks := nb, st_num_scheduled := ns, st_budget := bu\<rparr>) = Inr st4"
      "allocate_encoder_inputs rid inputs ext b' st4 = Inr st5"
    for r c n x st1 f rid m b i' st2 rr nb ns bu st4 inputs ext b' st5
    using running_scheduled_size [OF that(2) running_step_size(1) [OF that(1)] that(3,4)] by simp
  have ih: "res_all ?same (running_loop cfg env fuel (i', st1))" if "?same st1" for i' st1
    using Suc.IH that by (auto simp: res_all_def)
  have "res_all ?same (running_loop cfg env (Suc fuel) (i, st))" unfolding running_loop.simps Let_def
  proof (intro res_all_intros res_all_prod', goal_cases)
    case (3 x r y a st1)
    show ?case by (rule ih, rule plan) (use 3(5-10) in simp)
  next
    case (4 x r y a st1 inputs ba n1 bb nb ext n xd blocks bc idx' st2)
    show ?case unfolding res_all_simps by (rule alloc, use 4(5-10) in simp) (use 4(12-) in \<open>simp del: allocate_or_preempt.simps\<close>)
  next
    case (5 x r y a st1 inputs ba n1 bb nb ext n xd blocks bc idx' st2 bd st4 st5)
    show ?case by (rule ih, rule next_req, use 5(5-10) in simp) (use 5(12-) in \<open>simp del: allocate_or_preempt.simps\<close>)+
  qed (simp_all add: ih)
  then show ?case using Suc.prems by (rule res_allD)
qed simp

section \<open>The loop over the waiting requests\<close>

definition queued :: "scheduler \<Rightarrow> nat" where
  "queued s = rq_len (sc_waiting s) + rq_len (sc_skipped_waiting s)"

definition same_queued :: "scheduler \<Rightarrow> scheduler \<Rightarrow> bool" where
  "same_queued s s' \<longleftrightarrow> kv_attention (sc_kv s') = kv_attention (sc_kv s) \<and> queued s' = queued s"

lemma same_queued_simps [simp]:
  "same_queued s s" "same_queued s (s'\<lparr>sc_encoder := e\<rparr>) = same_queued s s'" "same_queued s (s'\<lparr>sc_running := rs\<rparr>) = same_queued s s'"
  "same_queued s (put_req r s') = same_queued s s'"
  "same_queued s (s'\<lparr>sc_finished_recving := fr\<rparr>) = same_queued s s'" "same_queued s (s'\<lparr>sc_failed_recving := fl\<rparr>) = same_queued s s'"
  "kv_attention k = kv_attention (sc_kv s') \<Longrightarrow> same_queued s (s'\<lparr>sc_kv := k\<rparr>) = same_queued s s'"
  by (simp_all add: same_queued_def queued_def put_req_def)

lemma remote_kv_queued: "update_waiting_for_remote_kv env r s = Inr (r', s') \<Longrightarrow> same_queued s s'"
proof -
  have "res_all (\<lambda>(r', s'). same_queued s s') (update_waiting_for_remote_kv env r s)"
    unfolding update_waiting_for_remote_kv_def
  proof (intro res_all_and_then res_all_prod, goal_cases)
    case (1 x p r4 s1)
    have "res_all (\<lambda>(r1, s1). same_queued s s1)
      (if request_id r \<in> sc_failed_recving s
        then and_then (if num_computed_tokens r \<noteq> 0
                       then kv_cache_blocks_op (en_hash env) r (num_computed_tokens r) (sc_kv s)
                       else and_then (kv_free r (sc_kv s)) (\<lambda>k. Inr (k, r)))
               (\<lambda>(k, r1). Inr (r1, s\<lparr>sc_kv := k, sc_failed_recving := sc_failed_recving s - {request_id r}\<rparr>))
        else and_then (kv_cache_blocks_op (en_hash env) r (num_computed_tokens r) (sc_kv s)) (\<lambda>(k, r1).
               let r2 = (if num_computed_tokens r1 = num_tokens r1 then r1\<lparr>num_computed_tokens := num_tokens r1 - 1\<rparr> else r1);
                   r3 = (if num_cached_tokens r2 < 0 then r2\<lparr>num_cached_tokens := num_computed_tokens r2\<rparr> else r2)
               in Inr (r3, s\<lparr>sc_kv := k\<rparr>)))"
      unfolding Let_def
      by (intro res_all_intros) (auto simp: and_then_eq_Inr kv_ops_attention split: if_splits)
    then have "same_queued s s1" using 1(2,3) by (auto dest: res_allD)
    then show ?case by (intro res_all_if) simp_all
  qed
  then show "update_waiting_for_remote_kv env r s = Inr (r', s') \<Longrightarrow> same_queued s s'" by (auto dest: res_allD)
qed

lemma try_promote_queued: "try_promote_blocked env r s = Inr (b, r', s') \<Longrightarrow> same_queued s s'"
  by (cases "status r") (auto simp: try_promote_blocked_def and_then_eq_Inr Let_def remote_kv_queued
    split: if_splits option.splits prod.splits)

lemma lookup_computed_queued:
  assumes "lookup_computed env r st = Inr (x, r', st')" shows "same_queued (st_sched st) (st_sched st')"
proof -
  have "res_all (\<lambda>(x, r', st'). same_queued (st_sched st) (st_sched st')) (lookup_computed env r st)"
    unfolding lookup_computed_def Let_def
    by (intro res_all_intros res_all_prod') (simp_all add: kv_ops_attention(4))
  then show ?thesis using assms by (auto dest: res_allD)
qed

lemma plan_encoder_queued: "plan_encoder cfg env r c n st = Inr (x, st') \<Longrightarrow> same_queued (st_sched st) (st_sched st')"
  by (auto simp: plan_encoder_def and_then_eq_Inr split: if_splits)

lemma waiting_num_new_queued:
  assumes "waiting_num_new cfg env r nl ne c la st = Inr (x, st')" shows "same_queued (st_sched st) (st_sched st')"
proof -
  have "res_all (\<lambda>(x, st'). same_queued (st_sched st) (st_sched st')) (waiting_num_new cfg env r nl ne c la st)"
    unfolding waiting_num_new_def Let_def
    by (intro res_all_intros res_all_prod')
      (auto simp: and_then_eq_Inr split: if_splits prod.splits dest!: plan_encoder_queued)
  then show ?thesis using assms by (auto dest: res_allD)
qed

lemma untouch_encoder_queued: "untouch_encoder r st = Inr st' \<Longrightarrow> same_queued s (st_sched st') = same_queued s (st_sched st)"
  by (auto simp: untouch_encoder_def and_then_eq_Inr split: if_splits)

lemma admit_blocks_queued:
  assumes "admit_blocks cfg env r n bl nl ne la inputs st = Inr (b, st')" shows "same_queued (st_sched st) (st_sched st')"
proof -
  have "res_all (\<lambda>(b, st'). same_queued (st_sched st) (st_sched st')) (admit_blocks cfg env r n bl nl ne la inputs st)"
    unfolding admit_blocks_def Let_def
    by (intro res_all_intros)
      (auto simp: and_then_eq_Inr untouch_encoder_queued kv_ops_attention(3) allocate_slots_attention split: if_splits)
  then show ?thesis using assms by (auto dest: res_allD)
qed

lemma pop_queue_queued:
  assumes "pop_queue w s = Inr (rid, s')"
  shows "kv_attention (sc_kv s') = kv_attention (sc_kv s) \<and> Suc (queued s') = queued s"
proof -
  obtain q where q: "rq_pop (req_lt s) (queue_of w s) = Inr (rid, q)" "s' = set_queue w q s"
    using assms by (auto simp: pop_queue_def and_then_eq_Inr)
  have "rq_len (queue_of w s) = Suc (rq_len q)" using rq_pop_elems(1) [OF q(1)] size_rq_elems by (metis size_add_mset)
  then show ?thesis using q(2) by (cases w) (simp_all add: queued_def queue_of_def set_queue_def)
qed

lemma started_status:
  "(case st of WAITING \<Rightarrow> Inr a | PREEMPTED \<Rightarrow> Inr b | _ \<Rightarrow> Inl RuntimeError) = Inr x \<Longrightarrow> x = a \<or> x = b"
  by (cases st) auto

lemma encoder_inputs_queued:
  "allocate_encoder_inputs rid inputs ext b st = Inr st' \<Longrightarrow> same_queued s (st_sched st') = same_queued s (st_sched st)"
  using res_allD [OF allocate_encoder_inputs_sched, of rid inputs ext b st st'] by auto

lemma start_request_queued:
  assumes "start_request cfg rid n c plan ws = Inr ws'"
  shows "same_queued (st_sched (ws_step ws)) (st_sched (ws_step ws'))"
proof -
  have "res_all (\<lambda>ws'. same_queued (st_sched (ws_step ws)) (st_sched (ws_step ws'))) (start_request cfg rid n c plan ws)"
    unfolding start_request_def Let_def
    by (intro res_all_intros res_all_prod')
      (drule started_status, drule encoder_inputs_queued [where s = "st_sched (ws_step ws)"], auto)
  then show ?thesis using assms by (rule res_allD)
qed

lemma skip_request_queued:
  "skip_request w ws = Inr ws' \<Longrightarrow> kv_attention (sc_kv (st_sched (ws_step ws'))) = kv_attention (sc_kv (st_sched (ws_step ws))) \<and>
    Suc (queued (st_sched (ws_step ws'))) = queued (st_sched (ws_step ws))"
  by (auto simp: skip_request_def and_then_eq_Inr Let_def dest: pop_queue_queued)

definition shrinks :: "wstep \<Rightarrow> bool \<times> wstep \<Rightarrow> bool" where
  "shrinks ws p \<longleftrightarrow> kv_attention (sc_kv (st_sched (ws_step (snd p)))) = kv_attention (sc_kv (st_sched (ws_step ws))) \<and>
     (fst p \<longrightarrow> queued (st_sched (ws_step (snd p))) < queued (st_sched (ws_step ws)))"

lemma admit_request_shrinks: "res_all (shrinks ws) (admit_request cfg env w r ws)"
  unfolding admit_request_def
proof (rule res_all_and_then, goal_cases)
  case (1 x)
  obtain res r1 st1 where x: "x = (res, r1, st1)" by (metis surj_pair)
  have q1: "same_queued (st_sched (ws_step ws)) (st_sched st1)" using lookup_computed_queued 1 x by blast
  show ?case
  proof (cases res)
    case Skip
    show ?thesis unfolding x prod.case Skip lookup_result.case
      by (intro res_all_and_then) (use q1 in \<open>auto simp: shrinks_def same_queued_def dest!: skip_request_queued\<close>)
  next
    case (Admit blocks nl ne computed la)
    show ?thesis unfolding x prod.case Admit lookup_result.case Let_def
      by (intro res_all_intros res_all_prod')
        (use q1 in \<open>auto simp: shrinks_def same_queued_def put_req_def queued_def
          dest!: waiting_num_new_queued admit_blocks_queued pop_queue_queued start_request_queued\<close>)
  qed
qed

lemma waiting_iteration_shrinks: "res_all (shrinks ws) (waiting_iteration cfg env ws)"
  unfolding waiting_iteration_def Let_def
proof (intro res_all_if res_all_and_then, goal_cases)
  case (2 sel w rid r x)
  obtain ready r1 s1 where x: "x = (ready, r1, s1)" by (metis surj_pair)
  let ?ws1 = "ws\<lparr>ws_step := (ws_step ws)\<lparr>st_sched := s1\<rparr>\<rparr>"
  have s1: "same_queued (st_sched (ws_step ws)) s1" using 2(6) x by (auto split: if_splits dest: try_promote_queued)
  then have up: "shrinks ?ws1 p \<Longrightarrow> shrinks ws p" for p by (simp add: shrinks_def same_queued_def)
  show ?case unfolding x prod.case
    by (intro res_all_if res_all_and_then)
      (use s1 res_allD [OF admit_request_shrinks, THEN up] in \<open>auto simp: shrinks_def same_queued_def res_all_def dest!: skip_request_queued\<close>)
qed (simp add: shrinks_def)

lemma returns_lookup_computed: "positive_blocks (sc_kv (st_sched st)) \<Longrightarrow> returns (lookup_computed env r st)"
  unfolding lookup_computed_def Let_def by (intro returns_intros) (simp_all add: returns_get_computed_blocks)

lemma returns_admit_request: "positive_blocks (sc_kv (st_sched (ws_step ws))) \<Longrightarrow> returns (admit_request cfg env w r ws)"
  unfolding admit_request_def
  by (intro returns_bind returns_lookup_computed) (simp_all add: returns Let_def split: lookup_result.split option.split prod.split)

lemma returns_waiting_iteration:
  assumes "positive_blocks (sc_kv (st_sched (ws_step ws)))" shows "returns (waiting_iteration cfg env ws)"
  unfolding waiting_iteration_def Let_def
proof (intro returns_if returns_bind, goal_cases)
  case (8 sel w rid r x)
  obtain ready r1 s1 where x: "x = (ready, r1, s1)" by (metis surj_pair)
  have "positive_blocks (sc_kv s1)"
    using assms 8(6) x by (auto simp: positive_blocks_def same_queued_def split: if_splits dest!: try_promote_queued)
  then show ?case unfolding x prod.case by (intro returns_if returns_bind returns_admit_request) (simp_all add: returns)
qed (simp_all add: returns)

lemma returns_waiting_loop:
  "positive_blocks (sc_kv (st_sched (ws_step ws))) \<Longrightarrow> queued (st_sched (ws_step ws)) < fuel \<Longrightarrow> returns (waiting_loop cfg env fuel ws)"
proof (induction fuel arbitrary: ws)
  case (Suc fuel)
  have "returns (waiting_loop cfg env fuel ws')" if "waiting_iteration cfg env ws = Inr (True, ws')" for ws'
    using res_allD [OF waiting_iteration_shrinks that] Suc.prems by (intro Suc.IH) (simp_all add: shrinks_def positive_blocks_def)
  then show ?case using returns_waiting_iteration [OF Suc.prems(1)] by (auto simp: Let_def)
qed simp

section \<open>A step\<close>

lemma returns_schedule_running: "returns (schedule_running cfg env s)"
  unfolding schedule_running_def Let_def by (rule returns_running_loop) simp

lemma schedule_running_positive:
  "schedule_running cfg env s = Inr st \<Longrightarrow> positive_blocks (sc_kv (st_sched st)) = positive_blocks (sc_kv s)"
  unfolding schedule_running_def Let_def positive_blocks_def
  by (drule running_loop_attention) (simp add: kv_ops_attention(5))

lemma returns_schedule_waiting:
  assumes "positive_blocks (sc_kv (st_sched st))" shows "returns (schedule_waiting cfg env st)"
  unfolding schedule_waiting_def Let_def
  by (intro returns_if returns_bind returns_waiting_loop) (use assms in \<open>simp_all add: returns queued_def\<close>)

lemma returns_schedule: "positive_blocks (sc_kv s) \<Longrightarrow> returns (schedule cfg env s)"
  unfolding schedule_def
  by (intro returns_bind returns_prod returns_schedule_running returns_schedule_waiting)
    (simp_all add: returns schedule_running_positive)

end
