(* ===== verification/Engine.thy ===== *)
theory Engine
  imports Sched_Finish Returns
begin

text \<open>
  The scheduler under the synchronous engine loop: steps of \<^verbatim>\<open>EngineCore\<close> that add and abort requests,
  schedule, and update from the model's output. The properties of the scheduler are here, with a small
  engine for their witnesses.
\<close>

section \<open>Steps of the engine\<close>

lemma res_all_mono: "res_all P m \<Longrightarrow> (\<And>x. P x \<Longrightarrow> Q x) \<Longrightarrow> res_all Q m"
  by (simp add: res_all_def)

lemma build_output_inv:
  "res_all (\<lambda>(out, s'). num_scheduled_tokens out = st_num_scheduled st \<and>
      sc_requests s' = sc_requests (st_sched st) \<and> sc_running s' = sc_running (st_sched st) \<and>
      sc_waiting s' = sc_waiting (st_sched st) \<and> sc_skipped_waiting s' = sc_skipped_waiting (st_sched st)) (build_output cfg st)"
proof -
  define cs where "cs = (case sc_running (st_sched st) of
      [] \<Rightarrow> (replicate (num_kv_cache_groups (sc_kv (st_sched st))) 0, st_sched st)
    | rid # _ \<Rightarrow> (let (ns, k) = kv_get_num_common_prefix_blocks rid (sc_kv (st_sched st)) in (ns, (st_sched st)\<lparr>sc_kv := k\<rparr>)))"
  have same: "(st_sched st)\<lparr>sc_kv := sc_kv (st_sched st)\<rparr> = st_sched st" by simp
  have "\<exists>common k. cs = (common, (st_sched st)\<lparr>sc_kv := k\<rparr>)"
  proof (cases "sc_running (st_sched st)")
    case Nil
    then show ?thesis unfolding cs_def by (auto intro!: exI [of _ "sc_kv (st_sched st)"])
  next
    case (Cons rid rids)
    then show ?thesis unfolding cs_def by (auto split: prod.splits)
  qed
  then obtain common k where c: "cs = (common, (st_sched st)\<lparr>sc_kv := k\<rparr>)" by blast
  show ?thesis unfolding build_output_def Let_def cs_def [symmetric, unfolded Let_def] c
    by (auto intro!: res_all_and_then split: prod.splits)
qed

lemma keeps_inv_cong:
  assumes "keeps_inv K R s" and "sc_requests s' = sc_requests s" "sc_running s' = sc_running s" "sc_waiting s' = sc_waiting s"
    "sc_skipped_waiting s' = sc_skipped_waiting s"
  shows "keeps_inv K R s'"
proof -
  have "places s' = places s" "alive s' = alive s" using assms(2-5) by (simp_all add: places_def alive_def fun_eq_iff)
  moreover from this have "qinv {#} {} {} s'" using assms by (simp add: keeps_inv_def qinv_def entry_ok_def)
  ultimately show ?thesis using assms by (auto simp: keeps_inv_def pending_def)
qed

lemma keeps_inv_put:
  assumes "keeps_inv K R s" and "map_of (sc_requests s) rid = Some r0" and "request_id r = request_id r0"
    and "status r = status r0" "resumable r = resumable r0"
  shows "keeps_inv K R (put_req r s)"
proof -
  have q: "qinv {#} {} {} s" using assms(1) by (simp add: keeps_inv_def)
  then have m: "map_of (sc_requests s) (request_id r) = Some r0" using qinv_id [OF q assms(2)] assms(2,3) by simp
  show ?thesis using assms qinv_put [OF q m] alive_put_same [OF m] by (auto simp: keeps_inv_def pending_def)
qed

lemma update_after_schedule_inv:
  assumes "keeps_inv K R s"
  shows "res_all (\<lambda>(out', s'). num_scheduled_tokens out' = num_scheduled_tokens out \<and> keeps_inv K R s')
    (update_after_schedule cfg out s)"
proof -
  have frame: "keeps_inv K R (t\<lparr>sc_encoder := e\<rparr>) = keeps_inv K R t" "keeps_inv K R (t\<lparr>sc_finished_req_ids := fi\<rparr>) = keeps_inv K R t" for t e fi
    by (simp_all add: keeps_inv_def pending_def)
  have adv: "res_all (\<lambda>a. keeps_inv K R (snd a)) (advance_request cfg rn a)" if "keeps_inv K R (snd a)" for rn a
  proof -
    obtain rid n flag t where [simp]: "rn = (rid, n)" "a = (flag, t)" by (metis surj_pair)
    have put: "keeps_inv K R (put_req (r\<lparr>num_computed_tokens := x, is_prefill_chunk := y\<rparr>) t)"
      if "get_req rid t = Inr r" for r x y
      using keeps_inv_put [of K R t rid r] \<open>keeps_inv K R (snd a)\<close> that by (simp add: get_req_eq)
    show ?thesis unfolding advance_request_def prod.case Let_def
      by (auto intro!: res_all_and_then res_all_if simp: frame put)
  qed
  have pl: "res_all (\<lambda>a. keeps_inv K R (snd a)) (add_placeholders cfg spec rid a)" if "keeps_inv K R (snd a)" for spec rid a
  proof -
    obtain flag t where [simp]: "a = (flag, t)" by fastforce
    have put: "keeps_inv K R (put_req (r\<lparr>num_output_placeholders := x, spec_token_ids := y\<rparr>) t)"
      if "get_req rid t = Inr r" for r x y
      using keeps_inv_put [of K R t rid r] \<open>keeps_inv K R (snd a)\<close> that by (simp add: get_req_eq)
    show ?thesis unfolding add_placeholders_def prod.case
      using that by (auto intro!: res_all_and_then res_all_if simp: put)
  qed
  have f: "res_all (\<lambda>a. keeps_inv K R (snd a))
    (fold_res (advance_request cfg) (num_scheduled_tokens out) (has_structured_output_requests out, s))"
    by (rule fold_res_all) (use assms adv in auto)
  have g: "res_all (\<lambda>a. keeps_inv K R (snd a)) (fold_res (add_placeholders cfg spec) ids (p, t))" if "keeps_inv K R t" for spec ids p t
    by (rule fold_res_all) (use that pl in auto)
  show ?thesis unfolding update_after_schedule_def Let_def
  proof (rule res_all_and_then, goal_cases)
    case (1 x)
    obtain flag s1 where x: "x = (flag, s1)" by fastforce
    have s1: "keeps_inv K R (s1\<lparr>sc_finished_req_ids := {}\<rparr>)" using res_allD [OF f 1] x by (simp add: frame)
    show ?case unfolding x prod.case
      by (intro res_all_if res_all_and_then res_all_prod) (use s1 res_allD [OF g [OF s1]] in auto)
  qed
qed

lemma schedule_inv:
  assumes "sched_inv cfg s"
  shows "res_all (\<lambda>(out, s'). sched_inv cfg s' \<and> pending (set (keys (num_scheduled_tokens out))) s') (schedule cfg env s)"
  unfolding schedule_def
proof (intro res_all_and_then, goal_cases)
  case (1 st1 st u x)
  obtain out s1 where x: "x = (out, s1)" by fastforce
  have r: "run_done False (step_budget cfg s) (cfg_max_num_running_reqs cfg) st1"
    by (rule res_allD [OF schedule_running_phase [OF assms] 1(1)]) simp
  have i: "step_inv False (step_budget cfg s) (cfg_max_num_running_reqs cfg) {#} st"
    by (rule res_allD [OF schedule_waiting_phase [OF r] 1(2)]) simp
  let ?K = "set (keys (st_num_scheduled st))" let ?R = "sc_running (st_sched st)"
  have k: "keeps_inv ?K ?R (st_sched st)"
    using step_invD [OF i] by (auto simp: keeps_inv_def pending_def)
  have b: "num_scheduled_tokens out = st_num_scheduled st" "keeps_inv ?K ?R s1"
    using res_allD [OF build_output_inv 1(4)] x keeps_inv_cong [OF k] by simp_all
  have l: "length ?R \<le> cfg_max_num_running_reqs cfg" by (rule step_invD(9) [OF i])
  show ?case unfolding x prod.case
    by (rule res_all_mono [OF update_after_schedule_inv [OF b(2), of out cfg]])
      (use l b(1) in \<open>auto simp: keeps_inv_def sched_inv_def\<close>)
qed

lemma sched_inv_keeps: "sched_inv cfg s \<longleftrightarrow> keeps_inv {} (sc_running s) s \<and> length (sc_running s) \<le> cfg_max_num_running_reqs cfg"
  by (simp add: sched_inv_def keeps_inv_def pending_def)

lemma enqueue_inv:
  assumes i: "sched_inv cfg s" and n: "map_of (sc_requests s) (request_id r) = None"
    and r: "\<not> resumable r" "\<not> is_finished r" "status r \<noteq> RUNNING"
  shows "sched_inv cfg (enqueue_waiting_request r (put_req r s))"
proof -
  let ?t = "enqueue_waiting_request r (put_req r s)" let ?i = "request_id r"
  have q: "qinv {#} {} {} s" using i by (simp add: sched_inv_def)
  have na: "\<not> alive s ?i" using n by (simp add: alive_def)
  then have z: "count (places s) ?i = 0" using qinvD(2) [OF q, of ?i] by simp
  then have out: "?i \<notin> set (sc_running s)" "?i \<notin># rq_elems (sc_waiting s)" by (auto simp: places_def count_eq_zero_iff)
  have t: "sc_requests ?t = sc_requests (put_req r s)" "sc_running ?t = sc_running s" "places ?t = add_mset ?i (places s)"
    by (simp_all add: enqueue_waiting_request_def places_def)
  have w: "x \<in># rq_elems (sc_waiting ?t) \<longleftrightarrow> x \<in># rq_elems (sc_waiting s) \<or> x = ?i \<and> \<not> is_blocked_waiting_status (status r)" for x
    by (auto simp: enqueue_waiting_request_def)
  have al: "alive ?t x \<longleftrightarrow> x = ?i \<or> alive s x" for x using t(1) r(2) by (auto simp: alive_def split: if_splits)
  have "qinv {#} {} {} ?t"
  proof (rule qinvI)
    show "distinct (keys (sc_requests ?t))" using qinvD(1) [OF q] by (simp add: t(1))
    show "count (places ?t + {#}) x = (if alive ?t x \<or> x \<in> {} then 1 else 0)" for x
      using qinvD(2) [OF q, of x] z by (auto simp: t(3) al)
    show "entry_ok {} ?t x rx" if "map_of (sc_requests ?t) x = Some rx" for x rx
    proof (cases "x = ?i")
      case True
      then have "rx = r" using that by (simp add: t(1))
      then show ?thesis using True r out unfolding entry_ok_def t(2) w by simp
    next
      case False
      then show ?thesis using that qinvD(3) [OF q, of x rx] by (simp add: entry_ok_def t w)
    qed
  qed
  then show ?thesis using i t(2) by (simp add: sched_inv_def)
qed

lemma update_request_as_session_frame:
  assumes "update_request_as_session env session update s = Inr (r', s')"
  shows "request_id r' = request_id session \<and> resumable r' = resumable session \<and> status r' = WAITING \<and>
    (\<exists>n. s' = put_req r' (s\<lparr>sc_num_waiting_for_streaming_input := n\<rparr>))"
proof -
  have same: "s = s\<lparr>sc_num_waiting_for_streaming_input := sc_num_waiting_for_streaming_input s\<rparr>" by simp
  show ?thesis using assms unfolding update_request_as_session_def Let_def
    by (auto simp: and_then_eq_Inr split: if_splits elim!: update_block_hashes_frame intro: arg_cong [OF same])
qed

lemma add_request_inv:
  assumes i: "sched_inv cfg s" and r: "\<not> resumable r" "\<not> is_finished r" "status r \<noteq> RUNNING"
  shows "res_all (sched_inv cfg) (add_request env r s)"
proof (cases "map_of (sc_requests s) (request_id r)")
  case None
  then show ?thesis using enqueue_inv [OF i None r] r(1) by (simp add: add_request_def)
next
  case (Some ex)
  have q: "qinv {#} {} {} s" using i by (simp add: sched_inv_def)
  have id: "request_id ex = request_id r" using qinv_id [OF q Some] by simp
  have put: "sched_inv cfg (put_req (ex\<lparr>streaming_queue := sq\<rparr>) s)" for sq
    using i keeps_inv_put [of "{}" "sc_running s" s "request_id r" ex "ex\<lparr>streaming_queue := sq\<rparr>"] Some
    by (simp add: sched_inv_keeps)
  have sess: "sched_inv cfg s'" if "update_request_as_session env ex u s = Inr (r', s')" "status ex = WAITING_FOR_STREAMING_REQ" for u r' s'
  proof -
    note f = update_request_as_session_frame [OF that(1)]
    then obtain n where s': "s' = put_req r' (s\<lparr>sc_num_waiting_for_streaming_input := n\<rparr>)" by blast
    have "qinv {#} {} {} s'" unfolding s'
      by (rule qinv_put_status [of "{#}" "{}" _ r' ex])
        (use q f Some id that(2) in \<open>auto simp: is_finished_def is_blocked_waiting_status_def\<close>)
    then show ?thesis using i s' by (simp add: sched_inv_def)
  qed
  have fin: "sched_inv cfg s'" if "finish_requests env ids fs s = Inr (x, s')" for ids fs x s'
    by (rule finish_requests_sched_inv(1) [OF that i])
  show ?thesis unfolding add_request_def Some option.case
    by (intro res_all_if res_all_option res_all_and_then) (use put sess fin in auto)
qed

lemma update_draft_inv:
  assumes "keeps_inv K R s"
  shows "keeps_inv K R (update_draft_token_ids env ids ds s)"
proof -
  have one: "keeps_inv K R (update_draft_one env rd t)" if "keeps_inv K R t" for rd t
    using that by (auto simp: update_draft_one_def split: prod.split option.split intro!: keeps_inv_put)
  have "keeps_inv K R (fold (update_draft_one env) rds t)" if "keeps_inv K R t" for rds t
    using that by (induction rds arbitrary: t) (simp_all add: one)
  then show ?thesis using assms by (simp add: update_draft_token_ids_def)
qed

lemma force_preempt_inv:
  assumes f: "force_preempt rid s = Inr s'" and q: "qinv {#} {} {} s" and r: "sc_running s = run @ [rid]"
  shows "qinv {#} {} {} s' \<and> sc_running s' = run"
proof -
  obtain s1 r1 where p: "preempt_request rid (s\<lparr>sc_running := run\<rparr>) = Inr s1" "map_of (sc_requests s1) rid = Some r1"
    and s': "s' = put_req (r1\<lparr>num_output_placeholders := 0, discard_latest_async_tokens := True\<rparr>) s1"
    using f r by (auto simp: force_preempt_def and_then_eq_Inr get_req_eq)
  have "mset (sc_running s) = add_mset rid (mset run)" using r by simp
  note a = preempt_qinv [OF p(1) q this]
  have "request_id r1 = rid" using qinv_id [OF a(1) p(2)] by simp
  then show ?thesis unfolding s' using a(1,2) p(2) qinv_put [OF a(1), of _ r1] by simp
qed

lemma reset_prefix_cache_inv:
  assumes i: "sched_inv cfg s"
  shows "res_all (\<lambda>(b, s'). sched_inv cfg s') (sched_reset_prefix_cache rr cr s)"
proof -
  have fold: "qinv {#} {} {} s' \<and> sc_running s' = []"
    if "fold_res force_preempt (rev run) t = Inr s'" "qinv {#} {} {} t" "sc_running t = run" for run t s'
    using that
  proof (induction run arbitrary: t rule: rev_induct)
    case (snoc rid run)
    then obtain t1 where "force_preempt rid t = Inr t1" "fold_res force_preempt (rev run) t1 = Inr s'"
      by (auto simp: and_then_eq_Inr)
    then show ?case using force_preempt_inv [of rid t t1 run] snoc by blast
  qed simp
  show ?thesis unfolding sched_reset_prefix_cache_def Let_def
  proof (rule res_all_and_then, goal_cases)
    case (1 s1)
    have "sched_inv cfg s1"
      using 1 i fold [of "sc_running s" s] by (auto simp: sched_inv_def and_then_eq_Inr split: if_splits)
    then show ?case by (intro res_all_and_then res_all_prod res_all_if) auto
  qed
qed

text \<open>
  The loop of the synchronous engine: requests arrive between two steps, may be aborted at any time, and
  the output of a step is processed before the next one is scheduled. The answers of the connectors and
  of the grammar may differ at every step, so the environment is not fixed; sessions with further input
  (resumable requests) are left out.
\<close>

inductive eng_reach :: "sched_config \<Rightarrow> scheduler \<Rightarrow> scheduler_output option \<Rightarrow> bool" for cfg where
  start: "eng_reach cfg (init_scheduler cfg fs n k) None"
| arrive: "eng_reach cfg s None \<Longrightarrow> \<not> resumable r \<Longrightarrow> \<not> is_finished r \<Longrightarrow> status r \<noteq> RUNNING \<Longrightarrow>
    add_request env r s = Inr s' \<Longrightarrow> eng_reach cfg s' None"
| abort: "eng_reach cfg s p \<Longrightarrow> finish_requests env ids st s = Inr (res, s') \<Longrightarrow> eng_reach cfg s' p"
| step: "eng_reach cfg s None \<Longrightarrow> schedule cfg env s = Inr (out, s') \<Longrightarrow> eng_reach cfg s' (Some out)"
| update: "eng_reach cfg s (Some out) \<Longrightarrow> update_from_output cfg env out mo s = Inr (outs, s') \<Longrightarrow> eng_reach cfg s' None"
| drafts: "eng_reach cfg s p \<Longrightarrow> eng_reach cfg (update_draft_token_ids env ids ds s) p"
| pause: "eng_reach cfg s p \<Longrightarrow> eng_reach cfg (set_pause_state ps s) p"
| reset: "eng_reach cfg s None \<Longrightarrow> sched_reset_prefix_cache rr cr s = Inr (b, s') \<Longrightarrow> eng_reach cfg s' None"

lemma init_inv: "sched_inv cfg (init_scheduler cfg fs n k)"
  by (auto simp: sched_inv_def init_scheduler_def places_def alive_def intro!: qinvI)

lemma eng_reach_inv:
  "eng_reach cfg s p \<Longrightarrow> sched_inv cfg s \<and> (\<forall>out. p = Some out \<longrightarrow> pending (set (keys (num_scheduled_tokens out))) s)"
proof (induction rule: eng_reach.induct)
  case start
  then show ?case by (simp add: init_inv)
next
  case arrive
  then show ?case using res_allD [OF add_request_inv] by blast
next
  case abort
  then show ?case using finish_requests_sched_inv by blast
next
  case (step s env out s')
  then show ?case using res_allD [OF schedule_inv step.hyps(2)] by simp
next
  case (update s out env mo outs s')
  then show ?case using res_allD [OF update_from_output_inv update.hyps(2)] by simp
next
  case (drafts s p env ids ds)
  then show ?case
    using update_draft_inv [of "{}" "sc_running s" s env ids ds]
      update_draft_inv [of "set (keys (num_scheduled_tokens (the p)))" "sc_running s" s env ids ds]
    by (auto simp: sched_inv_def keeps_inv_def pending_def)
next
  case (pause s p ps)
  then show ?case by (simp add: set_pause_state_def pending_def)
next
  case (reset s rr cr b s')
  then show ?case using res_allD [OF reset_prefix_cache_inv reset.hyps(2)] by simp
qed

section \<open>A small engine\<close>

text \<open>Two running requests at most, four tokens a step, three usable blocks of two tokens, no connector.\<close>

definition small_cfg :: sched_config where
  "small_cfg = \<lparr>cfg_policy = FCFS, cfg_max_num_running_reqs = 2, cfg_max_num_scheduled_tokens = 4, cfg_max_model_len = 100,
     cfg_long_prefill_token_threshold = 0, cfg_enable_chunked_prefill = True, cfg_reserve_full_isl = False,
     cfg_use_eagle = False, cfg_num_spec_tokens = 0, cfg_num_lookahead_tokens = 0, cfg_need_mamba_split = False,
     cfg_cache_block_size = 2, cfg_max_num_encoder_input_tokens = 0, cfg_disable_chunked_mm_input = False,
     cfg_is_encoder_decoder = False, cfg_max_loras = None, cfg_use_pp = False, cfg_async_scheduling = False,
     cfg_use_v2_model_runner = False, cfg_needs_kv_cache_zeroing = False, cfg_block_size = 2,
     cfg_recompute_kv_load_failures = True\<rparr>"

definition concat_env :: hash_env where
  "concat_env = \<lparr>hash_fn = (\<lambda>(p, ts, _). p @ map word_of_int ts), NONE_HASH = [0], embeds_digest = (\<lambda>_. [])\<rparr>"

definition small_env :: sched_env where
  "small_env = \<lparr>en_hash = concat_env, en_hasher = Some (concat_env, 2), en_connector = False, en_hma = False,
     en_matched = (\<lambda>_ _. (None, False)), en_delay_free = (\<lambda>_ _. False), en_ec_item = (\<lambda>_. False),
     en_should_advance = (\<lambda>_. False), en_validate_tokens = (\<lambda>_ ts. ts)\<rparr>"

definition tiny_kv :: kv_manager where
  "tiny_kv = (case KVCacheManager [small_group] 4 100 2 False False False False 1 1 False of Inr k \<Rightarrow> k | Inl _ \<Rightarrow> undefined)"

definition small_sched :: scheduler where
  "small_sched = (case fold_res (add_request small_env) [base_request ''a'' [1, 2, 3], base_request ''b'' [6, 7]]
     (init_scheduler small_cfg False 0 tiny_kv) of Inr s \<Rightarrow> s | Inl _ \<Rightarrow> undefined)"

lemma small_sched_reach: "eng_reach small_cfg small_sched None"
proof -
  let ?s0 = "init_scheduler small_cfg False 0 tiny_kv"
  let ?add = "\<lambda>r s. enqueue_waiting_request r (put_req r s)"
  let ?a = "base_request ''a'' [1, 2, 3]" and ?b = "base_request ''b'' [6, 7]"
  have base: "\<not> resumable (base_request i ts)" "\<not> is_finished (base_request i ts)" "status (base_request i ts) \<noteq> RUNNING" for i ts
    by (simp_all add: base_request_def is_finished_def)
  have new: "add_request small_env r s = Inr (?add r s)" if "map_of (sc_requests s) (request_id r) = None" "\<not> resumable r" for r s
    using that by (simp add: add_request_def)
  have "sc_requests ?s0 = []" by (simp add: init_scheduler_def)
  then have a: "add_request small_env ?a ?s0 = Inr (?add ?a ?s0)" and b: "add_request small_env ?b (?add ?a ?s0) = Inr (?add ?b (?add ?a ?s0))"
    using base by (intro new; simp add: enqueue_waiting_request_def put_req_def)+
  have "eng_reach small_cfg (?add ?a ?s0) None" by (rule eng_reach.arrive [OF eng_reach.start base a])
  then have "eng_reach small_cfg (?add ?b (?add ?a ?s0)) None" by (rule eng_reach.arrive [OF _ base b])
  moreover have "small_sched = ?add ?b (?add ?a ?s0)" by (simp add: small_sched_def a b)
  ultimately show ?thesis by simp
qed

lemma small_sched_progress:
  "0 < cfg_max_model_len small_cfg \<and> (\<forall>rid r. map_of (sc_requests small_sched) rid = Some r \<longrightarrow> req_progress small_cfg r)"
proof -
  have "list_all (\<lambda>(_, r). req_progress small_cfg r) (sc_requests small_sched) \<and> 0 < cfg_max_model_len small_cfg" by code_simp
  then show ?thesis by (auto simp: list_all_iff dest!: map_of_SomeD)
qed

lemma small_step:
  obtains out s' where "schedule small_cfg small_env small_sched = Inr (out, s')"
    and "num_scheduled_tokens out = [(''a'', 3), (''b'', 1)]" and "sc_running s' = [''a'', ''b'']"
    and "get_request_counts s' = (2, 0)" and "map_option status (map_of (sc_requests s') ''b'') = Some RUNNING"
proof -
  have "case schedule small_cfg small_env small_sched of Inl _ \<Rightarrow> False
    | Inr (out, s') \<Rightarrow> num_scheduled_tokens out = [(''a'', 3), (''b'', 1)] \<and> sc_running s' = [''a'', ''b''] \<and>
        get_request_counts s' = (2, 0) \<and> map_option status (map_of (sc_requests s') ''b'') = Some RUNNING" by code_simp
  then show thesis using that by (auto split: sum.splits)
qed

section \<open>Properties\<close>

text \<open>
  C4: in every reachable state of the engine a live request is in exactly one place, the running list or
  one of the two waiting queues, and exactly once; a finished or unknown request is in none. No more
  requests run than configured, and a request scheduled in the step under way runs or is finished.
\<close>

theorem requests_in_one_place:
  assumes "eng_reach cfg s p"
  shows "count (mset (sc_running s) + mset (rq_list (req_lt s) (sc_waiting s)) + mset (rq_list (req_lt s) (sc_skipped_waiting s))) rid
      = (if \<exists>r. map_of (sc_requests s) rid = Some r \<and> \<not> is_finished r then 1 else 0) \<and>
    length (sc_running s) \<le> cfg_max_num_running_reqs cfg \<and>
    (\<forall>out r. p = Some out \<and> rid \<in> set (keys (num_scheduled_tokens out)) \<and> map_of (sc_requests s) rid = Some r \<longrightarrow>
      rid \<in> set (sc_running s) \<or> is_finished r)"
proof -
  have i: "qinv {#} {} {} s" "length (sc_running s) \<le> cfg_max_num_running_reqs cfg"
    using eng_reach_inv [OF assms] by (simp_all add: sched_inv_def)
  have "\<forall>out. p = Some out \<longrightarrow> pending (set (keys (num_scheduled_tokens out))) s" using eng_reach_inv [OF assms] by blast
  then show ?thesis using qinvD(2) [OF i(1), of rid] i(2) by (auto simp: places_def alive_def pending_def)
qed

theorem requests_in_one_place_witness:
  "\<exists>out s. schedule small_cfg small_env small_sched = Inr (out, s) \<and> ''b'' \<in> set (keys (num_scheduled_tokens out)) \<and>
     count (mset (sc_running s) + mset (rq_list (req_lt s) (sc_waiting s)) + mset (rq_list (req_lt s) (sc_skipped_waiting s))) ''b'' = 1"
proof (rule small_step)
  fix out s
  assume o: "schedule small_cfg small_env small_sched = Inr (out, s)" "num_scheduled_tokens out = [(''a'', 3), (''b'', 1)]"
    "map_option status (map_of (sc_requests s) ''b'') = Some RUNNING"
  have "eng_reach small_cfg s (Some out)" by (rule eng_reach.step [OF small_sched_reach o(1)])
  moreover have "\<exists>r. map_of (sc_requests s) ''b'' = Some r \<and> \<not> is_finished r" using o(3) by (auto simp: is_finished_def)
  ultimately show ?thesis using requests_in_one_place [of small_cfg s "Some out" "''b''"] o(1,2) by auto
qed

text \<open>
  C7: the request table is well formed in every reachable state: no id twice, every entry under its own
  id, running exactly the requests of the running list, and no request that waits for a grammar, a KV
  transfer or further input in the queue of schedulable requests.
\<close>

theorem request_table_typed:
  assumes "eng_reach cfg s p"
  shows "distinct (keys (sc_requests s)) \<and> (\<forall>rid r. map_of (sc_requests s) rid = Some r \<longrightarrow>
    request_id r = rid \<and> (status r = RUNNING \<longleftrightarrow> rid \<in> set (sc_running s)) \<and>
    (rid \<in> set (rq_list (req_lt s) (sc_waiting s)) \<longrightarrow> status r = WAITING \<or> status r = PREEMPTED))"
proof -
  have q: "qinv {#} {} {} s" using eng_reach_inv [OF assms] by (simp add: sched_inv_def)
  have "status r = WAITING \<or> status r = PREEMPTED"
    if "map_of (sc_requests s) rid = Some r" "rid \<in># rq_elems (sc_waiting s)" for rid r
  proof -
    have e: "entry_ok {} s rid r" by (rule qinvD(3) [OF q that(1)])
    have "rid \<in># places s + {#}" using that(2) by (simp add: places_def)
    then obtain r' where "map_of (sc_requests s) rid = Some r'" "\<not> is_finished r'" by (rule qinv_alive [OF q])
    then have "\<not> is_finished r" using that(1) by simp
    moreover have "status r \<noteq> RUNNING" using e qinv_distinct(2) [OF q, of rid] that(2) by (simp add: entry_ok_def)
    ultimately show ?thesis using e that(2)
      by (cases "status r") (simp_all add: entry_ok_def is_blocked_waiting_status_def is_finished_def)
  qed
  moreover have "set (rq_list (req_lt s) (sc_waiting s)) = set_mset (rq_elems (sc_waiting s))"
    by (metis mset_rq_list set_mset_mset)
  ultimately show ?thesis using qinvD(1,3) [OF q] by (simp add: entry_ok_def)
qed

theorem request_table_typed_witness:
  "\<exists>out s r. schedule small_cfg small_env small_sched = Inr (out, s) \<and> distinct (keys (sc_requests s)) \<and>
     map_of (sc_requests s) ''b'' = Some r \<and> request_id r = ''b'' \<and> status r = RUNNING \<and> ''b'' \<in> set (sc_running s)"
proof (rule small_step)
  fix out s
  assume o: "schedule small_cfg small_env small_sched = Inr (out, s)" "map_option status (map_of (sc_requests s) ''b'') = Some RUNNING"
  have "eng_reach small_cfg s (Some out)" by (rule eng_reach.step [OF small_sched_reach o(1)])
  from request_table_typed [OF this] o show ?thesis by auto
qed

text \<open>
  C16: the counts the scheduler reports are exact: running and waiting requests together are the live
  requests.
\<close>

theorem request_counts_exact:
  assumes "eng_reach cfg s p"
  shows "fst (get_request_counts s) + snd (get_request_counts s) =
    card {rid. \<exists>r. map_of (sc_requests s) rid = Some r \<and> \<not> is_finished r}"
proof -
  let ?A = "{rid. \<exists>r. map_of (sc_requests s) rid = Some r \<and> \<not> is_finished r}"
  have q: "qinv {#} {} {} s" using eng_reach_inv [OF assms] by (simp add: sched_inv_def)
  have "?A \<subseteq> set (keys (sc_requests s))" by (force dest!: map_of_SomeD)
  then have "finite ?A" by (rule finite_subset) simp
  then have "places s = mset_set ?A" using qinvD(2) [OF q] by (intro multiset_eqI) (simp add: alive_def)
  then have "size (places s) = card ?A" by simp
  then show ?thesis by (simp add: get_request_counts_def places_def)
qed

theorem request_counts_exact_witness:
  "\<exists>out s. schedule small_cfg small_env small_sched = Inr (out, s) \<and> get_request_counts s = (2, 0) \<and>
     card {rid. \<exists>r. map_of (sc_requests s) rid = Some r \<and> \<not> is_finished r} = 2"
proof (rule small_step)
  fix out s
  assume o: "schedule small_cfg small_env small_sched = Inr (out, s)" "get_request_counts s = (2, 0)"
  have "eng_reach small_cfg s (Some out)" by (rule eng_reach.step [OF small_sched_reach o(1)])
  from request_counts_exact [OF this] o show ?thesis by auto
qed

text \<open>
  C5: whatever a step schedules, the assertions after its loops hold: the tokens it gives out are
  within the budget, no more requests run than configured, and no request is scheduled that does not
  run or is scheduled twice. This is for a state with every live request in one place, where no request
  has computed more tokens than it has, and covers preemption, the give-back of a preempted request's
  tokens and every way a chunk is shortened.
\<close>

theorem schedule_within_limits:
  assumes "sched_inv cfg s" and "progress cfg s"
    and "0 < cfg_cache_block_size cfg" and "0 \<le> cfg_max_num_scheduled_tokens cfg"
    and "schedule_running cfg env s = Inr st1" and "schedule_waiting cfg env st1 = Inr st"
  shows "within_limits cfg st \<and> distinct (keys (st_num_scheduled st)) \<and>
    (\<forall>rid\<in>set (keys (st_num_scheduled st)). rid \<in> set (sc_running (st_sched st))) \<and>
    (\<forall>n\<in>snd ` set (st_num_scheduled st). 0 \<le> n)"
proof -
  have "run_done True (step_budget cfg s) (cfg_max_num_running_reqs cfg) st1"
    by (rule res_allD [OF schedule_running_phase [OF assms(1)] assms(5)]) (use assms in simp)
  then have i: "step_inv True (step_budget cfg s) (cfg_max_num_running_reqs cfg) {#} st"
    by (rule res_allD [OF schedule_waiting_phase assms(6)]) (use assms(3) in simp)
  note d = step_invD [OF i]
  have "length (scheduled st) \<le> length (sc_running (st_sched st))"
    using d(2,3) by (metis card_mono distinct_card finite_set order_trans card_length)
  moreover have "step_budget cfg s \<le> cfg_max_num_scheduled_tokens cfg" using assms(4) by (simp add: step_budget_def)
  ultimately show ?thesis using d by (auto simp: within_limits_def scheduled_def)
qed


theorem schedule_within_limits_witness:
  "\<exists>st1 st. schedule_running small_cfg small_env small_sched = Inr st1 \<and> schedule_waiting small_cfg small_env st1 = Inr st \<and>
     within_limits small_cfg st \<and> distinct (keys (st_num_scheduled st))"
proof (rule small_step)
  fix out s
  assume "schedule small_cfg small_env small_sched = Inr (out, s)"
  then obtain st1 st where st: "schedule_running small_cfg small_env small_sched = Inr st1" "schedule_waiting small_cfg small_env st1 = Inr st"
    by (auto simp: schedule_def and_then_eq_Inr)
  have i: "sched_inv small_cfg small_sched" using eng_reach_inv [OF small_sched_reach] by simp
  have p: "progress small_cfg small_sched"
    using small_sched_progress by (simp add: progress_def)
  show ?thesis using schedule_within_limits [OF i p _ _ st] st by (auto simp: small_cfg_def)
qed

section \<open>Termination\<close>

definition hybrid_groups :: "group_spec list" where
  "hybrid_groups = [(fst small_group, FullAttentionSpec 4), (fst small_group, SlidingWindowSpec 2 4)]"

text \<open>
  C6: every scheduling step ends. With positive block sizes none of its loops runs out of the fuel the model
  gives it: the fixed-point loop of the hybrid prefix lookup lowers the hit length with each further pass
  and stays above zero, the preemption loop takes a running request away each time, the first scheduling
  loop comes closer to the end of the running requests and the second one takes a request from a waiting
  queue. So the step returns an output or raises an exception of the code, and never loops for ever.
\<close>

theorem schedule_terminates:
  assumes "\<forall>a\<in>set (attention_groups (kv_coordinator (sc_kv s))). 0 < spec_block_size (snd (fst a))"
  shows "schedule cfg env s \<noteq> Inl Diverges"
  using returns_schedule [of s cfg env] assms by (simp add: positive_blocks_def kv_attention_def returns_def)

theorem schedule_terminates_witness:
  "\<exists>k. KVCacheManager hybrid_groups 4 100 2 True False False False 1 1 False = Inr k \<and>
     length (attention_groups (kv_coordinator k)) = 2 \<and>
     schedule small_cfg small_env (init_scheduler small_cfg False 0 k) \<noteq> Inl Diverges"
proof -
  have "case KVCacheManager hybrid_groups 4 100 2 True False False False 1 1 False of
      Inr k \<Rightarrow> map (spec_block_size \<circ> snd \<circ> fst) (attention_groups (kv_coordinator k)) = [4, 2] | Inl _ \<Rightarrow> False"
    by code_simp
  then obtain k where k: "KVCacheManager hybrid_groups 4 100 2 True False False False 1 1 False = Inr k"
    "map (spec_block_size \<circ> snd \<circ> fst) (attention_groups (kv_coordinator k)) = [4, 2]" by (auto split: sum.splits)
  have "set (map (spec_block_size \<circ> snd \<circ> fst) (attention_groups (kv_coordinator k))) = {4, 2}" unfolding k(2) by simp
  then have "\<forall>a\<in>set (attention_groups (kv_coordinator k)). 0 < spec_block_size (snd (fst a))"
    by (metis (no_types) comp_apply image_eqI insertE list.set_map singletonD zero_less_numeral)
  then show ?thesis using schedule_terminates [of "init_scheduler small_cfg False 0 k" small_cfg small_env] k
    by (auto simp: init_scheduler_def dest: arg_cong [where f = length])
qed

end
