(* ===== verification/Spec2Isabelle.thy ===== *)
theory Spec2Isabelle
  imports Echo_Prune Engine
begin

text \<open>
  The KV-cache and scheduling core of the \<^verbatim>\<open>echo\<close> repository (vLLM v1 with the Ascend ECHO
  speculative-decoding extension).

  Plan of the library, bottom up:
  \<^item> \<open>Prelude\<close>: the exception monad, slices, dictionaries, integer rounding;
  \<^item> \<open>Free_Queue\<close>: the doubly linked free list of \<^verbatim>\<open>kv_cache_utils.py\<close>.
\<close>

end
